theory Spec2Isabelle
  imports "HOL-Library.Word" "HOL-Library.Log_Nat"
begin

section \<open>Machine arithmetic used by \<open>clock_offset.cpp\<close>\<close>

subsection \<open>64-bit integers\<close>

text \<open>
  \<open>int64_t\<close>, \<open>uint64_t\<close>, \<open>size_t\<close> (LP64) and the tick count of
  \<open>std::chrono::nanoseconds\<close> are 64-bit words. Addition, subtraction and multiplication
  wrap; the signed reading is \<open>sint\<close>, the unsigned one \<open>uint\<close>. Signed overflow is
  undefined in C++; the model gives it the two's-complement result of the compiled code.
  \<open>div\<close> on words is the unsigned division.
\<close>

type_synonym i64 = "64 word"

subsection \<open>IEEE 754 binary64 (\<open>double\<close>)\<close>

text \<open>
  A \<open>double\<close> is a signed finite value, a signed infinity or a NaN. A finite value is
  kept as its sign (\<open>True\<close> for negative) and its exact magnitude, a rational number, so
  that \<open>DFinite True 0\<close> is the negative zero. Every arithmetic operation computes the
  exact result and rounds it once, to nearest with ties to even, to 53 significant bits with
  exponents from -1022 (subnormals below) to 1023; this is the arithmetic of the SSE2 and
  AArch64 instructions the compiler emits for \<open>double\<close> when it does not contract
  multiplications and additions.
\<close>

datatype double = DFinite bool rat | DInf bool | DNaN

definition pow2 :: "int \<Rightarrow> rat" where
  "pow2 e = (if 0 \<le> e then 2 ^ nat e else 1 / 2 ^ nat (- e))"

text \<open>The exponent of a positive rational: \<open>pow2 (flog2 q) \<le> q < pow2 (flog2 q + 1)\<close>.\<close>

definition flog2 :: "rat \<Rightarrow> int" where
  "flog2 q = (let k = bitlen (fst (quotient_of q)) - bitlen (snd (quotient_of q))
              in if pow2 k \<le> q then k else k - 1)"

text \<open>Rounding to the nearest integer, a tie going to the even neighbour.\<close>

definition round_even :: "rat \<Rightarrow> int" where
  "round_even m = (let f = \<lfloor>m\<rfloor>; r = m - of_int f
                   in if r < 1 / 2 then f
                      else if 1 / 2 < r then f + 1
                      else if even f then f else f + 1)"

text \<open>
  Rounding a magnitude to binary64: the spacing of the representable numbers around \<open>q\<close>
  is \<open>pow2 (e - 52)\<close> for the exponent \<open>e\<close> of \<open>q\<close>, not below -1022. \<open>None\<close> is
  overflow.
\<close>

definition round_mag :: "rat \<Rightarrow> rat option" where
  "round_mag q =
     (if q = 0 then Some 0
      else let e = max (flog2 q) (- 1022);
               u = pow2 (e - 52);
               r = of_int (round_even (q / u)) * u
           in if pow2 1024 \<le> r then None else Some r)"

definition rnd :: "bool \<Rightarrow> rat \<Rightarrow> double" where
  "rnd s q = (case round_mag q of None \<Rightarrow> DInf s | Some r \<Rightarrow> DFinite s r)"

text \<open>The exact value of a finite double with its sign.\<close>

definition signed_val :: "bool \<Rightarrow> rat \<Rightarrow> rat" where
  "signed_val s x = (if s then - x else x)"

fun fneg :: "double \<Rightarrow> double" where
  "fneg (DFinite s x) = DFinite (\<not> s) x"
| "fneg (DInf s) = DInf (\<not> s)"
| "fneg DNaN = DNaN"

fun fadd :: "double \<Rightarrow> double \<Rightarrow> double" where
  "fadd DNaN _ = DNaN"
| "fadd _ DNaN = DNaN"
| "fadd (DInf s) (DInf t) = (if s = t then DInf s else DNaN)"
| "fadd (DInf s) (DFinite _ _) = DInf s"
| "fadd (DFinite _ _) (DInf t) = DInf t"
| "fadd (DFinite s x) (DFinite t y) =
     (let r = signed_val s x + signed_val t y
      in if r = 0 then DFinite (s \<and> t) 0 else rnd (r < 0) \<bar>r\<bar>)"

definition fsub :: "double \<Rightarrow> double \<Rightarrow> double" where
  "fsub x y = fadd x (fneg y)"

fun fmul :: "double \<Rightarrow> double \<Rightarrow> double" where
  "fmul DNaN _ = DNaN"
| "fmul _ DNaN = DNaN"
| "fmul (DInf s) (DInf t) = DInf (s \<noteq> t)"
| "fmul (DInf s) (DFinite t y) = (if y = 0 then DNaN else DInf (s \<noteq> t))"
| "fmul (DFinite s x) (DInf t) = (if x = 0 then DNaN else DInf (s \<noteq> t))"
| "fmul (DFinite s x) (DFinite t y) = rnd (s \<noteq> t) (x * y)"

fun fdiv :: "double \<Rightarrow> double \<Rightarrow> double" where
  "fdiv DNaN _ = DNaN"
| "fdiv _ DNaN = DNaN"
| "fdiv (DInf s) (DInf t) = DNaN"
| "fdiv (DInf s) (DFinite t y) = DInf (s \<noteq> t)"
| "fdiv (DFinite s x) (DInf t) = DFinite (s \<noteq> t) 0"
| "fdiv (DFinite s x) (DFinite t y) =
     (if y = 0 then (if x = 0 then DNaN else DInf (s \<noteq> t))
      else rnd (s \<noteq> t) (x / y))"

text \<open>Integer to double: the nearest double (exact below \<open>2 ^ 53\<close>).\<close>

definition i2d :: "int \<Rightarrow> double" where
  "i2d i = rnd (i < 0) (of_int \<bar>i\<bar>)"

text \<open>
  Double to \<open>int64_t\<close>: the fraction is discarded (rounding towards zero). For a NaN, an
  infinity or a value outside the range of \<open>int64_t\<close> the conversion is undefined in C++;
  the model returns what the x86-64 conversion instruction returns there, the word
  \<open>0x8000000000000000\<close>.
\<close>

definition indefinite :: i64 where
  "indefinite = 0x8000000000000000"

fun d2i :: "double \<Rightarrow> i64" where
  "d2i (DFinite s x) =
     (let t = (if s then - \<lfloor>x\<rfloor> else \<lfloor>x\<rfloor>)
      in if - (2 ^ 63) \<le> t \<and> t < 2 ^ 63 then word_of_int t else indefinite)"
| "d2i (DInf s) = indefinite"
| "d2i DNaN = indefinite"

definition d_zero :: double where "d_zero = DFinite False 0"
definition d_one :: double where "d_one = DFinite False 1"
definition d_half :: double where "d_half = DFinite False (1 / 2)"


section \<open>The data of the estimator\<close>

text \<open>
  The header \<open>clock_offset.h\<close> and the packet declarations are not part of the sources at
  hand; the records below follow the uses in \<open>clock_offset.cpp\<close>.

  Modelled from the spec: the reply \<open>timesync_response\<close> carries \<open>query\<close>, a count of
  nanoseconds, and \<open>response\<close>, the device clock as a signed 64-bit count of nanoseconds.
  A \<open>sample\<close> (made by \<open>sample{base_sample, now}\<close>) adds \<open>received\<close>.
\<close>

record timesync_response =
  query :: i64
  response :: i64

record sample = timesync_response +
  received :: i64

text \<open>
  \<open>clock_offset\<close>: the slope \<open>a\<close> is a \<open>double\<close>. The intercept \<open>b\<close> is a 64-bit
  integer: line 120 prints \<open>offset.b / 1000\<close> with \<open>%ld\<close>, and lines 131 and 141 do
  integer arithmetic with it.
\<close>

record clock_offset =
  a :: double
  b :: i64

text \<open>
  \<open>clock_offset_estimator\<close>: the vector \<open>samples\<close>, the write cursor \<open>sample_index\<close>
  (a \<open>size_t\<close>; it stays below 100, so a natural number), the deadline \<open>next_sample\<close>
  (a \<open>steady_clock::time_point\<close>, in nanoseconds), \<open>sample_interval\<close> and the model
  \<open>offset\<close>. The tick unit of \<open>sample_interval\<close> is declared in the absent header; the
  field holds the length of the interval in nanoseconds, which is what line 33 adds to the
  time point.
\<close>

record estimator =
  samples :: "sample list"
  sample_index :: nat
  next_sample :: i64
  sample_interval :: i64
  offset :: clock_offset

definition num_samples :: nat where
  "num_samples = 100"

text \<open>\<open>std::chrono::seconds(1)\<close> in nanoseconds.\<close>

definition one_second :: i64 where
  "one_second = 1000000000"

section \<open>\<open>clock_offset_estimator::add_sample\<close>\<close>

text \<open>
  Lines 51 to 54. The sum is an \<open>int64_t\<close>. In \<open>latency /= samples.size()\<close> the
  right operand is a \<open>size_t\<close>, so the usual arithmetic conversions turn the sum into an
  unsigned 64-bit number before dividing: the division is the unsigned one, and its result
  is read back as an \<open>int64_t\<close>.
\<close>

definition latency_sum :: "sample list \<Rightarrow> i64" where
  "latency_sum xs = fold (\<lambda>s latency. latency + (received s - query s)) xs 0"

definition mean_latency :: "sample list \<Rightarrow> i64" where
  "mean_latency xs = latency_sum xs div of_nat (length xs)"

text \<open>
  Lines 66 to 120, the linear regression over the stored samples. \<open>X\<close> is the value of
  line 77 and 98, \<open>(s.query + s.received).count() * 0.5\<close>; \<open>Y\<close> is \<open>s.response\<close>
  converted to \<open>double\<close>.
\<close>

definition sample_X :: "sample \<Rightarrow> double" where
  "sample_X s = fmul (i2d (sint (query s + received s))) d_half"

definition sample_Y :: "sample \<Rightarrow> double" where
  "sample_Y s = i2d (sint (response s))"

text \<open>Lines 73 to 81: the means \<open>x0\<close> and \<open>y0\<close>; \<open>step_means\<close> is the body of the loop.\<close>

definition step_means :: "sample \<Rightarrow> double \<times> double \<Rightarrow> double \<times> double" where
  "step_means = (\<lambda>s (x0, y0). (fadd x0 (sample_X s), fadd y0 (sample_Y s)))"

definition means :: "sample list \<Rightarrow> double \<times> double" where
  "means xs =
     (let n = i2d (int (length xs));
          (x0, y0) = fold step_means xs (d_zero, d_zero)
      in (fdiv x0 n, fdiv y0 n))"

text \<open>
  Lines 90 to 108: the four sums over the centred coordinates; \<open>step_sums\<close> is the body of
  the loop.
\<close>

definition step_sums ::
  "double \<Rightarrow> double \<Rightarrow> sample \<Rightarrow> double \<times> double \<times> double \<times> double
     \<Rightarrow> double \<times> double \<times> double \<times> double" where
  "step_sums x0 y0 = (\<lambda>s (sum_x, sum_y, sum_x2, sum_xy).
     (let x = fsub (sample_X s) x0;
          y = fsub (sample_Y s) y0
      in (fadd sum_x x, fadd sum_y y, fadd sum_x2 (fmul x x), fadd sum_xy (fmul x y))))"

definition centred_sums :: "double \<Rightarrow> double \<Rightarrow> sample list \<Rightarrow> double \<times> double \<times> double \<times> double" where
  "centred_sums x0 y0 xs = fold (step_sums x0 y0) xs (d_zero, d_zero, d_zero, d_zero)"

text \<open>
  Lines 72 and 83 to 119: the model from the means and the sums. The window is never empty
  here. Below 100 samples the slope is 1; otherwise it is the quotient of the covariance
  \<open>cov\<close> and the variance \<open>v\<close> of lines 113 and 114. Both assignments to \<open>offset.b\<close>
  convert a \<open>double\<close> to \<open>int64_t\<close>.
\<close>

definition regression :: "sample list \<Rightarrow> clock_offset" where
  "regression xs =
     (let inv_n = fdiv d_one (i2d (int (length xs)));
          (x0, y0) = means xs
      in if length xs < num_samples
         then \<lparr>a = d_one, b = d2i (fsub y0 x0)\<rparr>
         else
           (let (sum_x, sum_y, sum_x2, sum_xy) = centred_sums x0 y0 xs;
                mean_x = fmul sum_x inv_n;
                mean_y = fmul sum_y inv_n;
                cov = fsub (fmul inv_n sum_xy) (fmul mean_x mean_y);
                v = fsub (fmul inv_n sum_x2) (fmul mean_x mean_x);
                a' = fdiv cov v;
                b' = fsub mean_y (fmul a' mean_x)
            in \<lparr>a = a', b = d2i (fsub (fadd y0 b') (i2d (sint (d2i (fmul a' x0)))))\<rparr>))"

text \<open>The values of \<open>cov\<close> and \<open>v\<close> in that computation, for the statements about them.\<close>

definition cov_v :: "sample list \<Rightarrow> double \<times> double" where
  "cov_v xs =
     (let inv_n = fdiv d_one (i2d (int (length xs)));
          (x0, y0) = means xs;
          (sum_x, sum_y, sum_x2, sum_xy) = centred_sums x0 y0 xs;
          mean_x = fmul sum_x inv_n;
          mean_y = fmul sum_y inv_n
      in (fsub (fmul inv_n sum_xy) (fmul mean_x mean_y),
          fsub (fmul inv_n sum_x2) (fmul mean_x mean_x)))"

text \<open>Line 42, \<open>sample{base_sample, now}\<close>.\<close>

definition mk_sample :: "timesync_response \<Rightarrow> i64 \<Rightarrow> sample" where
  "mk_sample base_sample now =
     \<lparr>query = query base_sample, response = response base_sample, received = now\<rparr>"

text \<open>The test of line 56, a signed comparison of two \<open>int64_t\<close>.\<close>

definition high_latency :: "sample list \<Rightarrow> sample \<Rightarrow> bool" where
  "high_latency xs smp \<longleftrightarrow> 3 * mean_latency xs <s received smp - query smp"

text \<open>
  \<open>add_sample\<close>, with the reply and the reading \<open>now\<close> of the monotonic clock (line 41) as
  arguments. Writing \<open>samples[sample_index]\<close> outside the vector is undefined; the model
  returns \<open>None\<close> there. The early return of line 59 keeps the assignment of line 50.
\<close>

definition add_sample :: "estimator \<Rightarrow> timesync_response \<Rightarrow> i64 \<Rightarrow> estimator option" where
  "add_sample st base_sample now =
     (let smp = mk_sample base_sample now
      in if length (samples st) < num_samples
         then (let xs = samples st @ [smp]
               in Some (st\<lparr>samples := xs, offset := regression xs\<rparr>))
         else
           (let st1 = st\<lparr>sample_interval := one_second\<rparr>
            in if high_latency (samples st) smp
               then Some st1
               else if sample_index st < length (samples st)
               then (let xs = (samples st)[sample_index st := smp]
                     in Some (st1\<lparr>samples := xs,
                                   sample_index := (sample_index st + 1) mod num_samples,
                                   offset := regression xs\<rparr>))
               else None))"

text \<open>A sequence of calls, each with its reply and its clock reading.\<close>

fun add_samples :: "estimator \<Rightarrow> (timesync_response \<times> i64) list \<Rightarrow> estimator option" where
  "add_samples st [] = Some st"
| "add_samples st (c # cs) =
     (case add_sample st (fst c) (snd c) of None \<Rightarrow> None | Some st' \<Rightarrow> add_samples st' cs)"

section \<open>\<open>clock_offset_estimator::request_sample\<close>\<close>

text \<open>
  The clock is read three times: \<open>steady_clock::now()\<close> on lines 30 and 33 and
  \<open>os_monotonic_get_ns()\<close> on line 35; the three readings are arguments. The transport is
  the function \<open>send_stream\<close>, which tells whether the send returned normally. The result is
  the estimator after the call, the messages handed to the transport and whether the call
  returned normally.
\<close>

datatype timesync_query = Timesync_query i64

definition request_sample ::
  "estimator \<Rightarrow> i64 \<Rightarrow> i64 \<Rightarrow> i64 \<Rightarrow> (timesync_query \<Rightarrow> bool)
     \<Rightarrow> estimator \<times> timesync_query list \<times> bool" where
  "request_sample st now1 now2 mono_ns send_stream =
     (if now1 <s next_sample st then (st, [], True)
      else (let st' = st\<lparr>next_sample := now2 + sample_interval st\<rparr>;
                timesync = Timesync_query mono_ns
            in (st', [timesync], send_stream timesync)))"

section \<open>\<open>clock_offset::from_headset\<close> and \<open>clock_offset::to_headset\<close>\<close>

text \<open>
  Line 131: \<open>int64_t(ts) - b\<close> is an integer subtraction, converted to \<open>double\<close> for the
  division; the quotient is converted back to \<open>int64_t\<close>. Line 141: the \<open>uint64_t\<close>
  argument is converted to \<open>double\<close>, multiplied, converted to \<open>int64_t\<close>, and \<open>b\<close> is
  added as an integer. The logging of a negative result does not change it.
\<close>

definition from_headset :: "clock_offset \<Rightarrow> i64 \<Rightarrow> i64" where
  "from_headset c ts = d2i (fdiv (i2d (sint (ts - b c))) (a c))"

definition to_headset :: "clock_offset \<Rightarrow> i64 \<Rightarrow> i64" where
  "to_headset c timestamp_ns = d2i (fmul (a c) (i2d (uint timestamp_ns))) + b c"


section \<open>Auxiliary notions for the statements\<close>

text \<open>
  The initial estimator. Modelled from the spec: the window is empty, the cursor is 0 and
  the model is the identity; the deadline is the epoch of the clock. The initial
  \<open>sample_interval\<close>, declared in the absent header, is the argument.
\<close>

definition fresh_estimator :: "i64 \<Rightarrow> estimator" where
  "fresh_estimator interval =
     \<lparr>samples = [], sample_index = 0, next_sample = 0, sample_interval = interval,
      offset = \<lparr>a = d_one, b = 0\<rparr>\<rparr>"

text \<open>What \<open>add_sample\<close> keeps true of the window and its cursor.\<close>

definition window_ok :: "estimator \<Rightarrow> bool" where
  "window_ok st \<longleftrightarrow>
     length (samples st) \<le> num_samples \<and> sample_index st < num_samples \<and>
     (length (samples st) < num_samples \<longrightarrow> sample_index st = 0)"

text \<open>
  The samples that a sequence of calls stores (appends or writes over a slot), in the order
  of the calls; the ones dropped by line 59 are left out.
\<close>

fun admitted :: "estimator \<Rightarrow> (timesync_response \<times> i64) list \<Rightarrow> sample list" where
  "admitted st [] = []"
| "admitted st (c # cs) =
     (case add_sample st (fst c) (snd c) of
        None \<Rightarrow> []
      | Some st' \<Rightarrow>
          (if length (samples st) < num_samples \<or> \<not> high_latency (samples st) (mk_sample (fst c) (snd c))
           then [mk_sample (fst c) (snd c)] else []) @ admitted st' cs)"

text \<open>The last \<open>n\<close> elements of a list.\<close>

definition newest :: "nat \<Rightarrow> 'a list \<Rightarrow> 'a list" where
  "newest n xs = drop (length xs - n) xs"

text \<open>The window read round from the cursor.\<close>

definition age_order :: "estimator \<Rightarrow> sample list" where
  "age_order st = rotate (sample_index st) (samples st)"

text \<open>Concrete inputs for the instances below.\<close>

definition reply0 :: timesync_response where
  "reply0 = \<lparr>query = 1000, response = 500000\<rparr>"

definition calls0 :: "(timesync_response \<times> i64) list" where
  "calls0 = [(reply0, 11000), (reply0, 12000)]"

definition bootstrapped :: estimator where
  "bootstrapped =
     \<lparr>samples = replicate 100 (mk_sample reply0 11000), sample_index = 0, next_sample = 0,
      sample_interval = 10000000,
      offset = regression (replicate 100 (mk_sample reply0 11000))\<rparr>"

definition reply_ahead :: timesync_response where
  "reply_ahead = \<lparr>query = 1001, response = 500000\<rparr>"

definition ahead_window :: estimator where
  "ahead_window =
     \<lparr>samples = replicate 100 (mk_sample reply_ahead 1000), sample_index = 0, next_sample = 0,
      sample_interval = 10000000,
      offset = regression (replicate 100 (mk_sample reply_ahead 1000))\<rparr>"

text \<open>The round-trip latencies \<open>received - query\<close> of the stored samples, as signed numbers.\<close>

definition latencies :: "sample list \<Rightarrow> int list" where
  "latencies xs = map (\<lambda>s. sint (received s - query s)) xs"

text \<open>Discarding the fraction of a rational number (rounding towards zero).\<close>

definition trunc :: "rat \<Rightarrow> int" where
  "trunc q = (if q < 0 then - \<lfloor>- q\<rfloor> else \<lfloor>q\<rfloor>)"

definition almost_full :: estimator where
  "almost_full =
     \<lparr>samples = replicate 99 (mk_sample reply0 11000), sample_index = 0, next_sample = 0,
      sample_interval = 10000000,
      offset = regression (replicate 99 (mk_sample reply0 11000))\<rparr>"

text \<open>
  Non-negative multiples of one half below \<open>2 ^ 52\<close>: they are doubles, and their sums
  below \<open>2 ^ 52\<close> are computed without rounding.
\<close>

definition small_half_int :: "rat \<Rightarrow> bool" where
  "small_half_int q \<longleftrightarrow> 0 \<le> q \<and> q < 2 ^ 52 \<and> 2 * q \<in> \<int>"

text \<open>
  The exact coordinates of a sample: the midpoint of its round trip and the device time,
  as rational numbers.
\<close>

definition midpoint :: "sample \<Rightarrow> rat" where
  "midpoint s = (of_int (sint (query s)) + of_int (sint (received s))) / 2"

definition device_time :: "sample \<Rightarrow> rat" where
  "device_time s = of_int (sint (response s))"

text \<open>
  Timestamps of a sample in the range from 0 to \<open>2 ^ 45\<close> ns (about 9.7 hours on each
  clock).
\<close>

definition in_range :: "sample \<Rightarrow> bool" where
  "in_range s \<longleftrightarrow>
     0 \<le> sint (query s) \<and> sint (query s) < 2 ^ 45 \<and>
     0 \<le> sint (received s) \<and> sint (received s) < 2 ^ 45 \<and>
     0 \<le> sint (response s) \<and> sint (response s) < 2 ^ 45"

text \<open>The arithmetic mean of a quantity over a list.\<close>

definition mean :: "('a \<Rightarrow> rat) \<Rightarrow> 'a list \<Rightarrow> rat" where
  "mean f xs = sum_list (map f xs) / of_nat (length xs)"


section \<open>Notions for the accuracy of the regression\<close>

text \<open>
  The value of a finite double as a rational number, and the doubles that are finite with a
  non-negative magnitude field (the only ones the operations above produce).
\<close>

fun dval :: "double \<Rightarrow> rat" where
  "dval (DFinite s m) = signed_val s m"
| "dval (DInf s) = 0"
| "dval DNaN = 0"

fun finite_d :: "double \<Rightarrow> bool" where
  "finite_d (DFinite s m) = (0 \<le> m)"
| "finite_d (DInf s) = False"
| "finite_d DNaN = False"

text \<open>The finite double of value \<open>m\<close>, when \<open>m\<close> is representable; a zero is the positive zero.\<close>

definition dbl :: "rat \<Rightarrow> double" where
  "dbl m = DFinite (m < 0) \<bar>m\<bar>"

text \<open>
  The unit roundoff of binary64 and half the smallest subnormal number: one rounding moves a
  value \<open>v\<close> by at most \<open>\<bar>v\<bar> * u53 + tau\<close>.
\<close>

definition u53 :: rat where
  "u53 = 1 / 2 ^ 53"

definition tau :: rat where
  "tau = pow2 (- 1075)"

text \<open>A double that is finite and within \<open>e\<close> of the rational number \<open>v\<close>.\<close>

definition approx :: "double \<Rightarrow> rat \<Rightarrow> rat \<Rightarrow> bool" where
  "approx x v e \<longleftrightarrow> finite_d x \<and> \<bar>dval x - v\<bar> \<le> e"

text \<open>The covariance of two quantities over a list, in exact arithmetic.\<close>

definition covar :: "('a \<Rightarrow> rat) \<Rightarrow> ('a \<Rightarrow> rat) \<Rightarrow> 'a list \<Rightarrow> rat" where
  "covar f g xs = mean (\<lambda>s. f s * g s) xs - mean f xs * mean g xs"

text \<open>
  One accumulator of the loop of lines 90 to 108: the terms \<open>t s\<close> are added in the order of
  the list, each addition rounded. \<open>centred_X\<close> and \<open>centred_Y\<close> are the variables \<open>x\<close> and
  \<open>y\<close> of lines 98 and 103, and \<open>centred_X_value\<close>, \<open>centred_Y_value\<close> their values when
  the means are the finite doubles \<open>x0\<close> and \<open>y0\<close>.
\<close>

definition fsum :: "('a \<Rightarrow> double) \<Rightarrow> 'a list \<Rightarrow> double \<Rightarrow> double" where
  "fsum t xs acc = fold (\<lambda>s acc. fadd acc (t s)) xs acc"

definition centred_X :: "double \<Rightarrow> sample \<Rightarrow> double" where
  "centred_X x0 s = fsub (sample_X s) x0"

definition centred_Y :: "double \<Rightarrow> sample \<Rightarrow> double" where
  "centred_Y y0 s = fsub (sample_Y s) y0"

definition centred_X_value :: "rat \<Rightarrow> sample \<Rightarrow> rat" where
  "centred_X_value x0 s = dval (centred_X (DFinite False x0) s)"

definition centred_Y_value :: "rat \<Rightarrow> sample \<Rightarrow> rat" where
  "centred_Y_value y0 s = dval (centred_Y (DFinite False y0) s)"

text \<open>
  What the centred coordinates \<open>fx s\<close>, \<open>fy s\<close> of a window of 100 samples on a line of
  slope \<open>\<alpha>\<close> satisfy: they are finite, the abscissae are bounded by a radius \<open>G\<close> of the
  window, the ordinates follow the line up to a shift \<open>\<gamma>\<close> and a rounding error, the shift
  and the mean abscissa are small against \<open>G\<close>, and the variance of the abscissae is at
  least \<open>G * G / 128\<close>.
\<close>

definition centred_ok ::
  "rat \<Rightarrow> rat \<Rightarrow> rat \<Rightarrow> ('a \<Rightarrow> double) \<Rightarrow> ('a \<Rightarrow> double) \<Rightarrow> 'a list \<Rightarrow> bool" where
  "centred_ok \<alpha> \<gamma> G fx fy xs \<longleftrightarrow>
     length xs = 100 \<and> 1 / 4 \<le> G \<and> G \<le> 2 ^ 52 \<and> \<bar>\<alpha>\<bar> \<le> 100 \<and>
     \<bar>\<gamma>\<bar> \<le> (\<bar>\<alpha>\<bar> + 1) * G / 32 \<and>
     (\<forall>s \<in> set xs. finite_d (fx s) \<and> finite_d (fy s) \<and> \<bar>dval (fx s)\<bar> \<le> 17 / 16 * G \<and>
        \<bar>dval (fy s) - (\<alpha> * dval (fx s) + \<gamma>)\<bar> \<le> 4 * ((\<bar>\<alpha>\<bar> + 1) * G) * u53) \<and>
     \<bar>mean (\<lambda>s. dval (fx s)) xs\<bar> \<le> G / 32 + 2 * G * u53 \<and>
     G * G \<le> 128 * covar (\<lambda>s. dval (fx s)) (\<lambda>s. dval (fx s)) xs"

text \<open>
  Timestamps of a sample in the range from 0 to \<open>M\<close> ns. Below \<open>2 ^ 52\<close> ns (about 52 days)
  every midpoint, a multiple of one half, is a double.
\<close>

definition timestamps_below :: "rat \<Rightarrow> sample \<Rightarrow> bool" where
  "timestamps_below M s \<longleftrightarrow>
     0 \<le> sint (query s) \<and> of_int (sint (query s)) < M \<and>
     0 \<le> sint (received s) \<and> of_int (sint (received s)) < M \<and>
     0 \<le> sint (response s) \<and> of_int (sint (response s)) < M"

text \<open>
  A window of 99 samples on the line \<open>response = 2 * midpoint + 488000\<close>, with midpoints
  6000 and 8000; the reply \<open>reply_b\<close> received at 13000 completes it.
\<close>

definition reply_b :: timesync_response where
  "reply_b = \<lparr>query = 3000, response = 504000\<rparr>"

definition line_window :: estimator where
  "line_window =
     \<lparr>samples = replicate 50 (mk_sample reply0 11000) @ replicate 49 (mk_sample reply_b 13000),
      sample_index = 0, next_sample = 0, sample_interval = 10000000,
      offset = regression
        (replicate 50 (mk_sample reply0 11000) @ replicate 49 (mk_sample reply_b 13000))\<rparr>"

text \<open>
  A window of 99 samples on the line \<open>response = midpoint + 1 / 2\<close>, 50 with the midpoint
  \<open>2 ^ 52 + 63.5\<close> and 49 with the midpoint \<open>2 ^ 52 + 2 ^ 30 + 64.5\<close>, about 1.07 s
  later; the reply \<open>edge_reply_b\<close> received at \<open>2 ^ 52 + 2 ^ 30 + 5065\<close> completes it. The
  server clock has just passed \<open>2 ^ 52\<close> ns, 52 days.
\<close>

definition edge_reply_a :: timesync_response where
  "edge_reply_a = \<lparr>query = 4503599627365559, response = 4503599627370560\<rparr>"

definition edge_reply_b :: timesync_response where
  "edge_reply_b = \<lparr>query = 4503600701107384, response = 4503600701112385\<rparr>"

definition edge_a :: sample where
  "edge_a = mk_sample edge_reply_a 4503599627375560"

definition edge_b :: sample where
  "edge_b = mk_sample edge_reply_b 4503600701117385"

definition edge_window :: estimator where
  "edge_window =
     \<lparr>samples = replicate 50 edge_a @ replicate 49 edge_b,
      sample_index = 0, next_sample = 0, sample_interval = 10000000,
      offset = regression (replicate 50 edge_a @ replicate 49 edge_b)\<rparr>"

section \<open>Facts about the rounding of binary64\<close>

lemma pow2_powi: "pow2 e = 2 powi e"
  by (simp add: pow2_def power_int_def inverse_eq_divide power_one_over)

lemma pow2_pos [simp]: "0 < pow2 e"
  by (simp add: pow2_def)

lemma pow2_nonzero [simp]: "pow2 e \<noteq> 0"
  using pow2_pos [of e] by (simp del: pow2_pos)

lemma pow2_add: "pow2 (x + y) = pow2 x * pow2 y"
  by (simp add: pow2_powi power_int_add)

lemma pow2_diff: "pow2 (x - y) = pow2 x / pow2 y"
  by (simp add: pow2_powi power_int_diff)

lemma pow2_of_nat: "pow2 (int n) = 2 ^ n"
  by (simp add: pow2_def)

lemma pow2_0 [simp]: "pow2 0 = 1"
  by (simp add: pow2_def)

lemma pow2_mono: "x \<le> y \<Longrightarrow> pow2 x \<le> pow2 y"
  by (simp add: pow2_powi power_int_increasing)

lemma pow2_strict_mono: "x < y \<Longrightarrow> pow2 x < pow2 y"
  by (simp add: pow2_powi power_int_strict_increasing)

lemma pow2_le_iff: "pow2 x \<le> pow2 y \<longleftrightarrow> x \<le> y"
  by (metis pow2_mono pow2_strict_mono not_le)

lemma pow2_less_iff: "pow2 x < pow2 y \<longleftrightarrow> x < y"
  by (metis pow2_mono pow2_strict_mono not_le)

lemma pow2_1 [simp]: "pow2 1 = 2"
  by (simp add: pow2_def)

lemma pow2_Suc: "pow2 (e + 1) = 2 * pow2 e"
  by (simp add: pow2_add)

lemma pow2_nonneg: "0 \<le> e \<Longrightarrow> pow2 e = 2 ^ nat e"
  by (simp add: pow2_def)

lemma of_int_pow2_bounds:
  assumes "2 ^ nat (k - 1) \<le> n" and "n < 2 ^ nat k" and "1 \<le> k"
  shows "pow2 (k - 1) \<le> of_int n" and "of_int n < pow2 k"
proof -
  have "(of_int (2 ^ nat (k - 1)) :: rat) \<le> of_int n"
    using assms(1) by (simp only: of_int_le_iff)
  then show "pow2 (k - 1) \<le> of_int n"
    using assms(3) by (simp add: pow2_nonneg)
  have "(of_int n :: rat) < of_int (2 ^ nat k)"
    using assms(2) by (simp only: of_int_less_iff)
  then show "of_int n < pow2 k"
    using assms(3) by (simp add: pow2_nonneg)
qed

lemma flog2_bounds:
  assumes "0 < q"
  shows "pow2 (flog2 q) \<le> q" and "q < pow2 (flog2 q + 1)"
proof -
  obtain p d where pd: "quotient_of q = (p, d)" by (cases "quotient_of q")
  then have d: "0 < d" and q: "q = of_int p / of_int d"
    by (simp_all add: quotient_of_denom_pos quotient_of_div)
  with assms have p: "0 < p"
    by (simp add: zero_less_divide_iff)
  define bp where "bp = bitlen p"
  define bd where "bd = bitlen d"
  have bp: "2 ^ nat (bp - 1) \<le> p" "p < 2 ^ nat bp" and bd: "2 ^ nat (bd - 1) \<le> d" "d < 2 ^ nat bd"
    using bitlen_bounds [OF p] bitlen_bounds [OF d] by (simp_all add: bp_def bd_def)
  have bp1: "1 \<le> bp" and bd1: "1 \<le> bd"
    using p d by (simp_all add: bp_def bd_def bitlen_alt_def)
  have P: "pow2 (bp - 1) \<le> of_int p" "of_int p < pow2 bp"
    using of_int_pow2_bounds [OF bp bp1] by simp_all
  have D: "pow2 (bd - 1) \<le> of_int d" "of_int d < pow2 bd"
    using of_int_pow2_bounds [OF bd bd1] by simp_all
  have lo: "pow2 (bp - bd - 1) < q"
  proof -
    have "pow2 (bp - bd - 1) * of_int d < pow2 (bp - bd - 1) * pow2 bd"
      using D(2) by simp
    also have "\<dots> = pow2 (bp - 1)" by (simp flip: pow2_add)
    also have "\<dots> \<le> of_int p" by (rule P(1))
    finally show ?thesis using d by (simp add: q pos_less_divide_eq)
  qed
  have hi: "q < pow2 (bp - bd + 1)"
  proof -
    have "of_int p < pow2 bp" by (rule P(2))
    also have "\<dots> = pow2 (bp - bd + 1) * pow2 (bd - 1)" by (simp flip: pow2_add)
    also have "\<dots> \<le> pow2 (bp - bd + 1) * of_int d"
      using D(1) by simp
    finally show ?thesis using d by (simp add: q pos_divide_less_eq)
  qed
  have f: "flog2 q = (if pow2 (bp - bd) \<le> q then bp - bd else bp - bd - 1)"
    by (simp add: flog2_def pd bp_def bd_def Let_def)
  show "pow2 (flog2 q) \<le> q" using lo by (simp add: f)
  show "q < pow2 (flog2 q + 1)" using hi by (simp add: f)
qed

lemma flog2_unique:
  assumes "pow2 e \<le> q" and "q < pow2 (e + 1)"
  shows "flog2 q = e"
proof -
  have q: "0 < q" using assms(1) pow2_pos [of e] by linarith
  have "pow2 (flog2 q) < pow2 (e + 1)"
    using flog2_bounds(1) [OF q] assms(2) by linarith
  moreover have "pow2 e < pow2 (flog2 q + 1)"
    using flog2_bounds(2) [OF q] assms(1) by linarith
  ultimately show ?thesis by (simp add: pow2_less_iff)
qed

lemma round_even_of_int [simp]: "round_even (of_int k) = k"
  by (simp add: round_even_def)

lemma round_even_error: "\<bar>of_int (round_even m) - m\<bar> \<le> 1 / 2"
proof -
  have "of_int \<lfloor>m\<rfloor> \<le> m" "m < of_int \<lfloor>m\<rfloor> + 1" by linarith+
  then show ?thesis
    by (auto simp: round_even_def Let_def abs_le_iff)
qed


lemma round_mag_exact:
  assumes k: "0 < k" "k < 2 ^ 53" and e: "- 1074 \<le> e"
    and top: "of_int k * pow2 e < pow2 1024"
  shows "round_mag (of_int k * pow2 e) = Some (of_int k * pow2 e)"
proof -
  let ?q = "of_int k * pow2 e :: rat"
  define E where "E = max (flog2 ?q) (- 1022)"
  have q: "0 < ?q" using k(1) by simp
  have "E - 52 \<le> e"
  proof (cases "flog2 ?q \<le> - 1022")
    case True
    then show ?thesis using e by (simp add: E_def)
  next
    case False
    have "pow2 (flog2 ?q) \<le> ?q" by (rule flog2_bounds(1) [OF q])
    also have "?q < 2 ^ 53 * pow2 e"
    proof -
      have "(of_int k :: rat) < of_int (2 ^ 53)"
        using k(2) by (simp only: of_int_less_iff)
      then show ?thesis by (simp add: mult_strict_right_mono)
    qed
    also have "\<dots> = pow2 (53 + e)" by (simp add: pow2_add pow2_nonneg)
    finally have "flog2 ?q < 53 + e" by (simp add: pow2_less_iff)
    with False show ?thesis by (simp add: E_def)
  qed
  then have "pow2 (e - (E - 52)) = of_int (2 ^ nat (e - (E - 52)))"
    by (simp add: pow2_nonneg)
  moreover have "?q / pow2 (E - 52) = of_int k * pow2 (e - (E - 52))"
    by (simp add: pow2_diff)
  ultimately have "?q / pow2 (E - 52) = of_int (k * 2 ^ nat (e - (E - 52)))"
    by simp
  then have "of_int (round_even (?q / pow2 (E - 52))) = ?q / pow2 (E - 52)"
    by (simp only: round_even_of_int)
  then have "of_int (round_even (?q / pow2 (E - 52))) * pow2 (E - 52) = ?q"
    using pow2_pos [of "E - 52"] by simp
  then show ?thesis
    using q top by (simp add: round_mag_def Let_def flip: E_def)
qed

lemma round_mag_of_int:
  assumes "0 \<le> k" and "k < 2 ^ 53"
  shows "round_mag (of_int k) = Some (of_int k)"
proof (cases "k = 0")
  case True
  then show ?thesis by (simp add: round_mag_def)
next
  case False
  have "(of_int k :: rat) < of_int (2 ^ 53)"
    using assms(2) by (simp only: of_int_less_iff)
  also have "\<dots> < pow2 1024" by (simp add: pow2_nonneg)
  finally show ?thesis
    using round_mag_exact [of k 0] False assms by simp
qed

lemma round_mag_error:
  assumes lo: "pow2 (- 1022) \<le> q" and hi: "q < pow2 1023"
  shows "\<exists>r. round_mag q = Some r \<and> \<bar>r - q\<bar> \<le> q / 2 ^ 53"
proof -
  have q: "0 < q" using lo pow2_pos [of "- 1022"] by linarith
  define E where "E = flog2 q"
  have E: "pow2 E \<le> q" "q < pow2 (E + 1)"
    using flog2_bounds [OF q] by (simp_all add: E_def)
  have "pow2 (- 1022) < pow2 (E + 1)" using lo E(2) by linarith
  then have E_lo: "- 1022 \<le> E" by (simp add: pow2_less_iff)
  have "pow2 E < pow2 1023" using hi E(1) by linarith
  then have E_hi: "E < 1023" by (simp add: pow2_less_iff)
  define u where "u = pow2 (E - 52)"
  define r where "r = of_int (round_even (q / u)) * u"
  have u: "0 < u" by (simp add: u_def)
  have "\<bar>of_int (round_even (q / u)) - q / u\<bar> \<le> 1 / 2" by (rule round_even_error)
  then have "\<bar>of_int (round_even (q / u)) - q / u\<bar> * u \<le> 1 / 2 * u"
    using u by (intro mult_right_mono) simp_all
  moreover have "r - q = (of_int (round_even (q / u)) - q / u) * u"
    using u by (simp add: r_def left_diff_distrib)
  then have "\<bar>r - q\<bar> = \<bar>of_int (round_even (q / u)) - q / u\<bar> * u"
    using u by (simp only: abs_mult abs_of_pos)
  ultimately have err: "\<bar>r - q\<bar> \<le> u / 2"
    by simp
  have "E - 52 + 53 = E + 1" by simp
  then have "pow2 (E + 1) = u * pow2 53"
    unfolding u_def by (metis pow2_add)
  then have "u * 2 ^ 53 = 2 * pow2 E"
    by (simp add: pow2_Suc pow2_nonneg)
  then have u2: "u / 2 = pow2 E / 2 ^ 53" by (simp add: field_simps)
  have uq: "u / 2 \<le> q / 2 ^ 53"
    using E(1) by (simp add: u2 divide_right_mono)
  have "r \<le> q + u / 2" using err by linarith
  also have "\<dots> < pow2 1023 + pow2 1023"
  proof -
    have "u / 2 = pow2 (E - 53)"
      using pow2_diff [of E 53] by (simp add: u2 pow2_nonneg)
    moreover have "pow2 (E - 53) < pow2 1023"
      using E_hi by (intro pow2_strict_mono) simp
    ultimately have "u / 2 < pow2 1023" by simp
    with hi show ?thesis by linarith
  qed
  also have "\<dots> = pow2 1024" using pow2_Suc [of 1023] by simp
  finally have "r < pow2 1024" .
  then have "round_mag q = Some r"
    using q E_lo by (simp add: round_mag_def Let_def r_def u_def E_def max_def)
  with err uq show ?thesis by auto
qed

lemma floor_rat_numeral [simp]:
  "\<lfloor>numeral x / numeral y :: rat\<rfloor> = numeral x div numeral y"
  using floor_divide_of_int_eq [of "numeral x" "numeral y", where 'a = rat] by simp

lemma pow2_ge0 [simp]: "0 \<le> pow2 e"
  using pow2_pos [of e] by (simp del: pow2_pos)

lemma rnd_exact:
  assumes "0 < k" "k < 2 ^ 53" "- 1074 \<le> e" "of_int k * pow2 e < pow2 1024"
  shows "rnd s (of_int k * pow2 e) = DFinite s (of_int k * pow2 e)"
  using round_mag_exact [OF assms] by (simp add: rnd_def)

lemma rnd_of_int:
  assumes "0 \<le> k" and "k < 2 ^ 53"
  shows "rnd s (of_int k) = DFinite s (of_int k)"
  using round_mag_of_int [OF assms] by (simp add: rnd_def)

lemma rnd_half_int:
  assumes "0 \<le> k" and "k < 2 ^ 53"
  shows "rnd s (of_int k / 2) = DFinite s (of_int k / 2)"
proof (cases "k = 0")
  case True
  then show ?thesis by (simp add: rnd_def round_mag_def)
next
  case False
  have "(of_int k :: rat) < of_int (2 ^ 53)"
    using assms(2) by (simp only: of_int_less_iff)
  then have "of_int k * pow2 (- 1) < pow2 1024"
    by (simp add: pow2_def)
  with rnd_exact [of k "- 1" s] False assms show ?thesis
    by (simp add: pow2_def)
qed

lemma i2d_exact: "\<bar>i\<bar> < 2 ^ 53 \<Longrightarrow> i2d i = DFinite (i < 0) (of_int \<bar>i\<bar>)"
  using rnd_of_int [of "\<bar>i\<bar>" "i < 0"] by (simp add: i2d_def)

lemma round_mag_nonneg:
  assumes "round_mag q = Some r" and "0 \<le> q"
  shows "0 \<le> r"
proof (cases "q = 0")
  case True
  with assms show ?thesis by (simp add: round_mag_def)
next
  case False
  define u where "u = pow2 (max (flog2 q) (- 1022) - 52)"
  have "0 \<le> q / u" using assms(2) by (simp add: u_def)
  then have "0 \<le> \<lfloor>q / u\<rfloor>" by simp
  then have "0 \<le> round_even (q / u)"
    by (simp add: round_even_def Let_def)
  then have "0 \<le> (of_int (round_even (q / u)) :: rat) * u"
    by (simp add: u_def)
  with assms(1) False show ?thesis
    by (simp add: round_mag_def Let_def u_def split: if_splits)
qed

lemma d2i_in_range:
  assumes "0 \<le> p" and "p < 2 ^ 63"
  shows "d2i (DFinite s p) = word_of_int (trunc (signed_val s p))"
proof -
  define t where "t = (if s then - \<lfloor>p\<rfloor> else \<lfloor>p\<rfloor>)"
  have f1: "\<lfloor>p\<rfloor> < 2 ^ 63" using assms(2) by (simp add: floor_less_iff)
  have f2: "0 \<le> \<lfloor>p\<rfloor>" using assms(1) by simp
  have "- (2 ^ 63) \<le> t \<and> t < 2 ^ 63"
  proof (cases s)
    case True
    then have "t = - \<lfloor>p\<rfloor>" by (simp add: t_def)
    with f1 f2 show ?thesis by linarith
  next
    case False
    then have "t = \<lfloor>p\<rfloor>" by (simp add: t_def)
    with f1 f2 show ?thesis by linarith
  qed
  then have "d2i (DFinite s p) = word_of_int t"
    by (simp add: Let_def flip: t_def)
  moreover have "trunc (signed_val s p) = t"
    using assms(1) by (auto simp: trunc_def signed_val_def t_def)
  ultimately show ?thesis by simp
qed

section \<open>The window and its cursor\<close>

lemma add_sample_append:
  "length (samples st) < num_samples \<Longrightarrow>
   add_sample st r now =
     Some (st\<lparr>samples := samples st @ [mk_sample r now],
              offset := regression (samples st @ [mk_sample r now])\<rparr>)"
  by (simp add: add_sample_def Let_def)

lemma add_sample_reject:
  "\<not> length (samples st) < num_samples \<Longrightarrow> high_latency (samples st) (mk_sample r now) \<Longrightarrow>
   add_sample st r now = Some (st\<lparr>sample_interval := one_second\<rparr>)"
  by (simp add: add_sample_def Let_def)

lemma add_sample_overwrite:
  "\<not> length (samples st) < num_samples \<Longrightarrow> \<not> high_latency (samples st) (mk_sample r now) \<Longrightarrow>
   sample_index st < length (samples st) \<Longrightarrow>
   add_sample st r now =
     Some (st\<lparr>sample_interval := one_second,
              samples := (samples st)[sample_index st := mk_sample r now],
              sample_index := (sample_index st + 1) mod num_samples,
              offset := regression ((samples st)[sample_index st := mk_sample r now])\<rparr>)"
  by (simp add: add_sample_def Let_def)

lemma add_sample_out_of_bounds:
  "\<not> length (samples st) < num_samples \<Longrightarrow> \<not> high_latency (samples st) (mk_sample r now) \<Longrightarrow>
   \<not> sample_index st < length (samples st) \<Longrightarrow> add_sample st r now = None"
  by (simp add: add_sample_def Let_def)

lemma window_ok_step:
  assumes "window_ok st"
  shows "\<exists>st'. add_sample st r now = Some st' \<and> window_ok st'"
proof (cases "length (samples st) < num_samples")
  case True
  then show ?thesis using assms
    by (auto simp: add_sample_append window_ok_def)
next
  case full: False
  with assms have len: "length (samples st) = num_samples" and idx: "sample_index st < length (samples st)"
    by (auto simp: window_ok_def)
  show ?thesis
  proof (cases "high_latency (samples st) (mk_sample r now)")
    case True
    with full assms show ?thesis by (simp add: add_sample_reject window_ok_def)
  next
    case False
    with full idx len show ?thesis
      by (simp add: add_sample_overwrite window_ok_def num_samples_def)
  qed
qed

lemma window_ok_add_samples:
  "window_ok st \<Longrightarrow> \<exists>st'. add_samples st cs = Some st' \<and> window_ok st'"
proof (induction cs arbitrary: st)
  case Nil
  then show ?case by simp
next
  case (Cons c cs)
  from window_ok_step [OF Cons.prems, of "fst c" "snd c"]
  obtain st1 where "add_sample st (fst c) (snd c) = Some st1" "window_ok st1" by blast
  with Cons.IH [of st1] show ?case by simp
qed

lemma window_ok_initial: "samples st = [] \<Longrightarrow> sample_index st = 0 \<Longrightarrow> window_ok st"
  by (simp add: window_ok_def num_samples_def)


lemma newest_append_newest: "newest n (newest n xs @ ys) = newest n (xs @ ys)"
proof (cases "length xs \<le> n")
  case True
  then show ?thesis by (simp add: newest_def)
next
  case False
  then have "length xs - n + n = length xs" "length xs + length ys - n = length ys + (length xs - n)"
    by simp_all
  then show ?thesis by (simp add: newest_def add.commute)
qed

lemma newest_short: "length xs \<le> n \<Longrightarrow> newest n xs = xs"
  by (simp add: newest_def)

lemma rotate_overwrite:
  assumes "i < length xs"
  shows "rotate ((i + 1) mod length xs) (xs[i := x]) = tl (rotate i xs) @ [x]"
proof -
  have r: "rotate i xs = drop i xs @ take i xs"
    using assms by (simp add: rotate_drop_take)
  have u: "xs[i := x] = take i xs @ x # drop (Suc i) xs"
    using assms by (simp add: upd_conv_take_nth_drop)
  have d: "drop i xs = xs ! i # drop (Suc i) xs"
    using assms by (simp add: Cons_nth_drop_Suc)
  show ?thesis
  proof (cases "Suc i < length xs")
    case True
    then have "rotate ((i + 1) mod length xs) (xs[i := x]) = drop (Suc i) (xs[i := x]) @ take (Suc i) (xs[i := x])"
      by (simp add: rotate_drop_take)
    also have "\<dots> = drop (Suc i) xs @ take i xs @ [x]"
      using assms by (simp add: u take_Suc_conv_app_nth nth_append)
    finally show ?thesis by (simp add: r d)
  next
    case False
    with assms have e: "Suc i = length xs" by simp
    then have "rotate ((i + 1) mod length xs) (xs[i := x]) = xs[i := x]" by simp
    also have "\<dots> = take i xs @ [x]" using e by (simp add: u)
    finally show ?thesis using e by (simp add: r d)
  qed
qed


lemma age_order_step:
  assumes "window_ok st" and "add_sample st r now = Some st'"
  shows "age_order st' = newest num_samples (age_order st @ admitted st [(r, now)])"
proof (cases "length (samples st) < num_samples")
  case True
  with assms show ?thesis
    by (auto simp: add_sample_append window_ok_def age_order_def newest_short)
next
  case full: False
  with assms have len: "length (samples st) = num_samples" and idx: "sample_index st < length (samples st)"
    by (auto simp: window_ok_def)
  show ?thesis
  proof (cases "high_latency (samples st) (mk_sample r now)")
    case True
    with full assms len show ?thesis
      by (auto simp: add_sample_reject age_order_def newest_short)
  next
    case False
    have rot: "rotate ((sample_index st + 1) mod length (samples st)) ((samples st)[sample_index st := mk_sample r now])
          = tl (rotate (sample_index st) (samples st)) @ [mk_sample r now]"
      by (rule rotate_overwrite [OF idx])
    have st': "st' = st\<lparr>sample_interval := one_second,
              samples := (samples st)[sample_index st := mk_sample r now],
              sample_index := (sample_index st + 1) mod num_samples,
              offset := regression ((samples st)[sample_index st := mk_sample r now])\<rparr>"
      using add_sample_overwrite [OF full False idx] assms(2) by simp
    have "length (age_order st) = num_samples"
      by (simp add: age_order_def len)
    then have "newest num_samples (age_order st @ [mk_sample r now]) = tl (age_order st) @ [mk_sample r now]"
      by (cases "age_order st") (simp_all add: newest_def num_samples_def)
    moreover have "admitted st [(r, now)] = [mk_sample r now]"
      using False assms(2) by simp
    moreover have "age_order st' = tl (age_order st) @ [mk_sample r now]"
      using rot by (simp add: st' age_order_def len)
    ultimately show ?thesis by simp
  qed
qed

lemma age_order_add_samples:
  "window_ok st \<Longrightarrow> add_samples st cs = Some st' \<Longrightarrow>
   age_order st' = newest num_samples (age_order st @ admitted st cs)"
proof (induction cs arbitrary: st)
  case Nil
  then show ?case by (simp add: newest_short age_order_def window_ok_def)
next
  case (Cons c cs)
  from window_ok_step [OF Cons.prems(1), of "fst c" "snd c"]
  obtain st1 where st1: "add_sample st (fst c) (snd c) = Some st1" "window_ok st1" by blast
  with Cons.prems have rest: "add_samples st1 cs = Some st'" by simp
  have one: "age_order st1 = newest num_samples (age_order st @ admitted st [(fst c, snd c)])"
    by (rule age_order_step [OF Cons.prems(1) st1(1)])
  have "age_order st' = newest num_samples (age_order st1 @ admitted st1 cs)"
    by (rule Cons.IH [OF st1(2) rest])
  also have "\<dots> = newest num_samples ((age_order st @ admitted st [(fst c, snd c)]) @ admitted st1 cs)"
    by (simp only: one newest_append_newest)
  also have "(age_order st @ admitted st [(fst c, snd c)]) @ admitted st1 cs = age_order st @ admitted st (c # cs)"
    using st1(1) by simp
  finally show ?case .
qed

lemma length_add_samples:
  "window_ok st \<Longrightarrow> add_samples st cs = Some st' \<Longrightarrow>
   length (samples st') = min (length (samples st) + length cs) num_samples"
proof (induction cs arbitrary: st)
  case Nil
  then show ?case by (simp add: window_ok_def)
next
  case (Cons c cs)
  from window_ok_step [OF Cons.prems(1), of "fst c" "snd c"]
  obtain st1 where st1: "add_sample st (fst c) (snd c) = Some st1" "window_ok st1" by blast
  with Cons.prems have rest: "add_samples st1 cs = Some st'" by simp
  have "length (samples st1) = min (length (samples st) + 1) num_samples"
  proof (cases "length (samples st) < num_samples")
    case True
    with st1(1) show ?thesis by (auto simp: add_sample_append)
  next
    case False
    with Cons.prems(1) have "length (samples st) = num_samples" "sample_index st < length (samples st)"
      by (auto simp: window_ok_def)
    with st1(1) False show ?thesis
      by (cases "high_latency (samples st) (mk_sample (fst c) (snd c))")
         (auto simp: add_sample_reject add_sample_overwrite)
  qed
  with Cons.IH [OF st1(2) rest] show ?case by simp
qed

lemma samples_step:
  assumes "window_ok st"
  shows "\<exists>st'. add_sample st r now = Some st' \<and>
           samples st' = (if length (samples st) < num_samples then samples st @ [mk_sample r now]
                          else if high_latency (samples st) (mk_sample r now) then samples st
                          else (samples st)[sample_index st := mk_sample r now]) \<and>
           sample_index st' = (if length (samples st) < num_samples then sample_index st
                          else if high_latency (samples st) (mk_sample r now) then sample_index st
                          else (sample_index st + 1) mod num_samples)"
proof (cases "length (samples st) < num_samples")
  case True
  then show ?thesis by (simp add: add_sample_append)
next
  case full: False
  with assms have idx: "sample_index st < length (samples st)"
    by (auto simp: window_ok_def)
  show ?thesis
    using full idx
    by (cases "high_latency (samples st) (mk_sample r now)")
       (simp_all add: add_sample_reject add_sample_overwrite)
qed

text \<open>
  Claim C4. Start from an estimator with an empty window and the cursor at 0 and make any
  sequence \<open>cs\<close> of \<open>add_sample\<close> calls. No call fails, and the window then holds
  \<open>min (length cs) 100\<close> samples: it never exceeds 100, it grows by one with every call
  until it holds 100, and it never shrinks. Read round from the cursor, the window is the
  last 100 of the samples stored so far in the order they were stored, so the slot at the
  cursor holds the oldest one. The next call appends its sample while the window holds
  fewer than 100; at 100 it either drops the sample and leaves the window as it is, or writes
  it over the slot at the cursor and removes nothing else.
\<close>

theorem window_size_and_eviction:
  assumes "samples st0 = []" and "sample_index st0 = 0"
  shows "\<exists>st. add_samples st0 cs = Some st \<and>
           length (samples st) = min (length cs) num_samples \<and>
           rotate (sample_index st) (samples st) = newest num_samples (admitted st0 cs) \<and>
           (\<forall>r now. \<exists>st'. add_sample st r now = Some st' \<and>
              samples st' = (if length (samples st) < num_samples then samples st @ [mk_sample r now]
                             else if high_latency (samples st) (mk_sample r now) then samples st
                             else (samples st)[sample_index st := mk_sample r now]))"
proof -
  have ok: "window_ok st0" by (rule window_ok_initial [OF assms])
  from window_ok_add_samples [OF ok, of cs]
  obtain st where st: "add_samples st0 cs = Some st" "window_ok st" by blast
  have "length (samples st) = min (length cs) num_samples"
    using length_add_samples [OF ok st(1)] assms by simp
  moreover have "rotate (sample_index st) (samples st) = newest num_samples (admitted st0 cs)"
    using age_order_add_samples [OF ok st(1)] assms by (simp add: age_order_def)
  moreover have "\<forall>r now. \<exists>st'. add_sample st r now = Some st' \<and>
              samples st' = (if length (samples st) < num_samples then samples st @ [mk_sample r now]
                             else if high_latency (samples st) (mk_sample r now) then samples st
                             else (samples st)[sample_index st := mk_sample r now])"
    using samples_step [OF st(2)] by blast
  ultimately show ?thesis using st(1) by blast
qed

text \<open>
  Claim C10. Start from an estimator with an empty window and the cursor at 0 and make any
  sequence \<open>cs\<close> of \<open>add_sample\<close> calls. No call writes outside the vector, the cursor
  is below 100 afterwards, and below the size of the window once that is full. The next
  call succeeds too; it leaves the cursor alone when it appends (window not full) and when
  it drops the sample, and moves it to \<open>(sample_index + 1) mod 100\<close> when it writes over a
  slot.
\<close>

theorem write_cursor_in_bounds:
  assumes "samples st0 = []" and "sample_index st0 = 0"
  shows "\<exists>st. add_samples st0 cs = Some st \<and>
           sample_index st < num_samples \<and>
           (\<not> length (samples st) < num_samples \<longrightarrow> sample_index st < length (samples st)) \<and>
           (\<forall>r now. \<exists>st'. add_sample st r now = Some st' \<and>
              sample_index st' = (if length (samples st) < num_samples then sample_index st
                                  else if high_latency (samples st) (mk_sample r now) then sample_index st
                                  else (sample_index st + 1) mod num_samples))"
proof -
  have ok: "window_ok st0" by (rule window_ok_initial [OF assms])
  from window_ok_add_samples [OF ok, of cs]
  obtain st where st: "add_samples st0 cs = Some st" "window_ok st" by blast
  have "sample_index st < num_samples"
    and "\<not> length (samples st) < num_samples \<longrightarrow> sample_index st < length (samples st)"
    using st(2) by (auto simp: window_ok_def)
  moreover have "\<forall>r now. \<exists>st'. add_sample st r now = Some st' \<and>
              sample_index st' = (if length (samples st) < num_samples then sample_index st
                                  else if high_latency (samples st) (mk_sample r now) then sample_index st
                                  else (sample_index st + 1) mod num_samples)"
    using samples_step [OF st(2)] by blast
  ultimately show ?thesis using st(1) by blast
qed


theorem window_size_and_eviction_witness:
  "samples (fresh_estimator 10000000) = [] \<and> sample_index (fresh_estimator 10000000) = 0 \<and>
   (\<exists>st. add_samples (fresh_estimator 10000000) calls0 = Some st \<and>
      length (samples st) = min (length calls0) num_samples \<and>
      rotate (sample_index st) (samples st) = newest num_samples (admitted (fresh_estimator 10000000) calls0) \<and>
      (\<forall>r now. \<exists>st'. add_sample st r now = Some st' \<and>
         samples st' = (if length (samples st) < num_samples then samples st @ [mk_sample r now]
                        else if high_latency (samples st) (mk_sample r now) then samples st
                        else (samples st)[sample_index st := mk_sample r now])))"
proof -
  have h1: "samples (fresh_estimator 10000000) = []"
    and h2: "sample_index (fresh_estimator 10000000) = 0"
    by (simp_all add: fresh_estimator_def)
  from window_size_and_eviction [OF h1 h2, of calls0] h1 h2 show ?thesis by blast
qed

theorem write_cursor_in_bounds_witness:
  "samples (fresh_estimator 10000000) = [] \<and> sample_index (fresh_estimator 10000000) = 0 \<and>
   (\<exists>st. add_samples (fresh_estimator 10000000) calls0 = Some st \<and>
      sample_index st < num_samples \<and>
      (\<not> length (samples st) < num_samples \<longrightarrow> sample_index st < length (samples st)) \<and>
      (\<forall>r now. \<exists>st'. add_sample st r now = Some st' \<and>
         sample_index st' = (if length (samples st) < num_samples then sample_index st
                             else if high_latency (samples st) (mk_sample r now) then sample_index st
                             else (sample_index st + 1) mod num_samples)))"
proof -
  have h1: "samples (fresh_estimator 10000000) = []"
    and h2: "sample_index (fresh_estimator 10000000) = 0"
    by (simp_all add: fresh_estimator_def)
  from write_cursor_in_bounds [OF h1 h2, of calls0] h1 h2 show ?thesis by blast
qed

section \<open>Sequences of equal calls and the latency sum\<close>

lemma add_samples_replicate:
  "0 < n \<Longrightarrow> length (samples st) + n \<le> num_samples \<Longrightarrow>
   add_samples st (replicate n c) =
     Some (st\<lparr>samples := samples st @ replicate n (mk_sample (fst c) (snd c)),
              offset := regression (samples st @ replicate n (mk_sample (fst c) (snd c)))\<rparr>)"
proof (induction n arbitrary: st)
  case 0
  then show ?case by simp
next
  case (Suc n)
  let ?smp = "mk_sample (fst c) (snd c)"
  let ?st1 = "st\<lparr>samples := samples st @ [?smp], offset := regression (samples st @ [?smp])\<rparr>"
  have one: "add_sample st (fst c) (snd c) = Some ?st1"
    using Suc.prems by (simp add: add_sample_append)
  show ?case
  proof (cases "n = 0")
    case True
    with one show ?thesis by simp
  next
    case False
    then have "add_samples ?st1 (replicate n c) =
      Some (?st1\<lparr>samples := samples ?st1 @ replicate n ?smp,
              offset := regression (samples ?st1 @ replicate n ?smp)\<rparr>)"
      using Suc.prems by (intro Suc.IH) simp_all
    with one show ?thesis by (simp add: replicate_app_Cons_same)
  qed
qed

lemma latency_sum_fold:
  "fold (\<lambda>s latency. latency + (received s - query s)) xs acc = acc + latency_sum xs"
proof (induction xs arbitrary: acc)
  case Nil
  then show ?case by (simp add: latency_sum_def)
next
  case (Cons x xs)
  have "latency_sum (x # xs) = (received x - query x) + latency_sum xs"
    using Cons.IH [of "received x - query x"] by (simp add: latency_sum_def)
  with Cons.IH [of "acc + (received x - query x)"] show ?case by simp
qed

lemma latency_sum_Cons: "latency_sum (x # xs) = (received x - query x) + latency_sum xs"
  using latency_sum_fold [of xs "received x - query x"] by (simp add: latency_sum_def)

lemma latency_sum_replicate: "latency_sum (replicate n s) = of_nat n * (received s - query s)"
proof (induction n)
  case 0
  show ?case by (simp add: latency_sum_def)
next
  case (Suc n)
  have "latency_sum (replicate (Suc n) s) = (received s - query s) + latency_sum (replicate n s)"
    by (simp only: replicate_Suc latency_sum_Cons)
  then show ?case by (simp add: Suc.IH algebra_simps)
qed

lemma latency_sum_sint: "latency_sum xs = word_of_int (sum_list (latencies xs))"
proof (induction xs)
  case Nil
  show ?case by (simp add: latency_sum_def latencies_def)
next
  case (Cons x xs)
  have "word_of_int (sint (received x - query x)) = received x - query x"
    by simp
  then show ?case
    using Cons.IH by (simp add: latency_sum_Cons latencies_def)
qed

lemma sint_word_of_int_i64:
  "- (2 ^ 63) \<le> k \<Longrightarrow> k < 2 ^ 63 \<Longrightarrow> sint (word_of_int k :: i64) = k"
  by (simp add: sint_sbintrunc' signed_take_bit_int_eq_self)

lemma mean_latency_nonneg:
  assumes "0 \<le> sum_list (latencies xs)" and "sum_list (latencies xs) < 2 ^ 63"
    and "length xs = num_samples"
  shows "sint (3 * mean_latency xs) = 3 * (sum_list (latencies xs) div 100)"
proof -
  let ?S = "sum_list (latencies xs)"
  have u: "uint (latency_sum xs) = ?S"
    using assms(1,2) by (simp add: latency_sum_sint uint_word_of_int)
  have "uint (mean_latency xs) = ?S div 100"
    using assms(3) by (simp add: mean_latency_def uint_div u num_samples_def)
  then have m: "mean_latency xs = word_of_int (?S div 100)"
    by (metis word_of_int_uint)
  have "0 \<le> ?S div 100" and "3 * (?S div 100) < 2 ^ 63"
    using assms(1,2) by auto
  then have "sint (word_of_int (3 * (?S div 100)) :: i64) = 3 * (?S div 100)"
    by (intro sint_word_of_int_i64) simp_all
  moreover have "3 * mean_latency xs = word_of_int (3 * (?S div 100))"
    by (simp add: m)
  ultimately show ?thesis by (simp only:)
qed


section \<open>The sampling interval\<close>

lemma interval_step:
  assumes "window_ok st"
  shows "\<exists>st'. add_sample st r now = Some st' \<and>
           sample_interval st' = (if length (samples st) < num_samples then sample_interval st else one_second)"
proof (cases "length (samples st) < num_samples")
  case True
  then show ?thesis by (simp add: add_sample_append)
next
  case full: False
  with assms have idx: "sample_index st < length (samples st)"
    by (auto simp: window_ok_def)
  show ?thesis
    using full idx
    by (cases "high_latency (samples st) (mk_sample r now)")
       (simp_all add: add_sample_reject add_sample_overwrite)
qed

lemma interval_add_samples:
  "window_ok st \<Longrightarrow> add_samples st cs = Some st' \<Longrightarrow>
   sample_interval st' =
     (if length (samples st) + length cs \<le> num_samples then sample_interval st else one_second)"
proof (induction cs arbitrary: st)
  case Nil
  then show ?case by (simp add: window_ok_def)
next
  case (Cons c cs)
  from window_ok_step [OF Cons.prems(1), of "fst c" "snd c"]
  obtain st1 where st1: "add_sample st (fst c) (snd c) = Some st1" "window_ok st1" by blast
  with Cons.prems have rest: "add_samples st1 cs = Some st'" by simp
  have len: "length (samples st1) = min (length (samples st) + length [c]) num_samples"
    using length_add_samples [OF Cons.prems(1), of "[c]" st1] st1(1) by simp
  have int: "sample_interval st1 = (if length (samples st) < num_samples then sample_interval st else one_second)"
    using interval_step [OF Cons.prems(1), of "fst c" "snd c"] st1(1) by simp
  show ?case
    using Cons.IH [OF st1(2) rest] len int Cons.prems(1)
    by (auto simp: window_ok_def min_def split: if_splits)
qed

lemma bootstrapped_reached:
  "add_samples (fresh_estimator 10000000) (replicate 100 (reply0, 11000)) = Some bootstrapped"
  using add_samples_replicate [of 100 "fresh_estimator 10000000" "(reply0, 11000)"]
  by (simp add: fresh_estimator_def num_samples_def bootstrapped_def)

lemma bootstrapped_high_latency:
  "high_latency (samples bootstrapped) (mk_sample reply0 1000000)"
  by (simp add: bootstrapped_def high_latency_def mean_latency_def latency_sum_replicate
      mk_sample_def reply0_def word_sless_alt)

text \<open>
  Claim C7, as stated, fails. One hundred calls from the fresh estimator (interval 10 ms)
  fill the window and leave the interval at 10 ms: the call that makes the window full does
  not widen it. The next call carries a sample that fails the latency test (latency 999000 ns
  against a mean of 10000 ns): the window is left as it is, and yet the interval becomes one
  second. Line 50 comes before the test of line 56.
\<close>

theorem widening_on_rejected_sample:
  "add_samples (fresh_estimator 10000000) (replicate 100 (reply0, 11000)) = Some bootstrapped \<and>
   length (samples bootstrapped) = num_samples \<and>
   sample_interval bootstrapped = 10000000 \<and>
   high_latency (samples bootstrapped) (mk_sample reply0 1000000) \<and>
   add_sample bootstrapped reply0 1000000 = Some (bootstrapped\<lparr>sample_interval := one_second\<rparr>) \<and>
   sample_interval (bootstrapped\<lparr>sample_interval := one_second\<rparr>) = 1000000000"
proof -
  have "add_sample bootstrapped reply0 1000000 = Some (bootstrapped\<lparr>sample_interval := one_second\<rparr>)"
    using bootstrapped_high_latency
    by (simp add: add_sample_reject bootstrapped_def num_samples_def)
  moreover have "length (samples bootstrapped) = num_samples"
    and "sample_interval bootstrapped = 10000000"
    and "sample_interval (bootstrapped\<lparr>sample_interval := one_second\<rparr>) = 1000000000"
    by (simp_all add: bootstrapped_def num_samples_def one_second_def)
  ultimately show ?thesis
    using bootstrapped_reached bootstrapped_high_latency by simp
qed

text \<open>
  Claim C7, amended. Start from an estimator with an empty window and the cursor at 0 and
  make any sequence \<open>cs\<close> of \<open>add_sample\<close> calls. After at most 100 calls
  \<open>sample_interval\<close> still has its initial value; after more than 100 it is one second.
  Every call that finds the window not yet full, the one that stores the hundredth sample
  included, leaves the interval alone; every call that finds the window full sets it to one
  second, whether the sample is then dropped or stored. So the interval changes once, at the
  101st call, and is one second for ever after.
\<close>

theorem sample_interval_widening:
  assumes "samples st0 = []" and "sample_index st0 = 0"
  shows "\<exists>st. add_samples st0 cs = Some st \<and>
           sample_interval st = (if length cs \<le> num_samples then sample_interval st0 else one_second) \<and>
           (\<forall>r now. \<exists>st'. add_sample st r now = Some st' \<and>
              sample_interval st' =
                (if length (samples st) < num_samples then sample_interval st else one_second))"
proof -
  have ok: "window_ok st0" by (rule window_ok_initial [OF assms])
  from window_ok_add_samples [OF ok, of cs]
  obtain st where st: "add_samples st0 cs = Some st" "window_ok st" by blast
  have "sample_interval st = (if length cs \<le> num_samples then sample_interval st0 else one_second)"
    using interval_add_samples [OF ok st(1)] assms by simp
  moreover have "\<forall>r now. \<exists>st'. add_sample st r now = Some st' \<and>
              sample_interval st' =
                (if length (samples st) < num_samples then sample_interval st else one_second)"
    using interval_step [OF st(2)] by blast
  ultimately show ?thesis using st(1) by blast
qed

theorem sample_interval_widening_witness:
  "samples (fresh_estimator 10000000) = [] \<and> sample_index (fresh_estimator 10000000) = 0 \<and>
   (\<exists>st. add_samples (fresh_estimator 10000000) calls0 = Some st \<and>
      sample_interval st =
        (if length calls0 \<le> num_samples then sample_interval (fresh_estimator 10000000)
         else one_second) \<and>
      (\<forall>r now. \<exists>st'. add_sample st r now = Some st' \<and>
         sample_interval st' =
           (if length (samples st) < num_samples then sample_interval st else one_second)))"
proof -
  have h1: "samples (fresh_estimator 10000000) = []"
    and h2: "sample_index (fresh_estimator 10000000) = 0"
    by (simp_all add: fresh_estimator_def)
  from sample_interval_widening [OF h1 h2, of calls0] h1 h2 show ?thesis by blast
qed

section \<open>The outlier test\<close>

text \<open>
  With a total latency that is not negative (and below \<open>2 ^ 63\<close>, so that the sum does not
  overflow), the test of line 56 does what the comment says: a sample whose latency is above
  three times the mean of the stored latencies is dropped, and the window, the cursor and the
  model stay as they are.
\<close>

lemma outlier_rejected:
  assumes len: "length (samples st) = num_samples"
    and nonneg: "0 \<le> sum_list (latencies (samples st))"
    and bound: "sum_list (latencies (samples st)) < 2 ^ 63"
    and late: "3 * sum_list (latencies (samples st)) < 100 * sint (now - query r)"
  shows "add_sample st r now = Some (st\<lparr>sample_interval := one_second\<rparr>)"
proof -
  let ?S = "sum_list (latencies (samples st))"
  have "3 * (?S div 100) * 100 \<le> 3 * ?S"
    using nonneg by simp
  with late have "3 * (?S div 100) < sint (now - query r)" by linarith
  then have "high_latency (samples st) (mk_sample r now)"
    using mean_latency_nonneg [OF nonneg bound len]
    by (simp add: high_latency_def word_sless_alt mk_sample_def)
  then show ?thesis using len by (simp add: add_sample_reject)
qed

lemma ahead_window_reached:
  "add_samples (fresh_estimator 10000000) (replicate 100 (reply_ahead, 1000)) = Some ahead_window"
  using add_samples_replicate [of 100 "fresh_estimator 10000000" "(reply_ahead, 1000)"]
  by (simp add: fresh_estimator_def num_samples_def ahead_window_def)

lemma ahead_sum: "sint (latency_sum (samples ahead_window)) = - 100"
  by (simp add: ahead_window_def latency_sum_replicate mk_sample_def reply_ahead_def)

lemma ahead_mean: "mean_latency (samples ahead_window) = 184467440737095515"
  by (simp add: ahead_window_def mean_latency_def latency_sum_replicate mk_sample_def reply_ahead_def)

lemma ahead_not_high: "\<not> high_latency (samples ahead_window) (mk_sample reply0 1000)"
  by (simp add: high_latency_def ahead_mean mk_sample_def reply0_def word_sless_alt)

text \<open>
  Claim C1 at a window whose samples have the latency -1 ns (the reply names a query time
  1 ns after its own arrival). One hundred such replies fill the window from the fresh
  estimator. The sum of the latencies is -100 and their mean -1; the division of line 54 is
  unsigned and gives 184467440737095515. A sample of latency 0, which is above three times
  the mean -1, is not dropped: it is written over slot 0.
\<close>

theorem negative_mean_admits_outlier:
  "add_samples (fresh_estimator 10000000) (replicate 100 (reply_ahead, 1000)) = Some ahead_window \<and>
   length (samples ahead_window) = num_samples \<and>
   latencies (samples ahead_window) = replicate 100 (- 1) \<and>
   sint (latency_sum (samples ahead_window)) = - 100 \<and>
   mean_latency (samples ahead_window) = 184467440737095515 \<and>
   latencies [mk_sample reply0 1000] = [0] \<and>
   map_option samples (add_sample ahead_window reply0 1000) =
     Some (mk_sample reply0 1000 # replicate 99 (mk_sample reply_ahead 1000)) \<and>
   mk_sample reply0 1000 # replicate 99 (mk_sample reply_ahead 1000) \<noteq> samples ahead_window"
proof -
  have upd: "(replicate 100 (mk_sample reply_ahead 1000))[0 := mk_sample reply0 1000] =
         mk_sample reply0 1000 # replicate 99 (mk_sample reply_ahead 1000)"
    by (simp add: numeral_eq_Suc)
  have "map_option samples (add_sample ahead_window reply0 1000) =
     Some (mk_sample reply0 1000 # replicate 99 (mk_sample reply_ahead 1000))"
    using ahead_not_high upd
    by (simp add: add_sample_overwrite ahead_window_def num_samples_def)
  moreover have "length (samples ahead_window) = num_samples"
    by (simp add: ahead_window_def num_samples_def)
  moreover have "latencies (samples ahead_window) = replicate 100 (- 1)"
    by (simp add: ahead_window_def latencies_def mk_sample_def reply_ahead_def)
  moreover have "latencies [mk_sample reply0 1000] = [0]"
    by (simp add: latencies_def mk_sample_def reply0_def)
  moreover have "mk_sample reply0 1000 # replicate 99 (mk_sample reply_ahead 1000) \<noteq> samples ahead_window"
  proof -
    have "samples ahead_window = mk_sample reply_ahead 1000 # replicate 99 (mk_sample reply_ahead 1000)"
      by (simp add: ahead_window_def numeral_eq_Suc)
    then show ?thesis
      by (simp add: mk_sample_def reply0_def reply_ahead_def)
  qed
  ultimately show ?thesis
    using ahead_window_reached ahead_sum ahead_mean by simp
qed

section \<open>The probe scheduler\<close>

text \<open>
  Claim C8. When the first clock reading is strictly before \<open>next_sample\<close>, the call
  changes nothing, hands nothing to the transport and returns. Otherwise the deadline
  becomes the (second) clock reading plus \<open>sample_interval\<close>, one query stamped with the
  reading of the monotonic clock is handed to the transport, and the estimator after the call
  is the same whether the send succeeds or fails.
\<close>

theorem request_sample_schedule:
  "(now1 <s next_sample st \<longrightarrow>
      request_sample st now1 now2 mono_ns send_stream = (st, [], True)) \<and>
   (\<not> now1 <s next_sample st \<longrightarrow>
      request_sample st now1 now2 mono_ns send_stream =
        (st\<lparr>next_sample := now2 + sample_interval st\<rparr>, [Timesync_query mono_ns],
         send_stream (Timesync_query mono_ns)) \<and>
      fst (request_sample st now1 now2 mono_ns (\<lambda>q. False)) =
        fst (request_sample st now1 now2 mono_ns (\<lambda>q. True)))"
  by (simp add: request_sample_def Let_def)

theorem request_sample_schedule_witness:
  "(5 :: i64) <s next_sample (bootstrapped\<lparr>next_sample := 7\<rparr>) \<and>
   request_sample (bootstrapped\<lparr>next_sample := 7\<rparr>) 5 6 6 (\<lambda>q. True) =
     (bootstrapped\<lparr>next_sample := 7\<rparr>, [], True) \<and>
   \<not> (8 :: i64) <s next_sample (bootstrapped\<lparr>next_sample := 7\<rparr>) \<and>
   request_sample (bootstrapped\<lparr>next_sample := 7\<rparr>) 8 9 10 (\<lambda>q. False) =
     (bootstrapped\<lparr>next_sample := 10000009\<rparr>, [Timesync_query 10], False)"
proof -
  have h1: "(5 :: i64) <s next_sample (bootstrapped\<lparr>next_sample := 7\<rparr>)"
    and h2: "\<not> (8 :: i64) <s next_sample (bootstrapped\<lparr>next_sample := 7\<rparr>)"
    by (simp_all add: word_sless_alt)
  have s: "sample_interval (bootstrapped\<lparr>next_sample := 7\<rparr>) = 10000000"
    by (simp add: bootstrapped_def)
  from request_sample_schedule [of 5 "bootstrapped\<lparr>next_sample := 7\<rparr>" 6 6 "\<lambda>q. True"]
       request_sample_schedule [of 8 "bootstrapped\<lparr>next_sample := 7\<rparr>" 9 10 "\<lambda>q. False"]
       h1 h2 s
  show ?thesis by simp
qed

section \<open>Translating timestamps\<close>

lemma to_headset_finite:
  assumes m: "0 < m" and n: "0 \<le> n" "n < 2 ^ 53"
    and p: "round_mag (m * of_int n) = Some p" "p < 2 ^ 63"
    and t: "uint t = n"
  shows "to_headset \<lparr>a = DFinite s m, b = y\<rparr> t = word_of_int (trunc (signed_val s p)) + y"
proof -
  have p0: "0 \<le> p"
    using m n(1) by (intro round_mag_nonneg [OF p(1)]) simp
  have "i2d n = DFinite False (of_int n)"
    using i2d_exact [of n] n by simp
  then have "fmul (DFinite s m) (i2d n) = DFinite s p"
    using p(1) by (simp add: rnd_def)
  then show ?thesis
    using d2i_in_range [OF p0 p(2), of s] by (simp only: to_headset_def t clock_offset.simps)
qed

lemma from_headset_finite:
  assumes m: "0 < m" and d: "\<bar>d\<bar> < 2 ^ 53"
    and q: "round_mag (of_int \<bar>d\<bar> / m) = Some q" "q < 2 ^ 63"
    and t: "sint (ts - y) = d"
  shows "from_headset \<lparr>a = DFinite s m, b = y\<rparr> ts =
           word_of_int (trunc (signed_val ((d < 0) \<noteq> s) q))"
proof -
  have q0: "0 \<le> q"
    using m by (intro round_mag_nonneg [OF q(1)]) simp
  have "i2d d = DFinite (d < 0) (of_int \<bar>d\<bar>)"
    using i2d_exact [OF d] by simp
  then have "fdiv (i2d d) (DFinite s m) = DFinite ((d < 0) \<noteq> s) q"
    using q(1) m by (simp add: rnd_def)
  then show ?thesis
    using d2i_in_range [OF q0 q(2), of "(d < 0) \<noteq> s"] by (simp only: from_headset_def t clock_offset.simps)
qed

text \<open>
  Claim C5, amended. Let the slope be a finite double of magnitude \<open>m > 0\<close> and sign
  \<open>s\<close>, and let the integers that enter the conversions be below \<open>2 ^ 53\<close> (they
  convert to \<open>double\<close> exactly). \<open>to_headset\<close> returns the product \<open>a * t\<close>, rounded to
  a double \<open>p\<close> and then cut to an integer by discarding the fraction (towards zero, not to
  the nearest integer), plus \<open>b\<close> in 64-bit arithmetic. \<open>from_headset\<close> returns the quotient
  \<open>(ts - b) / a\<close>, rounded to a double \<open>q\<close> and cut to an integer the same way. Nothing
  is clamped: a negative value is returned as it is.
\<close>

theorem translation_truncates:
  assumes "0 < m"
    and "uint t < 2 ^ 53" and "round_mag (m * of_int (uint t)) = Some p" and "p < 2 ^ 63"
    and "\<bar>sint (ts - y)\<bar> < 2 ^ 53" and "round_mag (of_int \<bar>sint (ts - y)\<bar> / m) = Some q"
    and "q < 2 ^ 63"
  shows "to_headset \<lparr>a = DFinite s m, b = y\<rparr> t = word_of_int (trunc (signed_val s p)) + y \<and>
         from_headset \<lparr>a = DFinite s m, b = y\<rparr> ts =
           word_of_int (trunc (signed_val ((sint (ts - y) < 0) \<noteq> s) q))"
proof -
  have "0 \<le> uint t" by (rule uint_ge_0)
  then have "to_headset \<lparr>a = DFinite s m, b = y\<rparr> t = word_of_int (trunc (signed_val s p)) + y"
    using assms(1-4) by (intro to_headset_finite [where n = "uint t"]) (rule refl | assumption)+
  moreover have "from_headset \<lparr>a = DFinite s m, b = y\<rparr> ts =
           word_of_int (trunc (signed_val ((sint (ts - y) < 0) \<noteq> s) q))"
    using assms(1,5-7) by (intro from_headset_finite [where d = "sint (ts - y)"]) (rule refl | assumption)+
  ultimately show ?thesis by (rule conjI)
qed

lemma round_mag_7_4: "round_mag (7 / 4) = Some (7 / 4)"
  using round_mag_exact [of 7 "- 2"] by (simp add: pow2_def)

lemma round_mag_9_2: "round_mag (9 / 2) = Some (9 / 2)"
  using round_mag_exact [of 9 "- 1"] by (simp add: pow2_def)

lemma to_headset_7_4: "to_headset \<lparr>a = DFinite False (7 / 4), b = 0\<rparr> 1 = 1"
  using to_headset_finite [of "7 / 4" 1 "7 / 4" 1 False 0] round_mag_7_4
  by (simp add: trunc_def signed_val_def)

lemma from_headset_7_4: "from_headset \<lparr>a = DFinite False 4, b = 0\<rparr> 7 = 1"
  using from_headset_finite [of 4 7 "7 / 4" 7 0 False] round_mag_7_4
  by (simp add: trunc_def signed_val_def)

text \<open>
  Claim C5, as stated, fails: with \<open>a = 1.75\<close>, \<open>b = 0\<close> the server time 1 is translated
  to 1, not to \<open>round 1.75 = 2\<close>; with \<open>a = 4\<close>, \<open>b = 0\<close> the device time 7 is
  translated to 1, not to \<open>round (7 / 4) = 2\<close>.
\<close>

theorem translation_does_not_round:
  "to_headset \<lparr>a = DFinite False (7 / 4), b = 0\<rparr> 1 = 1 \<and>
   round (7 / 4 * 1 :: rat) + 0 = (2 :: int) \<and>
   from_headset \<lparr>a = DFinite False 4, b = 0\<rparr> 7 = 1 \<and>
   round ((7 - 0) / 4 :: rat) = (2 :: int)"
  using to_headset_7_4 from_headset_7_4 by (simp add: round_def)

theorem translation_truncates_witness:
  "(0 :: rat) < 4 \<and> uint (5 :: i64) < 2 ^ 53 \<and>
   round_mag (4 * of_int (uint (5 :: i64))) = Some 20 \<and> (20 :: rat) < 2 ^ 63 \<and>
   \<bar>sint (2 - 20 :: i64)\<bar> < 2 ^ 53 \<and>
   round_mag (of_int \<bar>sint (2 - 20 :: i64)\<bar> / 4) = Some (9 / 2) \<and> (9 / 2 :: rat) < 2 ^ 63 \<and>
   to_headset \<lparr>a = DFinite False 4, b = 20\<rparr> 5 = 40 \<and>
   from_headset \<lparr>a = DFinite False 4, b = 20\<rparr> 2 = - 4"
proof -
  have h1: "(0 :: rat) < 4" by simp
  have h2: "uint (5 :: i64) < 2 ^ 53" by simp
  have h3: "round_mag (4 * of_int (uint (5 :: i64))) = Some 20"
    using round_mag_of_int [of 20] by simp
  have h4: "(20 :: rat) < 2 ^ 63" by simp
  have h5: "\<bar>sint (2 - 20 :: i64)\<bar> < 2 ^ 53" by simp
  have h6: "round_mag (of_int \<bar>sint (2 - 20 :: i64)\<bar> / 4) = Some (9 / 2)"
    using round_mag_9_2 by simp
  have h7: "(9 / 2 :: rat) < 2 ^ 63" by simp
  from translation_truncates [OF h1 h2 h3 h4 h5 h6 h7, of False]
  have "to_headset \<lparr>a = DFinite False 4, b = 20\<rparr> 5 = 40 \<and>
        from_headset \<lparr>a = DFinite False 4, b = 20\<rparr> 2 = - 4"
    by (simp add: trunc_def signed_val_def)
  with h1 h2 h3 h4 h5 h6 h7 show ?thesis by (intro conjI) simp_all
qed

section \<open>The regression on exact data\<close>

lemma rnd_small_half_int:
  assumes "small_half_int q"
  shows "rnd s q = DFinite s q"
proof -
  from assms obtain k where k: "2 * q = of_int k"
    by (auto simp: small_half_int_def elim: Ints_cases)
  then have q: "q = of_int k / 2" by simp
  have "(0 :: rat) \<le> of_int k" "(of_int k :: rat) < of_int (2 ^ 53)"
    using assms by (simp_all add: small_half_int_def q)
  then have "0 \<le> k" "k < 2 ^ 53"
    by (simp_all only: of_int_0_le_iff of_int_less_iff)
  then show ?thesis
    unfolding q by (rule rnd_half_int)
qed

lemma small_half_int_add:
  "small_half_int x \<Longrightarrow> small_half_int y \<Longrightarrow> x + y < 2 ^ 52 \<Longrightarrow> small_half_int (x + y)"
  by (simp add: small_half_int_def distrib_left)

lemma small_half_int_0 [simp]: "small_half_int 0"
  by (simp add: small_half_int_def)

lemma fadd_small_half_int:
  assumes "small_half_int x" and "small_half_int y" and "x + y < 2 ^ 52"
  shows "fadd (DFinite False x) (DFinite False y) = DFinite False (x + y)"
proof (cases "x + y = 0")
  case True
  then show ?thesis by (simp add: signed_val_def)
next
  case False
  have "0 \<le> x + y" using assms(1,2) by (simp add: small_half_int_def)
  then have "fadd (DFinite False x) (DFinite False y) = rnd False (x + y)"
    using False by (simp add: signed_val_def Let_def)
  also have "\<dots> = DFinite False (x + y)"
    by (rule rnd_small_half_int [OF small_half_int_add [OF assms]])
  finally show ?thesis .
qed

lemma fold_means_exact:
  assumes "\<forall>s \<in> set xs. sample_X s = DFinite False (midpoint s) \<and> small_half_int (midpoint s) \<and>
                        sample_Y s = DFinite False (device_time s) \<and> small_half_int (device_time s)"
    and "small_half_int A" and "small_half_int B"
    and "A + sum_list (map midpoint xs) < 2 ^ 52" and "B + sum_list (map device_time xs) < 2 ^ 52"
  shows "fold step_means xs (DFinite False A, DFinite False B) =
           (DFinite False (A + sum_list (map midpoint xs)),
            DFinite False (B + sum_list (map device_time xs)))"
  using assms
proof (induction xs arbitrary: A B)
  case Nil
  then show ?case by simp
next
  case (Cons s xs)
  from Cons.prems(1) have s: "sample_X s = DFinite False (midpoint s)" "small_half_int (midpoint s)"
      "sample_Y s = DFinite False (device_time s)" "small_half_int (device_time s)"
    and rest: "\<forall>s \<in> set xs. sample_X s = DFinite False (midpoint s) \<and> small_half_int (midpoint s) \<and>
                        sample_Y s = DFinite False (device_time s) \<and> small_half_int (device_time s)"
    by simp_all
  have nn: "0 \<le> sum_list (map midpoint xs)" "0 \<le> sum_list (map device_time xs)"
    using rest by (auto intro!: sum_list_nonneg simp: small_half_int_def)
  have A': "A + midpoint s < 2 ^ 52" and B': "B + device_time s < 2 ^ 52"
    using Cons.prems(4,5) nn by simp_all
  have st: "step_means s (DFinite False A, DFinite False B) =
            (DFinite False (A + midpoint s), DFinite False (B + device_time s))"
    using fadd_small_half_int [OF Cons.prems(2) s(2) A'] fadd_small_half_int [OF Cons.prems(3) s(4) B']
    by (simp add: step_means_def s(1,3))
  have "fold step_means xs (DFinite False (A + midpoint s), DFinite False (B + device_time s)) =
        (DFinite False (A + midpoint s + sum_list (map midpoint xs)),
         DFinite False (B + device_time s + sum_list (map device_time xs)))"
    using Cons.prems(4,5)
    by (intro Cons.IH [OF rest small_half_int_add [OF Cons.prems(2) s(2) A']
          small_half_int_add [OF Cons.prems(3) s(4) B']]) (simp_all add: add.assoc)
  then show ?case
    by (simp add: st add.assoc)
qed


lemma small_half_int_half:
  assumes "0 \<le> k" and "k < 2 ^ 53"
  shows "small_half_int (of_int k / 2)"
proof -
  have "(of_int k :: rat) < of_int (2 ^ 53)"
    using assms(2) by (simp only: of_int_less_iff)
  then show ?thesis using assms(1) by (simp add: small_half_int_def)
qed

lemma small_half_int_of_int:
  assumes "0 \<le> k" and "k < 2 ^ 52"
  shows "small_half_int (of_int k)"
proof -
  have "(of_int k :: rat) < of_int (2 ^ 52)"
    using assms(2) by (simp only: of_int_less_iff)
  then show ?thesis using assms(1) by (simp add: small_half_int_def)
qed

lemma of_int_less_pow2:
  assumes "k < 2 ^ n"
  shows "(of_int k :: rat) < 2 ^ n"
proof -
  have "(of_int k :: rat) < of_int (2 ^ n)"
    using assms by (simp only: of_int_less_iff)
  then show ?thesis by simp
qed

lemma fmul_half:
  assumes "0 \<le> k" and "k < 2 ^ 53"
  shows "fmul (i2d k) d_half = DFinite False (of_int k / 2)"
proof -
  have "i2d k = DFinite False (of_int k)"
    using i2d_exact [of k] assms by simp
  then show ?thesis
    using rnd_small_half_int [OF small_half_int_half [OF assms], of False]
    by (simp add: d_half_def)
qed

lemma sint_add_small:
  fixes x y :: i64
  assumes "0 \<le> sint x" "sint x < 2 ^ 45" "0 \<le> sint y" "sint y < 2 ^ 45"
  shows "sint (x + y) = sint x + sint y"
proof -
  have "x + y = word_of_int (sint x + sint y)" by simp
  moreover have "sint (word_of_int (sint x + sint y) :: i64) = sint x + sint y"
    using assms by (intro sint_word_of_int_i64) simp_all
  ultimately show ?thesis by (simp only:)
qed

lemma sample_X_midpoint:
  assumes "0 \<le> sint (query s)" "sint (query s) < 2 ^ 45"
    and "0 \<le> sint (received s)" "sint (received s) < 2 ^ 45"
  shows "sample_X s = DFinite False (midpoint s)" and "small_half_int (midpoint s)"
proof -
  have e: "sint (query s + received s) = sint (query s) + sint (received s)"
    by (rule sint_add_small [OF assms])
  have k: "0 \<le> sint (query s) + sint (received s)" "sint (query s) + sint (received s) < 2 ^ 53"
    using assms by simp_all
  have m: "midpoint s = of_int (sint (query s) + sint (received s)) / 2"
    unfolding midpoint_def by (simp only: of_int_add)
  show "sample_X s = DFinite False (midpoint s)"
    unfolding sample_X_def e m by (rule fmul_half [OF k])
  show "small_half_int (midpoint s)"
    unfolding m by (rule small_half_int_half [OF k])
qed

lemma sample_Y_device_time:
  assumes "0 \<le> sint (response s)" and "sint (response s) < 2 ^ 52"
  shows "sample_Y s = DFinite False (device_time s)" and "small_half_int (device_time s)"
proof -
  have "\<bar>sint (response s)\<bar> < 2 ^ 53" using assms by simp
  from i2d_exact [OF this] show "sample_Y s = DFinite False (device_time s)"
    using assms(1) unfolding sample_Y_def device_time_def by (simp only: abs_of_nonneg) simp
  show "small_half_int (device_time s)"
    unfolding device_time_def by (rule small_half_int_of_int [OF assms])
qed

lemma half_sum_less:
  fixes x y c :: rat
  shows "x < c \<Longrightarrow> y < c \<Longrightarrow> (x + y) / 2 < c"
  by (simp add: field_simps)

lemma in_range_exact:
  assumes "in_range s"
  shows "sample_X s = DFinite False (midpoint s)" "small_half_int (midpoint s)"
    "sample_Y s = DFinite False (device_time s)" "small_half_int (device_time s)"
    "midpoint s < 2 ^ 45" "device_time s < 2 ^ 45"
proof -
  have q: "0 \<le> sint (query s)" "sint (query s) < 2 ^ 45"
    and r: "0 \<le> sint (received s)" "sint (received s) < 2 ^ 45"
    and b: "0 \<le> sint (response s)" "sint (response s) < 2 ^ 45"
    using assms by (simp_all add: in_range_def)
  show "sample_X s = DFinite False (midpoint s)" "small_half_int (midpoint s)"
    by (rule sample_X_midpoint [OF q r])+
  show "sample_Y s = DFinite False (device_time s)" "small_half_int (device_time s)"
    using sample_Y_device_time [of s] b by simp_all
  show "midpoint s < 2 ^ 45"
    unfolding midpoint_def
    by (rule half_sum_less [OF of_int_less_pow2 [OF q(2)] of_int_less_pow2 [OF r(2)]])
  show "device_time s < 2 ^ 45"
    using of_int_less_pow2 [OF b(2)] unfolding device_time_def by simp
qed

lemma sum_list_bound:
  fixes f :: "'a \<Rightarrow> rat"
  assumes "\<forall>x \<in> set xs. f x < c"
  shows "sum_list (map f xs) \<le> of_nat (length xs) * c"
  using assms
proof (induction xs)
  case Nil
  then show ?case by simp
next
  case (Cons x xs)
  then have "f x < c" and "sum_list (map f xs) \<le> of_nat (length xs) * c" by simp_all
  then show ?case by (simp add: algebra_simps)
qed

lemma means_exact:
  assumes r: "\<forall>s \<in> set xs. in_range s" and n: "xs \<noteq> []" "length xs \<le> 100"
  shows "means xs = (rnd False (sum_list (map midpoint xs) / of_nat (length xs)),
                     rnd False (sum_list (map device_time xs) / of_nat (length xs)))"
proof -
  have ex: "\<forall>s \<in> set xs. sample_X s = DFinite False (midpoint s) \<and> small_half_int (midpoint s) \<and>
                        sample_Y s = DFinite False (device_time s) \<and> small_half_int (device_time s)"
    using r in_range_exact by blast
  have "sum_list (map midpoint xs) \<le> of_nat (length xs) * 2 ^ 45"
    using r in_range_exact(5) by (intro sum_list_bound) blast
  also have "\<dots> \<le> 100 * 2 ^ 45"
    using n(2) by (intro mult_right_mono) simp_all
  finally have bx: "0 + sum_list (map midpoint xs) < 2 ^ 52" by simp
  have "sum_list (map device_time xs) \<le> of_nat (length xs) * 2 ^ 45"
    using r in_range_exact(6) by (intro sum_list_bound) blast
  also have "\<dots> \<le> 100 * 2 ^ 45"
    using n(2) by (intro mult_right_mono) simp_all
  finally have by': "0 + sum_list (map device_time xs) < 2 ^ 52" by simp
  have f: "fold step_means xs (d_zero, d_zero) =
      (DFinite False (sum_list (map midpoint xs)), DFinite False (sum_list (map device_time xs)))"
    using fold_means_exact [OF ex small_half_int_0 small_half_int_0 bx by']
    by (simp add: d_zero_def)
  have i: "i2d (int (length xs)) = DFinite False (of_nat (length xs))"
    using i2d_exact [of "int (length xs)"] n(2) by simp
  have "(of_nat (length xs) :: rat) \<noteq> 0" using n(1) by simp
  then show ?thesis
    unfolding means_def f i Let_def prod.case fdiv.simps
    by simp
qed


lemma fold_fixed: "\<forall>x \<in> set xs. f x z = z \<Longrightarrow> fold f xs z = z"
  by (induction xs) simp_all

lemma rnd_0 [simp]: "rnd s 0 = DFinite s 0"
  by (simp add: rnd_def round_mag_def)

lemma fadd_NaN_right [simp]: "fadd x DNaN = DNaN"
  by (cases x) simp_all

lemma fmul_NaN_right [simp]: "fmul x DNaN = DNaN"
  by (cases x) simp_all

lemma fdiv_NaN_right [simp]: "fdiv x DNaN = DNaN"
  by (cases x) simp_all

lemma fsub_self: "fsub (DFinite False m) (DFinite False m) = d_zero"
  by (simp add: fsub_def signed_val_def d_zero_def)

lemma centred_sums_uniform:
  assumes "\<forall>s \<in> set xs. sample_X s = DFinite False mx \<and> sample_Y s = DFinite False my"
  shows "centred_sums (DFinite False mx) (DFinite False my) xs = (d_zero, d_zero, d_zero, d_zero)"
  unfolding centred_sums_def
proof (rule fold_fixed, rule ballI)
  fix s assume "s \<in> set xs"
  with assms have "sample_X s = DFinite False mx" "sample_Y s = DFinite False my" by simp_all
  then show "step_sums (DFinite False mx) (DFinite False my) s (d_zero, d_zero, d_zero, d_zero) =
         (d_zero, d_zero, d_zero, d_zero)"
    by (simp add: step_sums_def fsub_self) (simp add: d_zero_def signed_val_def)
qed

lemma rnd_finite:
  assumes "pow2 (- 1022) \<le> q" and "q < pow2 1023"
  shows "\<exists>r. rnd s q = DFinite s r"
  using round_mag_error [OF assms] by (auto simp: rnd_def)

lemma inv_n_finite:
  assumes "0 < n" and "n \<le> 100"
  shows "\<exists>r. fdiv d_one (i2d (int n)) = DFinite False r"
proof -
  have i: "i2d (int n) = DFinite False (of_nat n)"
    using i2d_exact [of "int n"] assms(2) by simp
  have "(1 :: rat) / 100 \<le> 1 / of_nat n"
    using assms by (simp add: field_simps)
  moreover have "pow2 (- 1022) \<le> 1 / 100" by (simp add: pow2_def)
  ultimately have lo: "pow2 (- 1022) \<le> 1 / of_nat n" by linarith
  have "1 / of_nat n \<le> (1 :: rat)" using assms(1) by simp
  moreover have "(1 :: rat) < pow2 1023" by (simp add: pow2_def)
  ultimately have hi: "1 / of_nat n < pow2 1023" by linarith
  from rnd_finite [OF lo hi, of False] show ?thesis
    using assms(1) by (simp add: i d_one_def)
qed

lemma cov_v_uniform:
  assumes m: "means xs = (DFinite False mx, DFinite False my)"
    and u: "\<forall>s \<in> set xs. sample_X s = DFinite False mx \<and> sample_Y s = DFinite False my"
    and n: "xs \<noteq> []" "length xs \<le> 100"
  shows "cov_v xs = (d_zero, d_zero)"
proof -
  from inv_n_finite [of "length xs"] n
  obtain r where r: "fdiv d_one (i2d (int (length xs))) = DFinite False r" by auto
  show ?thesis
    unfolding cov_v_def r m Let_def prod.case centred_sums_uniform [OF u]
    by (simp add: d_zero_def fsub_def signed_val_def)
qed

lemma regression_full:
  assumes "\<not> length xs < num_samples"
  shows "a (regression xs) = fdiv (fst (cov_v xs)) (snd (cov_v xs))"
  using assms by (simp add: regression_def cov_v_def Let_def split: prod.splits)

lemma regression_uniform:
  assumes m: "means xs = (DFinite False mx, DFinite False my)"
    and u: "\<forall>s \<in> set xs. sample_X s = DFinite False mx \<and> sample_Y s = DFinite False my"
    and n: "length xs = 100"
  shows "regression xs = \<lparr>a = DNaN, b = d2i DNaN\<rparr>"
proof -
  have ne: "xs \<noteq> []" "length xs \<le> 100" using n by auto
  from inv_n_finite [of "length xs"] n
  obtain r where r: "fdiv d_one (i2d (int (length xs))) = DFinite False r" by auto
  have "\<not> length xs < num_samples" using n by (simp add: num_samples_def)
  then show ?thesis
    unfolding regression_def r m Let_def prod.case centred_sums_uniform [OF u]
    by (simp add: fsub_def d_zero_def signed_val_def)
qed

lemma regression_bootstrap:
  "length xs < num_samples \<Longrightarrow>
   regression xs = \<lparr>a = d_one, b = d2i (fsub (snd (means xs)) (fst (means xs)))\<rparr>"
  by (simp add: regression_def Let_def split: prod.splits)

lemma sample0_values:
  "in_range (mk_sample reply0 11000)"
  "midpoint (mk_sample reply0 11000) = 6000"
  "device_time (mk_sample reply0 11000) = 500000"
  by (simp_all add: in_range_def midpoint_def device_time_def mk_sample_def reply0_def)

lemma means_sample0:
  assumes "0 < n" and "n \<le> 100"
  shows "means (replicate n (mk_sample reply0 11000)) = (DFinite False 6000, DFinite False 500000)"
proof -
  let ?xs = "replicate n (mk_sample reply0 11000)"
  have r: "\<forall>s \<in> set ?xs. in_range s" by (simp add: sample0_values)
  have ne: "?xs \<noteq> []" "length ?xs \<le> 100" using assms by simp_all
  have "sum_list (map midpoint ?xs) / of_nat (length ?xs) = 6000"
    and "sum_list (map device_time ?xs) / of_nat (length ?xs) = 500000"
    using assms(1) by (simp_all add: sample0_values sum_list_replicate)
  then show ?thesis
    using rnd_of_int [of 6000 False] rnd_of_int [of 500000 False]
    by (simp add: means_exact [OF r ne])
qed

lemma sample0_XY:
  "sample_X (mk_sample reply0 11000) = DFinite False 6000"
  "sample_Y (mk_sample reply0 11000) = DFinite False 500000"
  using in_range_exact(1,3) [OF sample0_values(1)] by (simp_all add: sample0_values)

lemma regression_99: "regression (replicate 99 (mk_sample reply0 11000)) = \<lparr>a = d_one, b = 494000\<rparr>"
proof -
  have "fsub (DFinite False 500000) (DFinite False 6000) = DFinite False 494000"
    using rnd_of_int [of 494000 False] by (simp add: fsub_def signed_val_def)
  then show ?thesis
    by (simp add: regression_bootstrap num_samples_def means_sample0)
qed

lemma regression_100:
  "regression (replicate 100 (mk_sample reply0 11000)) = \<lparr>a = DNaN, b = d2i DNaN\<rparr>"
  by (rule regression_uniform [where mx = 6000 and my = 500000])
     (simp_all add: means_sample0 sample0_XY)

lemma cov_v_100: "cov_v (replicate 100 (mk_sample reply0 11000)) = (d_zero, d_zero)"
  by (rule cov_v_uniform [where mx = 6000 and my = 500000])
     (simp_all add: means_sample0 sample0_XY)

lemma almost_full_reached:
  "add_samples (fresh_estimator 10000000) (replicate 99 (reply0, 11000)) = Some almost_full"
  using add_samples_replicate [of 99 "fresh_estimator 10000000" "(reply0, 11000)"]
  by (simp add: fresh_estimator_def num_samples_def almost_full_def)

lemma almost_full_next: "add_sample almost_full reply0 11000 = Some bootstrapped"
proof -
  have "replicate 99 (mk_sample reply0 11000) @ [mk_sample reply0 11000] =
        replicate (Suc 99) (mk_sample reply0 11000)"
    by (simp only: replicate_append_same replicate_Suc)
  moreover have "Suc 99 = 100" by simp
  ultimately have "replicate 99 (mk_sample reply0 11000) @ [mk_sample reply0 11000] =
        replicate 100 (mk_sample reply0 11000)" by (simp only:)
  then show ?thesis
    by (simp add: add_sample_append almost_full_def bootstrapped_def num_samples_def)
qed

text \<open>
  Claim C9. Ninety-nine equal replies (query 1000, response 500000, received 11000, so every
  midpoint is 6000) leave the model \<open>a = 1\<close>, \<open>b = 494000\<close>. The hundredth such
  reply is stored and fills the window; all samples share one midpoint, the covariance and
  the variance of line 113 and 114 are both zero, and line 115 divides zero by zero. The
  NaN is stored as the slope; the intercept is the conversion of a NaN to \<open>int64_t\<close>. The
  previous model is replaced, nothing rejects the update.
\<close>

theorem degenerate_window_stores_nan:
  "add_samples (fresh_estimator 10000000) (replicate 99 (reply0, 11000)) = Some almost_full \<and>
   offset almost_full = \<lparr>a = d_one, b = 494000\<rparr> \<and>
   add_sample almost_full reply0 11000 = Some bootstrapped \<and>
   samples bootstrapped = replicate 100 (mk_sample reply0 11000) \<and>
   cov_v (samples bootstrapped) = (d_zero, d_zero) \<and>
   a (offset bootstrapped) =
     fdiv (fst (cov_v (samples bootstrapped))) (snd (cov_v (samples bootstrapped))) \<and>
   fdiv d_zero d_zero = DNaN \<and>
   offset bootstrapped = \<lparr>a = DNaN, b = d2i DNaN\<rparr>"
  using almost_full_reached almost_full_next regression_99 regression_100 cov_v_100
  by (simp add: almost_full_def bootstrapped_def d_zero_def)

section \<open>The bootstrap model\<close>

lemma round_mag_error_abs:
  assumes "0 \<le> q" and hi: "q < pow2 1023"
  shows "\<exists>r. round_mag q = Some r \<and> 0 \<le> r \<and> \<bar>r - q\<bar> \<le> q / 2 ^ 53 + pow2 (- 1075)"
proof (cases "q = 0")
  case True
  then show ?thesis by (simp add: round_mag_def)
next
  case False
  with assms have q: "0 < q" by simp
  define E where "E = max (flog2 q) (- 1022)"
  define u where "u = pow2 (E - 52)"
  define r where "r = of_int (round_even (q / u)) * u"
  have u: "0 < u" by (simp add: u_def)
  have "pow2 (flog2 q) < pow2 1023"
    using flog2_bounds(1) [OF q] hi by linarith
  then have E_hi: "E < 1023" by (simp add: pow2_less_iff E_def)
  have "\<bar>of_int (round_even (q / u)) - q / u\<bar> \<le> 1 / 2" by (rule round_even_error)
  then have "\<bar>of_int (round_even (q / u)) - q / u\<bar> * u \<le> 1 / 2 * u"
    using u by (intro mult_right_mono) simp_all
  moreover have "r - q = (of_int (round_even (q / u)) - q / u) * u"
    using u by (simp add: r_def left_diff_distrib)
  then have "\<bar>r - q\<bar> = \<bar>of_int (round_even (q / u)) - q / u\<bar> * u"
    using u by (simp only: abs_mult abs_of_pos)
  ultimately have err: "\<bar>r - q\<bar> \<le> u / 2" by simp
  have u2: "u / 2 = pow2 (E - 53)"
    using pow2_diff [of "E - 52" 1] by (simp add: u_def)
  have "pow2 (E - 53) \<le> q / 2 ^ 53 + pow2 (- 1075)"
  proof (cases "flog2 q \<le> - 1022")
    case True
    then have "E - 53 = - 1075" by (simp add: E_def)
    then have "pow2 (E - 53) = pow2 (- 1075)" by (simp only:)
    moreover have "0 \<le> q / 2 ^ 53" using q by simp
    ultimately show ?thesis by linarith
  next
    case False
    then have "E = flog2 q" by (simp add: E_def)
    then have "pow2 E \<le> q" using flog2_bounds(1) [OF q] by simp
    moreover have "pow2 (E - 53) = pow2 E / 2 ^ 53"
      using pow2_diff [of E 53] by (simp add: pow2_nonneg)
    ultimately show ?thesis
      by (simp add: divide_right_mono add_increasing2)
  qed
  with err u2 have bound: "\<bar>r - q\<bar> \<le> q / 2 ^ 53 + pow2 (- 1075)" by simp
  have "pow2 (E - 53) < pow2 1023"
    using E_hi by (intro pow2_strict_mono) simp
  with err u2 hi have "r < pow2 1023 + pow2 1023" by linarith
  also have "\<dots> = pow2 1024" using pow2_Suc [of 1023] by simp
  finally have top: "r < pow2 1024" .
  have rm: "round_mag q = Some r"
    using q top by (simp add: round_mag_def Let_def r_def u_def E_def)
  have "0 \<le> r" by (rule round_mag_nonneg [OF rm assms(1)])
  with rm bound show ?thesis by blast
qed

lemma tau_small: "pow2 (- 1075) \<le> 1 / 2 ^ 60"
  using pow2_mono [of "- 1075" "- 60"] by (simp add: pow2_def)

lemma trunc_error: "\<bar>of_int (trunc q) - q\<bar> < 1"
proof (cases "q < 0")
  case True
  then have "trunc q = - \<lfloor>- q\<rfloor>" by (simp add: trunc_def)
  then show ?thesis by simp linarith
next
  case False
  then have "trunc q = \<lfloor>q\<rfloor>" by (simp add: trunc_def)
  then show ?thesis by simp linarith
qed

lemma trunc_abs_le: "\<bar>of_int (trunc q)\<bar> \<le> \<bar>q\<bar>"
proof (cases "q < 0")
  case True
  then have "trunc q = - \<lfloor>- q\<rfloor>" by (simp add: trunc_def)
  moreover have "0 \<le> \<lfloor>- q\<rfloor>" using True by simp
  ultimately show ?thesis using True by simp
next
  case False
  then have "trunc q = \<lfloor>q\<rfloor>" by (simp add: trunc_def)
  moreover have "0 \<le> \<lfloor>q\<rfloor>" using False by simp
  ultimately show ?thesis using False by simp
qed


lemma mean_in_range:
  assumes r: "\<forall>s \<in> set xs. in_range s" and n: "xs \<noteq> []"
  shows "0 \<le> mean midpoint xs" "mean midpoint xs \<le> 2 ^ 45"
    "0 \<le> mean device_time xs" "mean device_time xs \<le> 2 ^ 45"
proof -
  have len: "(0 :: rat) < of_nat (length xs)" using n by simp
  have "\<forall>s \<in> set xs. 0 \<le> midpoint s" "\<forall>s \<in> set xs. 0 \<le> device_time s"
    using r in_range_exact(2,4) by (auto simp: small_half_int_def)
  then have "0 \<le> sum_list (map midpoint xs)" "0 \<le> sum_list (map device_time xs)"
    by (auto intro!: sum_list_nonneg)
  then show "0 \<le> mean midpoint xs" "0 \<le> mean device_time xs"
    using len by (simp_all add: mean_def)
  have "sum_list (map midpoint xs) \<le> of_nat (length xs) * 2 ^ 45"
    using r in_range_exact(5) by (intro sum_list_bound) blast
  then show "mean midpoint xs \<le> 2 ^ 45"
    using len by (simp add: mean_def pos_divide_le_eq mult.commute)
  have "sum_list (map device_time xs) \<le> of_nat (length xs) * 2 ^ 45"
    using r in_range_exact(6) by (intro sum_list_bound) blast
  then show "mean device_time xs \<le> 2 ^ 45"
    using len by (simp add: mean_def pos_divide_le_eq mult.commute)
qed

lemma round_mean:
  assumes "0 \<le> q" and "q \<le> 2 ^ 45"
  shows "\<exists>r. round_mag q = Some r \<and> 0 \<le> r \<and> \<bar>r - q\<bar> \<le> 1 / 128"
proof -
  have "(2 :: rat) ^ 45 < pow2 1023" by (simp add: pow2_def)
  with assms(2) have "q < pow2 1023" by linarith
  from round_mag_error_abs [OF assms(1) this]
  obtain r where r: "round_mag q = Some r" "0 \<le> r" "\<bar>r - q\<bar> \<le> q / 2 ^ 53 + pow2 (- 1075)"
    by blast
  have "q / 2 ^ 53 \<le> 2 ^ 45 / 2 ^ 53" using assms(2) by (intro divide_right_mono) simp_all
  then have "q / 2 ^ 53 \<le> 1 / 256" by simp
  moreover have "pow2 (- 1075) \<le> 1 / 256"
    using tau_small by simp
  ultimately have "\<bar>r - q\<bar> \<le> 1 / 128" using r(3) by linarith
  with r(1,2) show ?thesis by blast
qed

lemma bootstrap_intercept:
  assumes r: "\<forall>s \<in> set xs. in_range s" and n: "xs \<noteq> []" "length xs < num_samples"
  shows "\<bar>of_int (sint (b (regression xs))) - (mean device_time xs - mean midpoint xs)\<bar> < 2"
proof -
  let ?MX = "mean midpoint xs" and ?MY = "mean device_time xs"
  have len: "length xs \<le> 100" using n(2) by (simp add: num_samples_def)
  note M = mean_in_range [OF r n(1)]
  from round_mean [OF M(1,2)] obtain x0
    where x0: "round_mag ?MX = Some x0" "0 \<le> x0" "\<bar>x0 - ?MX\<bar> \<le> 1 / 128" by blast
  from round_mean [OF M(3,4)] obtain y0
    where y0: "round_mag ?MY = Some y0" "0 \<le> y0" "\<bar>y0 - ?MY\<bar> \<le> 1 / 128" by blast
  have means: "means xs = (DFinite False x0, DFinite False y0)"
    using means_exact [OF r n(1) len] x0(1) y0(1) by (simp add: rnd_def mean_def)
  have breg: "b (regression xs) = d2i (fsub (DFinite False y0) (DFinite False x0))"
    using n(2) by (simp add: regression_bootstrap means)
  define d where "d = y0 - x0"
  have close: "\<bar>d - (?MY - ?MX)\<bar> \<le> 1 / 64"
    using x0(3) y0(3) unfolding d_def by linarith
  have dabs: "\<bar>d\<bar> \<le> 2 ^ 45 + 1"
    using x0(2,3) y0(2,3) M unfolding d_def by linarith
  show ?thesis
  proof (cases "d = 0")
    case True
    then have "fsub (DFinite False y0) (DFinite False x0) = DFinite False 0"
      by (simp add: fsub_def signed_val_def d_def)
    then have "b (regression xs) = 0" by (simp add: breg)
    then show ?thesis using close True by simp
  next
    case False
    then have sub: "fsub (DFinite False y0) (DFinite False x0) = rnd (d < 0) \<bar>d\<bar>"
      by (simp add: fsub_def signed_val_def d_def Let_def)
    have "(2 :: rat) ^ 45 + 1 < pow2 1023" by (simp add: pow2_def)
    with dabs have "\<bar>d\<bar> < pow2 1023" by linarith
    from round_mag_error_abs [OF _ this]
    obtain z where z: "round_mag \<bar>d\<bar> = Some z" "0 \<le> z" "\<bar>z - \<bar>d\<bar>\<bar> \<le> \<bar>d\<bar> / 2 ^ 53 + pow2 (- 1075)"
      by auto
    have "\<bar>d\<bar> / 2 ^ 53 \<le> (2 ^ 45 + 1) / 2 ^ 53"
      using dabs by (intro divide_right_mono) simp_all
    then have "\<bar>d\<bar> / 2 ^ 53 \<le> 1 / 128" by simp
    moreover have "pow2 (- 1075) \<le> 1 / 128" using tau_small by simp
    ultimately have zerr: "\<bar>z - \<bar>d\<bar>\<bar> \<le> 1 / 64" using z(3) by linarith
    then have zle: "z \<le> 2 ^ 45 + 2" using dabs by linarith
    then have z63: "z < 2 ^ 63" by simp
    define T where "T = trunc (signed_val (d < 0) z)"
    have b: "b (regression xs) = word_of_int T"
      using d2i_in_range [OF z(2) z63, of "d < 0"] z(1)
      by (simp add: breg sub rnd_def T_def)
    have sz: "\<bar>signed_val (d < 0) z\<bar> = z" "\<bar>signed_val (d < 0) z - d\<bar> = \<bar>z - \<bar>d\<bar>\<bar>"
      using z(2) by (auto simp: signed_val_def)
    have Tz: "\<bar>of_int T :: rat\<bar> \<le> z"
      using trunc_abs_le [of "signed_val (d < 0) z"] by (simp add: T_def sz(1))
    have "\<bar>of_int T :: rat\<bar> < of_int (2 ^ 63)" using Tz z63 by simp
    then have "\<bar>T\<bar> < 2 ^ 63"
      by (simp only: of_int_abs [symmetric] of_int_less_iff)
    then have sT: "sint (word_of_int T :: i64) = T"
      by (intro sint_word_of_int_i64) linarith+
    have e1: "\<bar>of_int T - signed_val (d < 0) z\<bar> < 1"
      unfolding T_def by (rule trunc_error)
    have e2: "\<bar>signed_val (d < 0) z - d\<bar> \<le> 1 / 64"
      using zerr by (simp only: sz(2))
    have "\<bar>of_int T - (?MY - ?MX)\<bar> < 2"
      using e1 e2 close by linarith
    then show ?thesis by (simp only: b sT)
  qed
qed


text \<open>
  Claim C3, amended. A call that finds fewer than 99 samples appends its sample and leaves
  the window below 100. The slope is then exactly the double 1. The intercept is the
  difference \<open>y0 - x0\<close> of the double-precision means of the responses and of the
  midpoints, itself computed in double precision and converted to \<open>int64_t\<close> by discarding
  the fraction; it is an integer, not the exact difference of the means. When every stored
  timestamp lies between 0 and \<open>2 ^ 45\<close> ns the intercept is within 2 ns of
  \<open>mean response - mean midpoint\<close>.
\<close>

theorem bootstrap_model:
  assumes "length (samples st) + 1 < num_samples"
  shows "\<exists>st'. add_sample st r now = Some st' \<and>
           samples st' = samples st @ [mk_sample r now] \<and>
           a (offset st') = d_one \<and>
           b (offset st') = d2i (fsub (snd (means (samples st'))) (fst (means (samples st')))) \<and>
           ((\<forall>s \<in> set (samples st @ [mk_sample r now]). in_range s) \<longrightarrow>
            \<bar>of_int (sint (b (offset st'))) -
               (mean device_time (samples st') - mean midpoint (samples st'))\<bar> < 2)"
proof -
  let ?xs = "samples st @ [mk_sample r now]"
  let ?st' = "st\<lparr>samples := ?xs, offset := regression ?xs\<rparr>"
  have small: "length ?xs < num_samples" using assms by simp
  have "add_sample st r now = Some ?st'"
    using assms by (simp add: add_sample_append)
  moreover have "a (offset ?st') = d_one"
    and "b (offset ?st') = d2i (fsub (snd (means (samples ?st'))) (fst (means (samples ?st'))))"
    by (simp_all add: regression_bootstrap [OF small])
  moreover have "(\<forall>s \<in> set ?xs. in_range s) \<longrightarrow>
            \<bar>of_int (sint (b (offset ?st'))) -
               (mean device_time (samples ?st') - mean midpoint (samples ?st'))\<bar> < 2"
    using bootstrap_intercept [of ?xs] small by simp
  ultimately show ?thesis by simp
qed

lemma means_one:
  "means [mk_sample reply0 11001] = (DFinite False (12001 / 2), DFinite False 500000)"
proof -
  let ?xs = "[mk_sample reply0 11001]"
  have r: "\<forall>s \<in> set ?xs. in_range s"
    by (simp add: in_range_def mk_sample_def reply0_def)
  have m: "midpoint (mk_sample reply0 11001) = 12001 / 2"
    and d: "device_time (mk_sample reply0 11001) = 500000"
    by (simp_all add: midpoint_def device_time_def mk_sample_def reply0_def)
  show ?thesis
    using rnd_half_int [of 12001 False] rnd_of_int [of 500000 False]
    by (simp add: means_exact [OF r] m d)
qed

lemma regression_one: "regression [mk_sample reply0 11001] = \<lparr>a = d_one, b = 493999\<rparr>"
proof -
  have "fsub (DFinite False 500000) (DFinite False (12001 / 2)) = DFinite False (987999 / 2)"
    using rnd_half_int [of 987999 False] by (simp add: fsub_def signed_val_def)
  then show ?thesis
    by (simp add: regression_bootstrap num_samples_def means_one)
qed

text \<open>
  Claim C3, as stated, fails: after the single reply with query 1000 and response 500000,
  received at 11001, the midpoint is 6000.5 and \<open>mean response - mean midpoint\<close> is
  493999.5, but the stored intercept is the integer 493999.
\<close>

theorem bootstrap_intercept_is_truncated:
  "map_option offset (add_sample (fresh_estimator 10000000) reply0 11001) =
     Some \<lparr>a = d_one, b = 493999\<rparr> \<and>
   mean device_time [mk_sample reply0 11001] - mean midpoint [mk_sample reply0 11001] = 987999 / 2"
proof -
  have "map_option offset (add_sample (fresh_estimator 10000000) reply0 11001) =
     Some \<lparr>a = d_one, b = 493999\<rparr>"
    by (simp add: add_sample_append fresh_estimator_def num_samples_def regression_one)
  moreover have "mean device_time [mk_sample reply0 11001] - mean midpoint [mk_sample reply0 11001] = 987999 / 2"
    by (simp add: mean_def midpoint_def device_time_def mk_sample_def reply0_def)
  ultimately show ?thesis by simp
qed

theorem bootstrap_model_witness:
  "length (samples (fresh_estimator 10000000)) + 1 < num_samples \<and>
   in_range (mk_sample reply0 11001) \<and>
   (\<exists>st'. add_sample (fresh_estimator 10000000) reply0 11001 = Some st' \<and>
      samples st' = samples (fresh_estimator 10000000) @ [mk_sample reply0 11001] \<and>
      a (offset st') = d_one \<and>
      b (offset st') = d2i (fsub (snd (means (samples st'))) (fst (means (samples st')))) \<and>
      \<bar>of_int (sint (b (offset st'))) -
         (mean device_time (samples st') - mean midpoint (samples st'))\<bar> < 2)"
proof -
  have h1: "length (samples (fresh_estimator 10000000)) + 1 < num_samples"
    by (simp add: fresh_estimator_def num_samples_def)
  have h2: "in_range (mk_sample reply0 11001)"
    by (simp add: in_range_def mk_sample_def reply0_def)
  then have h3: "\<forall>s \<in> set (samples (fresh_estimator 10000000) @ [mk_sample reply0 11001]). in_range s"
    by (simp add: fresh_estimator_def)
  from bootstrap_model [OF h1, of reply0 11001] h3 h2 h1 show ?thesis by blast
qed

section \<open>There and back\<close>

lemma from_headset_rounded:
  assumes m: "0 < m"
    and d': "round_mag (of_int \<bar>d\<bar>) = Some d'"
    and q: "round_mag (d' / m) = Some q" "q < 2 ^ 63"
    and t: "sint (ts - y) = d"
  shows "from_headset \<lparr>a = DFinite s m, b = y\<rparr> ts =
           word_of_int (trunc (signed_val ((d < 0) \<noteq> s) q))"
proof -
  have d0: "0 \<le> d'"
    by (rule round_mag_nonneg [OF d']) simp
  have q0: "0 \<le> q"
    using m d0 by (intro round_mag_nonneg [OF q(1)]) simp
  have "i2d d = DFinite (d < 0) d'"
    using d' by (simp add: i2d_def rnd_def)
  then have "fdiv (i2d d) (DFinite s m) = DFinite ((d < 0) \<noteq> s) q"
    using q(1) m by (simp add: rnd_def)
  then show ?thesis
    using d2i_in_range [OF q0 q(2), of "(d < 0) \<noteq> s"]
    by (simp only: from_headset_def t clock_offset.simps)
qed

lemma abs_error_div:
  fixes p m v e :: rat
  assumes "0 < m" and "\<bar>p - m * v\<bar> \<le> e"
  shows "\<bar>p / m - v\<bar> \<le> e / m"
proof -
  have "p / m - v = (p - m * v) / m" using assms(1) by (simp add: field_simps)
  then have "\<bar>p / m - v\<bar> = \<bar>p - m * v\<bar> / m"
    using assms(1) by (simp only: abs_divide abs_of_pos)
  then show ?thesis using assms by (simp add: divide_right_mono)
qed

lemma div_half_bound:
  fixes x m :: rat
  assumes "1 / 2 \<le> m" and "0 \<le> x"
  shows "x / m \<le> 2 * x"
proof -
  have "0 < m" using assms(1) by linarith
  moreover have "x * 1 \<le> x * (2 * m)"
    using assms by (intro mult_left_mono) simp_all
  then have "x \<le> 2 * x * m" by (simp add: mult.assoc mult.left_commute)
  ultimately show ?thesis by (simp add: pos_divide_le_eq)
qed


lemma abs_leD:
  fixes x y e :: rat
  shows "\<bar>x - y\<bar> \<le> e \<Longrightarrow> x \<le> y + e" and "\<bar>x - y\<bar> \<le> e \<Longrightarrow> y - e \<le> x"
  by linarith+

lemma round_trip_bounds:
  assumes m: "1 / 2 \<le> m" and n: "0 \<le> n" "n < 2 ^ 50" and mn: "m * of_int n < 2 ^ 62"
  shows "\<exists>p d' q. round_mag (m * of_int n) = Some p \<and> 0 \<le> p \<and> p < 2 ^ 63 \<and>
           round_mag (of_int \<lfloor>p\<rfloor>) = Some d' \<and> round_mag (d' / m) = Some q \<and>
           0 \<le> q \<and> of_int n - 3 < q \<and> q < of_int n + 1"
proof -
  define v :: rat where "v = of_int n"
  define tau where "tau = pow2 (- 1075)"
  define K :: rat where "K = 2 ^ 50"
  have mpos: "0 < m" using m by linarith
  have v: "0 \<le> v" "v < K"
    using n of_int_less_pow2 [OF n(2)] by (simp_all add: v_def K_def)
  have "tau \<le> 1 / 2 ^ 60" using tau_small by (simp add: tau_def)
  moreover have "(1 :: rat) / 2 ^ 60 \<le> 1 / 64" by simp
  ultimately have tau: "0 \<le> tau" "tau \<le> 1 / 64"
    by (simp_all add: tau_def)
  have big: "(2 :: rat) ^ 63 < pow2 1023" by (simp add: pow2_def)
  \<comment> \<open>the product\<close>
  have "0 \<le> m * v" using mpos v(1) by simp
  moreover have "m * v < pow2 1023" using mn big by (simp add: v_def)
  ultimately obtain p where p: "round_mag (m * v) = Some p" "0 \<le> p"
      "\<bar>p - m * v\<bar> \<le> m * v / 2 ^ 53 + tau"
    using round_mag_error_abs [of "m * v"] unfolding tau_def by blast
  have "m * v / 2 ^ 53 \<le> 2 ^ 62 / 2 ^ 53"
    using mn by (intro divide_right_mono) (simp_all add: v_def)
  then have "m * v / 2 ^ 53 \<le> 512" by simp
  moreover have "m * v < 2 ^ 62" using mn by (simp add: v_def)
  ultimately have "p < 2 ^ 62 + 512 + 1"
    using abs_leD(1) [OF p(3)] tau(2) by linarith
  then have p63: "p < 2 ^ 63" by simp
  have "\<bar>p / m - v\<bar> \<le> (m * v / 2 ^ 53 + tau) / m"
    by (rule abs_error_div [OF mpos p(3)])
  also have "\<dots> = v / 2 ^ 53 + tau / m"
    using mpos by (simp add: add_divide_distrib)
  also have "\<dots> \<le> 5 / 32"
  proof -
    have "v / 2 ^ 53 \<le> K / 2 ^ 53" using v(2) by (intro divide_right_mono) simp_all
    then have "v / 2 ^ 53 \<le> 1 / 8" by (simp add: K_def)
    moreover have "tau / m \<le> 2 * tau" by (rule div_half_bound [OF m tau(1)])
    ultimately show ?thesis using tau(2) by linarith
  qed
  finally have f1: "\<bar>p / m - v\<bar> \<le> 5 / 32" .
  \<comment> \<open>its integer part\<close>
  define D :: rat where "D = of_int \<lfloor>p\<rfloor>"
  have D: "0 \<le> D" "D \<le> p" "p < D + 1"
    using p(2) unfolding D_def by (simp, linarith, linarith)
  have "(p - D) / m \<le> 2 * (p - D)"
    using D(2) by (intro div_half_bound [OF m]) simp
  then have "p / m - D / m < 2" using D(3) by (simp add: diff_divide_distrib)
  moreover have "D / m \<le> p / m" using D(2) mpos by (simp add: divide_right_mono)
  ultimately have f2: "p / m - 2 < D / m" "D / m \<le> p / m" by simp_all
  \<comment> \<open>converted back to double\<close>
  have "D < pow2 1023" using D(2) p63 big by linarith
  then obtain d' where d': "round_mag D = Some d'" "0 \<le> d'" "\<bar>d' - D\<bar> \<le> D / 2 ^ 53 + tau"
    using round_mag_error_abs [OF D(1)] unfolding tau_def by blast
  have "\<bar>d' - m * (D / m)\<bar> \<le> D / 2 ^ 53 + tau"
    using d'(3) mpos by simp
  then have "\<bar>d' / m - D / m\<bar> \<le> (D / 2 ^ 53 + tau) / m"
    by (rule abs_error_div [OF mpos])
  also have "\<dots> = (D / m) / 2 ^ 53 + tau / m"
    using mpos by (simp add: add_divide_distrib)
  also have "\<dots> \<le> 11 / 64"
  proof -
    have "D / m \<le> K + 1" using f2(2) abs_leD(1) [OF f1] v(2) by linarith
    then have "(D / m) / 2 ^ 53 \<le> (K + 1) / 2 ^ 53" by (intro divide_right_mono) simp_all
    moreover have "(K + 1) / 2 ^ 53 \<le> 1 / 8 + 1 / 64" by (simp add: K_def)
    moreover have "tau / m \<le> 2 * tau" by (rule div_half_bound [OF m tau(1)])
    ultimately show ?thesis using tau(2) by linarith
  qed
  finally have f3: "\<bar>d' / m - D / m\<bar> \<le> 11 / 64" .
  \<comment> \<open>the quotient\<close>
  have dm: "0 \<le> d' / m" "d' / m \<le> K + 2"
    using d'(2) mpos apply simp
    using abs_leD(1) [OF f3] f2(2) abs_leD(1) [OF f1] v(2) by linarith
  have "K + 2 < 2 ^ 63" by (simp add: K_def)
  then have "d' / m < pow2 1023" using big dm(2) by linarith
  then obtain q where q: "round_mag (d' / m) = Some q" "0 \<le> q"
      "\<bar>q - d' / m\<bar> \<le> (d' / m) / 2 ^ 53 + tau"
    using round_mag_error_abs [OF dm(1)] unfolding tau_def by blast
  have "(d' / m) / 2 ^ 53 \<le> (K + 2) / 2 ^ 53"
    using dm(2) by (intro divide_right_mono) simp_all
  moreover have "(K + 2) / 2 ^ 53 \<le> 1 / 8 + 1 / 64" by (simp add: K_def)
  ultimately have f4: "\<bar>q - d' / m\<bar> \<le> 10 / 64"
    using q(3) tau(2) by linarith
  have "v - 3 < q"
    using abs_leD(2) [OF f1] f2(1) abs_leD(2) [OF f3] abs_leD(2) [OF f4] by linarith
  moreover have "q < v + 1"
    using abs_leD(1) [OF f1] f2(2) abs_leD(1) [OF f3] abs_leD(1) [OF f4] by linarith
  ultimately show ?thesis
    using p(1,2) p63 d'(1) q(1,2) unfolding v_def D_def by blast
qed


lemma round_mag_0 [simp]: "round_mag 0 = Some 0"
  by (simp add: round_mag_def)

text \<open>
  Claim C6, amended. Let the slope be a finite double of magnitude at least one half, of
  either sign, let the timestamp \<open>t\<close> be below \<open>2 ^ 50\<close> ns (about 13 days) and let
  the product \<open>a * t\<close> stay below \<open>2 ^ 62\<close> in magnitude. Then translating \<open>t\<close> to
  the device clock and back returns a value between \<open>t - 3\<close> and \<open>t\<close>, whatever the
  intercept \<open>b\<close> is.
\<close>

theorem round_trip_within_3:
  assumes "1 / 2 \<le> m" and "uint t < 2 ^ 50" and "m * of_int (uint t) < 2 ^ 62"
  shows "uint t - 3 \<le> sint (from_headset \<lparr>a = DFinite s m, b = y\<rparr>
                              (to_headset \<lparr>a = DFinite s m, b = y\<rparr> t)) \<and>
         sint (from_headset \<lparr>a = DFinite s m, b = y\<rparr>
                 (to_headset \<lparr>a = DFinite s m, b = y\<rparr> t)) \<le> uint t"
proof -
  let ?c = "\<lparr>a = DFinite s m, b = y\<rparr>"
  define n where "n = uint t"
  have n: "0 \<le> n" "n < 2 ^ 50" "n < 2 ^ 53" "uint t = n"
    using assms(2) by (simp_all add: n_def)
  have mpos: "0 < m" using assms(1) by linarith
  from round_trip_bounds [OF assms(1) n(1,2)] assms(3)
  obtain p d' q where p: "round_mag (m * of_int n) = Some p" "0 \<le> p" "p < 2 ^ 63"
    and d': "round_mag (of_int \<lfloor>p\<rfloor>) = Some d'"
    and q: "round_mag (d' / m) = Some q" "0 \<le> q" "of_int n - 3 < q" "q < of_int n + 1"
    unfolding n_def by blast
  define Ds where "Ds = trunc (signed_val s p)"
  have Ds: "Ds = (if s then - \<lfloor>p\<rfloor> else \<lfloor>p\<rfloor>)"
    using p(2) by (auto simp: Ds_def trunc_def signed_val_def)
  have fl: "0 \<le> \<lfloor>p\<rfloor>" "\<lfloor>p\<rfloor> < 2 ^ 63"
    using p(2,3) by (simp_all add: floor_less_iff)
  have fwd: "to_headset ?c t = word_of_int Ds + y"
    unfolding Ds_def by (rule to_headset_finite [OF mpos n(1,3) p(1,3) n(4)])
  have "- (2 ^ 63) \<le> Ds" "Ds < 2 ^ 63"
    using fl unfolding Ds by (cases s; simp; linarith)+
  then have "sint (word_of_int Ds :: i64) = Ds"
    by (rule sint_word_of_int_i64)
  then have ret: "sint (to_headset ?c t - y) = Ds" by (simp add: fwd)
  have absD: "\<bar>Ds\<bar> = \<lfloor>p\<rfloor>" using fl(1) by (simp add: Ds)
  have q63: "q < 2 ^ 63"
  proof -
    have "(of_int n :: rat) < 2 ^ 50" by (rule of_int_less_pow2 [OF n(2)])
    with q(4) have "q < 2 ^ 50 + 1" by linarith
    then show ?thesis by simp
  qed
  have bwd: "from_headset ?c (to_headset ?c t) =
      word_of_int (trunc (signed_val ((Ds < 0) \<noteq> s) q))"
    by (rule from_headset_rounded [OF mpos _ q(1) q63 ret]) (simp only: absD d')
  have tr: "trunc (signed_val ((Ds < 0) \<noteq> s) q) = \<lfloor>q\<rfloor>"
  proof (cases "(Ds < 0) \<noteq> s")
    case False
    then show ?thesis using q(2) by (simp add: signed_val_def trunc_def)
  next
    case True
    have "\<lfloor>p\<rfloor> = 0"
    proof (cases s)
      case s: True
      then have "Ds = - \<lfloor>p\<rfloor>" by (simp add: Ds)
      moreover from True s have "\<not> Ds < 0" by simp
      ultimately show ?thesis using fl(1) by linarith
    next
      case s: False
      then have "Ds = \<lfloor>p\<rfloor>" by (simp add: Ds)
      with fl(1) have "\<not> Ds < 0" by linarith
      with True s show ?thesis by simp
    qed
    then have "d' = 0" using d' by simp
    then have "q = 0" using q(1) by simp
    then show ?thesis by (simp add: signed_val_def trunc_def)
  qed
  have fq: "0 \<le> \<lfloor>q\<rfloor>" "\<lfloor>q\<rfloor> < 2 ^ 63"
    using q(2) q63 by (simp_all add: floor_less_iff)
  have "sint (word_of_int \<lfloor>q\<rfloor> :: i64) = \<lfloor>q\<rfloor>"
    using fq by (intro sint_word_of_int_i64) simp_all
  then have res: "sint (from_headset ?c (to_headset ?c t)) = \<lfloor>q\<rfloor>"
    by (simp only: bwd tr)
  have "of_int (n - 3) \<le> q" using q(3) by simp
  then have lo: "n - 3 \<le> \<lfloor>q\<rfloor>" by (simp only: le_floor_iff)
  have "q < of_int (n + 1)" using q(4) by simp
  then have "\<lfloor>q\<rfloor> < n + 1" by (simp only: floor_less_iff)
  with lo show ?thesis unfolding res n_def by simp
qed

lemma round_mag_small_slope: "round_mag (1 / 2 ^ 20 * of_int 1000000) = Some (1000000 / 2 ^ 20)"
  using round_mag_exact [of 1000000 "- 20"] by (simp add: pow2_def)

text \<open>
  Claim C6, as stated, fails for slopes of small magnitude: with \<open>a = 2 ^ - 20\<close> and
  \<open>b = 0\<close> the server time 1000000 ns is translated to the device time 0, which is
  translated back to 0: the round trip is off by a millisecond. The integer device time
  keeps less than one part in \<open>1 / a\<close> of the server time.
\<close>

theorem round_trip_loses_small_slope:
  "to_headset \<lparr>a = DFinite False (1 / 2 ^ 20), b = 0\<rparr> 1000000 = 0 \<and>
   from_headset \<lparr>a = DFinite False (1 / 2 ^ 20), b = 0\<rparr> 0 = 0 \<and>
   from_headset \<lparr>a = DFinite False (1 / 2 ^ 20), b = 0\<rparr>
     (to_headset \<lparr>a = DFinite False (1 / 2 ^ 20), b = 0\<rparr> 1000000) = 0"
proof -
  have 1: "to_headset \<lparr>a = DFinite False (1 / 2 ^ 20), b = 0\<rparr> 1000000 = 0"
    using to_headset_finite [of "1 / 2 ^ 20" 1000000 "1000000 / 2 ^ 20" 1000000 False 0]
      round_mag_small_slope
    by (simp add: trunc_def signed_val_def)
  have 2: "from_headset \<lparr>a = DFinite False (1 / 2 ^ 20), b = 0\<rparr> 0 = 0"
    using from_headset_finite [of "1 / 2 ^ 20" 0 0 0 0 False]
    by (simp add: trunc_def signed_val_def)
  from 1 2 show ?thesis by simp
qed

theorem round_trip_within_3_witness:
  "(1 / 2 :: rat) \<le> 1 \<and> uint (123456789 :: i64) < 2 ^ 50 \<and>
   (1 :: rat) * of_int (uint (123456789 :: i64)) < 2 ^ 62 \<and>
   uint (123456789 :: i64) - 3 \<le>
     sint (from_headset \<lparr>a = DFinite False 1, b = 500000\<rparr>
             (to_headset \<lparr>a = DFinite False 1, b = 500000\<rparr> 123456789)) \<and>
   sint (from_headset \<lparr>a = DFinite False 1, b = 500000\<rparr>
           (to_headset \<lparr>a = DFinite False 1, b = 500000\<rparr> 123456789)) \<le> uint (123456789 :: i64)"
proof -
  have h1: "(1 / 2 :: rat) \<le> 1" by simp
  have h2: "uint (123456789 :: i64) < 2 ^ 50" by simp
  have h3: "(1 :: rat) * of_int (uint (123456789 :: i64)) < 2 ^ 62" by simp
  from round_trip_within_3 [OF h1 h2 h3, of False 500000] h1 h2 h3
  show ?thesis by blast
qed

section \<open>Means and covariances of rational data\<close>

lemma mean_cong: "(\<And>s. s \<in> set xs \<Longrightarrow> f s = g s) \<Longrightarrow> mean f xs = mean g xs"
  unfolding mean_def by (simp cong: map_cong)

lemma mean_add: "mean (\<lambda>s. f s + g s) xs = mean f xs + mean g xs"
  by (simp add: mean_def sum_list_addf add_divide_distrib)

lemma mean_diff: "mean (\<lambda>s. f s - g s) xs = mean f xs - mean g xs"
  by (simp add: mean_def sum_list_subtractf diff_divide_distrib)

lemma mean_cmult: "mean (\<lambda>s. c * f s) xs = c * mean f xs"
  by (simp add: mean_def sum_list_const_mult)

lemma mean_const: "xs \<noteq> [] \<Longrightarrow> mean (\<lambda>s. c) xs = c"
  by (simp add: mean_def sum_list_triv)

lemma mean_nonneg:
  assumes "\<And>s. s \<in> set xs \<Longrightarrow> 0 \<le> f s"
  shows "0 \<le> mean f xs"
proof -
  have "0 \<le> sum_list (map f xs)" using assms by (intro sum_list_nonneg) auto
  then show ?thesis by (simp add: mean_def)
qed

lemma mean_mono:
  assumes "\<And>s. s \<in> set xs \<Longrightarrow> f s \<le> g s"
  shows "mean f xs \<le> mean g xs"
proof -
  have "sum_list (map f xs) \<le> sum_list (map g xs)"
    using assms by (intro sum_list_mono) simp
  then show ?thesis by (simp add: mean_def divide_right_mono)
qed

lemma mean_abs: "\<bar>mean f xs\<bar> \<le> mean (\<lambda>s. \<bar>f s\<bar>) xs"
proof -
  have "\<bar>sum_list (map f xs)\<bar> \<le> sum_list (map (\<lambda>s. \<bar>f s\<bar>) xs)"
    using sum_list_abs [of "map f xs"] by (simp add: comp_def)
  then show ?thesis by (simp add: mean_def divide_right_mono)
qed

lemma mean_abs_bound:
  assumes "\<And>s. s \<in> set xs \<Longrightarrow> \<bar>f s\<bar> \<le> F" and "xs \<noteq> []"
  shows "\<bar>mean f xs\<bar> \<le> F"
proof -
  have "mean (\<lambda>s. \<bar>f s\<bar>) xs \<le> mean (\<lambda>s. F) xs" using assms(1) by (rule mean_mono)
  with mean_abs [of f xs] show ?thesis using assms(2) by (simp add: mean_const)
qed

text \<open>
  The covariance with a quantity that follows a line up to a residue \<open>r\<close>: the constant
  drops out and the slope multiplies the variance.
\<close>

lemma covar_decomp:
  assumes n: "xs \<noteq> []" and g: "\<And>s. s \<in> set xs \<Longrightarrow> g s = \<alpha> * f s + c + r s"
  shows "covar f g xs = \<alpha> * covar f f xs + covar f r xs"
proof -
  have 1: "mean g xs = \<alpha> * mean f xs + c + mean r xs"
  proof -
    have "mean g xs = mean (\<lambda>s. \<alpha> * f s + c + r s) xs" using g by (rule mean_cong)
    then show ?thesis using n by (simp add: mean_add mean_cmult mean_const)
  qed
  have 2: "mean (\<lambda>s. f s * g s) xs =
           \<alpha> * mean (\<lambda>s. f s * f s) xs + c * mean f xs + mean (\<lambda>s. f s * r s) xs"
  proof -
    have "mean (\<lambda>s. f s * g s) xs = mean (\<lambda>s. \<alpha> * (f s * f s) + c * f s + f s * r s) xs"
      using g by (intro mean_cong) (simp add: algebra_simps)
    then show ?thesis by (simp add: mean_add mean_cmult)
  qed
  show ?thesis unfolding covar_def 1 2 by (simp add: algebra_simps)
qed

lemma covar_sum_self:
  "covar (\<lambda>s. f s + d s) (\<lambda>s. f s + d s) xs = covar f f xs + 2 * covar f d xs + covar d d xs"
proof -
  have "mean (\<lambda>s. (f s + d s) * (f s + d s)) xs =
        mean (\<lambda>s. f s * f s + 2 * (f s * d s) + d s * d s) xs"
    by (intro mean_cong) (simp add: algebra_simps)
  then have "mean (\<lambda>s. (f s + d s) * (f s + d s)) xs =
        mean (\<lambda>s. f s * f s) xs + 2 * mean (\<lambda>s. f s * d s) xs + mean (\<lambda>s. d s * d s) xs"
    by (simp add: mean_add mean_cmult)
  then show ?thesis
    unfolding covar_def mean_add by (simp add: algebra_simps)
qed

lemma covar_shift:
  assumes "xs \<noteq> []"
  shows "covar (\<lambda>s. f s - c) (\<lambda>s. f s - c) xs = covar f f xs"
proof -
  have "mean (\<lambda>s. (f s - c) * (f s - c)) xs = mean (\<lambda>s. f s * f s + (- 2 * c) * f s + c * c) xs"
    by (intro mean_cong) (simp add: algebra_simps)
  then have 1: "mean (\<lambda>s. (f s - c) * (f s - c)) xs =
                mean (\<lambda>s. f s * f s) xs + (- 2 * c) * mean f xs + c * c"
    using assms by (simp add: mean_add mean_diff mean_cmult mean_const)
  have 2: "mean (\<lambda>s. f s - c) xs = mean f xs - c"
    using assms by (simp add: mean_diff mean_const)
  show ?thesis
    unfolding covar_def 1 2 by (simp add: algebra_simps)
qed

lemma covar_centred:
  assumes "xs \<noteq> []"
  shows "covar f f xs = mean (\<lambda>s. (f s - mean f xs) * (f s - mean f xs)) xs"
proof -
  define m where "m = mean f xs"
  have "mean (\<lambda>s. (f s - m) * (f s - m)) xs = mean (\<lambda>s. f s * f s + (- 2 * m) * f s + m * m) xs"
    by (intro mean_cong) (simp add: algebra_simps)
  then have "mean (\<lambda>s. (f s - m) * (f s - m)) xs =
             mean (\<lambda>s. f s * f s) xs + (- 2 * m) * mean f xs + m * m"
    using assms by (simp add: mean_add mean_diff mean_cmult mean_const)
  then have "mean (\<lambda>s. (f s - m) * (f s - m)) xs = mean (\<lambda>s. f s * f s) xs - m * m"
    by (simp add: m_def algebra_simps)
  then show ?thesis by (simp add: covar_def m_def)
qed

lemma covar_self_nonneg: "xs \<noteq> [] \<Longrightarrow> 0 \<le> covar f f xs"
  by (simp add: covar_centred mean_nonneg)

lemma covar_bound:
  assumes n: "xs \<noteq> []" and f: "\<And>s. s \<in> set xs \<Longrightarrow> \<bar>f s\<bar> \<le> F"
    and g: "\<And>s. s \<in> set xs \<Longrightarrow> \<bar>g s\<bar> \<le> R"
  shows "\<bar>covar f g xs\<bar> \<le> 2 * (F * R)"
proof -
  obtain s0 where "s0 \<in> set xs" using n by (cases xs) auto
  then have F: "0 \<le> F" and R: "0 \<le> R" using f [of s0] g [of s0] by linarith+
  have "\<And>s. s \<in> set xs \<Longrightarrow> \<bar>f s * g s\<bar> \<le> F * R"
    unfolding abs_mult using f g F R by (intro mult_mono) simp_all
  then have 1: "\<bar>mean (\<lambda>s. f s * g s) xs\<bar> \<le> F * R" using n by (rule mean_abs_bound)
  have "\<bar>mean f xs\<bar> \<le> F" "\<bar>mean g xs\<bar> \<le> R" using f g n by (auto intro: mean_abs_bound)
  then have 2: "\<bar>mean f xs * mean g xs\<bar> \<le> F * R"
    unfolding abs_mult using F by (intro mult_mono) simp_all
  show ?thesis unfolding covar_def using 1 2 by linarith
qed

text \<open>
  Two values at least one half apart force a spread: the largest distance \<open>G\<close> to the
  mean is at least one quarter, and its square is at most \<open>n\<close> times the variance.
\<close>

lemma list_max_elem:
  fixes h :: "'a \<Rightarrow> rat"
  shows "xs \<noteq> [] \<Longrightarrow> \<exists>m \<in> set xs. \<forall>s \<in> set xs. h s \<le> h m"
proof (induction xs)
  case Nil
  then show ?case by simp
next
  case (Cons x xs)
  show ?case
  proof (cases "xs = []")
    case True
    then show ?thesis by simp
  next
    case False
    with Cons obtain m where m: "m \<in> set xs" "\<forall>s \<in> set xs. h s \<le> h m" by blast
    show ?thesis
    proof (cases "h x \<le> h m")
      case True
      with m show ?thesis by auto
    next
      case False
      with m have "\<forall>s \<in> set (x # xs). h s \<le> h x" by (auto intro: order_trans)
      then show ?thesis by auto
    qed
  qed
qed

lemma spread_radius:
  assumes s1: "s1 \<in> set xs" and s2: "s2 \<in> set xs" and d: "1 / 2 \<le> \<bar>f s1 - f s2\<bar>"
  shows "\<exists>t \<in> set xs. 1 / 4 \<le> \<bar>f t - mean f xs\<bar> \<and>
             (\<forall>s \<in> set xs. \<bar>f s - mean f xs\<bar> \<le> \<bar>f t - mean f xs\<bar>) \<and>
             \<bar>f t - mean f xs\<bar> * \<bar>f t - mean f xs\<bar> \<le> of_nat (length xs) * covar f f xs"
proof -
  have n: "xs \<noteq> []" using s1 by auto
  define m where "m = mean f xs"
  from list_max_elem [OF n, of "\<lambda>s. \<bar>f s - m\<bar>"]
  obtain t where t: "t \<in> set xs" "\<forall>s \<in> set xs. \<bar>f s - m\<bar> \<le> \<bar>f t - m\<bar>" by blast
  define G where "G = \<bar>f t - m\<bar>"
  have "\<bar>f s1 - m\<bar> \<le> G" "\<bar>f s2 - m\<bar> \<le> G" using t(2) s1 s2 by (simp_all add: G_def)
  with d have 1: "1 / 4 \<le> G" by linarith
  have "(f t - m) * (f t - m) \<le> sum_list (map (\<lambda>s. (f s - m) * (f s - m)) xs)"
    using t(1) by (intro member_le_sum_list) auto
  moreover have "G * G = (f t - m) * (f t - m)" by (simp add: G_def)
  moreover have "of_nat (length xs) * covar f f xs = sum_list (map (\<lambda>s. (f s - m) * (f s - m)) xs)"
    using n by (simp add: covar_centred mean_def m_def)
  ultimately have "G * G \<le> of_nat (length xs) * covar f f xs" by simp
  with 1 t show ?thesis unfolding G_def m_def by blast
qed

lemma covar_cong:
  assumes "\<And>s. s \<in> set xs \<Longrightarrow> f s = f' s" and "\<And>s. s \<in> set xs \<Longrightarrow> g s = g' s"
  shows "covar f g xs = covar f' g' xs"
proof -
  have "mean (\<lambda>s. f s * g s) xs = mean (\<lambda>s. f' s * g' s) xs"
    using assms by (intro mean_cong) simp
  moreover have "mean f xs = mean f' xs" "mean g xs = mean g' xs"
    using assms by (auto intro: mean_cong)
  ultimately show ?thesis by (simp add: covar_def)
qed

section \<open>Rounding errors of the operations\<close>

lemma abs_signed_val: "0 \<le> m \<Longrightarrow> \<bar>signed_val s m\<bar> = m"
  by (simp add: signed_val_def)

text \<open>
  Each operation on finite doubles returns the exact result moved by at most
  \<open>\<bar>v\<bar> * u53 + tau\<close>, as long as the exact result \<open>v\<close> is below \<open>2 ^ 1023\<close> in
  magnitude.
\<close>

lemma rnd_val:
  assumes "\<bar>r\<bar> < pow2 1023"
  shows "finite_d (rnd (r < 0) \<bar>r\<bar>) \<and> \<bar>dval (rnd (r < 0) \<bar>r\<bar>) - r\<bar> \<le> \<bar>r\<bar> * u53 + tau"
proof -
  from round_mag_error_abs [OF _ assms]
  obtain z where z: "round_mag \<bar>r\<bar> = Some z" "0 \<le> z" "\<bar>z - \<bar>r\<bar>\<bar> \<le> \<bar>r\<bar> / 2 ^ 53 + pow2 (- 1075)"
    by auto
  have "\<bar>signed_val (r < 0) z - r\<bar> = \<bar>z - \<bar>r\<bar>\<bar>"
    by (auto simp: signed_val_def)
  with z show ?thesis by (simp add: rnd_def u53_def tau_def)
qed

lemma rnd_sign_val:
  assumes "0 \<le> q" and "q < pow2 1023"
  shows "finite_d (rnd s q) \<and> \<bar>dval (rnd s q) - signed_val s q\<bar> \<le> q * u53 + tau"
proof -
  from round_mag_error_abs [OF assms]
  obtain z where z: "round_mag q = Some z" "0 \<le> z" "\<bar>z - q\<bar> \<le> q / 2 ^ 53 + pow2 (- 1075)"
    by auto
  have "\<bar>signed_val s z - signed_val s q\<bar> = \<bar>z - q\<bar>"
    by (auto simp: signed_val_def)
  with z show ?thesis by (simp add: rnd_def u53_def tau_def)
qed

lemma tau_nonneg [simp]: "0 \<le> tau"
  by (simp add: tau_def)

lemma u53_pos [simp]: "0 < u53"
  by (simp add: u53_def)

lemma fadd_val:
  assumes "finite_d x" and "finite_d y" and "\<bar>dval x + dval y\<bar> < pow2 1023"
  shows "finite_d (fadd x y) \<and>
         \<bar>dval (fadd x y) - (dval x + dval y)\<bar> \<le> \<bar>dval x + dval y\<bar> * u53 + tau"
proof -
  obtain s m where x: "x = DFinite s m" "0 \<le> m" using assms(1) by (cases x) auto
  obtain t k where y: "y = DFinite t k" "0 \<le> k" using assms(2) by (cases y) auto
  define r where "r = signed_val s m + signed_val t k"
  have r: "\<bar>r\<bar> < pow2 1023" using assms(3) by (simp add: x y r_def)
  show ?thesis
  proof (cases "r = 0")
    case True
    then show ?thesis by (simp add: x y r_def signed_val_def)
  next
    case False
    then have "fadd x y = rnd (r < 0) \<bar>r\<bar>" by (simp add: x y r_def Let_def)
    with rnd_val [OF r] show ?thesis by (simp add: x y r_def)
  qed
qed

lemma fneg_val: "finite_d x \<Longrightarrow> finite_d (fneg x) \<and> dval (fneg x) = - dval x"
  by (cases x) (auto simp: signed_val_def)

lemma fsub_val:
  assumes "finite_d x" and "finite_d y" and "\<bar>dval x - dval y\<bar> < pow2 1023"
  shows "finite_d (fsub x y) \<and>
         \<bar>dval (fsub x y) - (dval x - dval y)\<bar> \<le> \<bar>dval x - dval y\<bar> * u53 + tau"
  using fadd_val [of x "fneg y"] fneg_val [of y] assms by (simp add: fsub_def)

lemma fmul_val:
  assumes "finite_d x" and "finite_d y" and "\<bar>dval x * dval y\<bar> < pow2 1023"
  shows "finite_d (fmul x y) \<and>
         \<bar>dval (fmul x y) - dval x * dval y\<bar> \<le> \<bar>dval x * dval y\<bar> * u53 + tau"
proof -
  obtain s m where x: "x = DFinite s m" "0 \<le> m" using assms(1) by (cases x) auto
  obtain t k where y: "y = DFinite t k" "0 \<le> k" using assms(2) by (cases y) auto
  have v: "dval x * dval y = signed_val (s \<noteq> t) (m * k)"
    by (auto simp: x y signed_val_def)
  have mk: "0 \<le> m * k" using x(2) y(2) by simp
  have "\<bar>dval x * dval y\<bar> = m * k" by (simp add: v abs_signed_val mk)
  with assms(3) have "m * k < pow2 1023" by simp
  from rnd_sign_val [OF mk this, of "s \<noteq> t"]
  have "finite_d (rnd (s \<noteq> t) (m * k)) \<and>
        \<bar>dval (rnd (s \<noteq> t) (m * k)) - dval x * dval y\<bar> \<le> \<bar>dval x * dval y\<bar> * u53 + tau"
    unfolding v by (simp add: abs_signed_val mk)
  moreover have "fmul x y = rnd (s \<noteq> t) (m * k)" by (simp add: x y)
  ultimately show ?thesis by simp
qed

lemma fdiv_val:
  assumes "finite_d x" and "finite_d y" and "dval y \<noteq> 0" and "\<bar>dval x / dval y\<bar> < pow2 1023"
  shows "finite_d (fdiv x y) \<and>
         \<bar>dval (fdiv x y) - dval x / dval y\<bar> \<le> \<bar>dval x / dval y\<bar> * u53 + tau"
proof -
  obtain s m where x: "x = DFinite s m" "0 \<le> m" using assms(1) by (cases x) auto
  obtain t k where y: "y = DFinite t k" "0 \<le> k" using assms(2) by (cases y) auto
  have k: "k \<noteq> 0" using assms(3) by (auto simp: y signed_val_def split: if_splits)
  have v: "dval x / dval y = signed_val (s \<noteq> t) (m / k)"
    by (auto simp: x y signed_val_def)
  have mk: "0 \<le> m / k" using x(2) y(2) by simp
  have "\<bar>dval x / dval y\<bar> = m / k" by (simp add: v abs_signed_val mk)
  with assms(4) have "m / k < pow2 1023" by simp
  from rnd_sign_val [OF mk this, of "s \<noteq> t"]
  have "finite_d (rnd (s \<noteq> t) (m / k)) \<and>
        \<bar>dval (rnd (s \<noteq> t) (m / k)) - dval x / dval y\<bar> \<le> \<bar>dval x / dval y\<bar> * u53 + tau"
    unfolding v by (simp add: abs_signed_val mk)
  moreover have "fdiv x y = rnd (s \<noteq> t) (m / k)" by (simp add: x y k)
  ultimately show ?thesis by simp
qed

lemma u53_nonneg [simp]: "0 \<le> u53"
  by (simp add: u53_def)

lemma fsum_Nil [simp]: "fsum t [] acc = acc"
  by (simp add: fsum_def)

lemma fsum_Cons [simp]: "fsum t (s # xs) acc = fsum t xs (fadd acc (t s))"
  by (simp add: fsum_def)

text \<open>
  A sum accumulated left to right: when \<open>W\<close> bounds the sum of the magnitudes of the terms,
  each of the \<open>n\<close> additions adds at most \<open>2 * W * u53 + tau\<close> to the error.
\<close>

lemma fsum_val_aux:
  fixes W :: rat
  assumes c: "c = 2 * W * u53 + tau" and ov: "2 * W < pow2 1023"
  shows "\<forall>s \<in> set xs. finite_d (t s) \<Longrightarrow> finite_d acc \<Longrightarrow>
         \<bar>dval acc - A\<bar> \<le> of_nat j * c \<Longrightarrow>
         \<bar>A\<bar> + sum_list (map (\<lambda>s. \<bar>dval (t s)\<bar>) xs) \<le> W \<Longrightarrow>
         of_nat (j + length xs) * c \<le> W \<Longrightarrow>
         finite_d (fsum t xs acc) \<and>
         \<bar>dval (fsum t xs acc) - (A + sum_list (map (\<lambda>s. dval (t s)) xs))\<bar>
           \<le> of_nat (j + length xs) * c"
proof (induction xs arbitrary: acc A j)
  case Nil
  then show ?case by simp
next
  case (Cons s xs)
  have rest: "0 \<le> sum_list (map (\<lambda>s. \<bar>dval (t s)\<bar>) xs)"
    by (intro sum_list_nonneg) auto
  have W: "0 \<le> W" using Cons.prems(4) rest by simp
  have "0 \<le> 2 * W * u53" using W by (simp add: u53_def)
  then have c0: "0 \<le> c" using tau_nonneg unfolding c by linarith
  have jc: "of_nat j * c \<le> W"
  proof -
    have "of_nat j * c \<le> of_nat (j + length (s # xs)) * c"
      using c0 by (intro mult_right_mono) simp_all
    with Cons.prems(5) show ?thesis by linarith
  qed
  define w where "w = dval acc + dval (t s)"
  have At: "\<bar>A\<bar> + \<bar>dval (t s)\<bar> \<le> W" using Cons.prems(4) rest by simp
  have w: "\<bar>w\<bar> \<le> 2 * W" using Cons.prems(3) jc At unfolding w_def by linarith
  then have "\<bar>dval acc + dval (t s)\<bar> < pow2 1023" using ov unfolding w_def by linarith
  from fadd_val [OF Cons.prems(2) _ this] Cons.prems(1)
  have f: "finite_d (fadd acc (t s))"
    and e: "\<bar>dval (fadd acc (t s)) - w\<bar> \<le> \<bar>w\<bar> * u53 + tau"
    by (simp_all add: w_def)
  have "\<bar>w\<bar> * u53 \<le> 2 * W * u53" using w by (intro mult_right_mono) simp_all
  with e have e': "\<bar>dval (fadd acc (t s)) - w\<bar> \<le> c" unfolding c by linarith
  have 3: "\<bar>dval (fadd acc (t s)) - (A + dval (t s))\<bar> \<le> of_nat (Suc j) * c"
    using e' Cons.prems(3) unfolding w_def by (simp add: algebra_simps; linarith)
  have 4: "\<bar>A + dval (t s)\<bar> + sum_list (map (\<lambda>s. \<bar>dval (t s)\<bar>) xs) \<le> W"
    using Cons.prems(4) by (simp; linarith)
  have 5: "of_nat (Suc j + length xs) * c \<le> W" using Cons.prems(5) by simp
  from Cons.IH [OF _ f 3 4 5] Cons.prems(1)
  show ?case by (simp add: algebra_simps)
qed

lemma fsum_val:
  fixes W :: rat
  assumes fin: "\<forall>s \<in> set xs. finite_d (t s)"
    and W: "sum_list (map (\<lambda>s. \<bar>dval (t s)\<bar>) xs) \<le> W"
    and small: "of_nat (length xs) * (2 * W * u53 + tau) \<le> W"
    and ov: "2 * W < pow2 1023"
  shows "finite_d (fsum t xs d_zero) \<and>
         \<bar>dval (fsum t xs d_zero) - sum_list (map (\<lambda>s. dval (t s)) xs)\<bar>
           \<le> of_nat (length xs) * (2 * W * u53 + tau)"
  using fsum_val_aux [OF refl ov fin, of d_zero 0 0] W small
  by (simp add: d_zero_def signed_val_def)


lemma tau_tiny: "tau \<le> 1 / 2 ^ 200"
  using pow2_mono [of "- 1075" "- 200"] by (simp add: tau_def pow2_def)

lemma fmul_commute: "fmul x y = fmul y x"
proof -
  have "\<And>s t. (s = (\<not> t)) = (t = (\<not> s))" by auto
  then have "\<And>(s :: bool) t q. rnd (s = (\<not> t)) q = rnd (t = (\<not> s)) q"
    by (intro arg_cong2 [where f = rnd]) simp_all
  then show ?thesis by (cases x; cases y) (auto simp: mult.commute)
qed

lemma sum_list_mean: "length xs = 100 \<Longrightarrow> sum_list (map f xs) = 100 * mean f xs"
  by (simp add: mean_def)

lemma fsum_mean:
  assumes len: "length xs = 100"
    and t: "\<forall>s \<in> set xs. finite_d (t s) \<and> \<bar>dval (t s) - p s\<bar> \<le> \<bar>p s\<bar> * u53 + tau"
    and B: "mean (\<lambda>s. \<bar>p s\<bar>) xs \<le> B" and lo: "1 / 2 ^ 20 \<le> B" and hi: "B \<le> 2 ^ 200"
  shows "finite_d (fsum t xs d_zero)"
    and "\<bar>dval (fsum t xs d_zero) - 100 * mean p xs\<bar> \<le> 100 * (203 * B * u53)"
proof -
  have ne: "xs \<noteq> []" using len by auto
  have fin: "\<forall>s \<in> set xs. finite_d (t s)" using t by blast
  have "mean (\<lambda>s. \<bar>dval (t s)\<bar>) xs \<le> mean (\<lambda>s. (1 + u53) * \<bar>p s\<bar> + tau) xs"
  proof (rule mean_mono)
    fix s assume "s \<in> set xs"
    with t have "\<bar>dval (t s) - p s\<bar> \<le> \<bar>p s\<bar> * u53 + tau" by blast
    then show "\<bar>dval (t s)\<bar> \<le> (1 + u53) * \<bar>p s\<bar> + tau"
      by (simp add: algebra_simps; linarith)
  qed
  also have "\<dots> = (1 + u53) * mean (\<lambda>s. \<bar>p s\<bar>) xs + tau"
    using ne by (simp add: mean_add mean_cmult mean_const)
  also have "\<dots> \<le> (1 + u53) * B + tau"
    using B by (intro add_right_mono mult_left_mono) simp_all
  finally have m1: "mean (\<lambda>s. \<bar>dval (t s)\<bar>) xs \<le> (1 + u53) * B + tau" .
  define W where "W = (201 / 2) * B"
  have W1: "sum_list (map (\<lambda>s. \<bar>dval (t s)\<bar>) xs) \<le> W"
    using m1 lo tau_tiny unfolding sum_list_mean [OF len] W_def u53_def by (simp; linarith)
  have W2: "of_nat (length xs) * (2 * W * u53 + tau) \<le> W"
    using lo tau_tiny unfolding len W_def u53_def by (simp; linarith)
  have "(2 :: rat) ^ 208 < pow2 1023" by (simp add: pow2_def)
  moreover have "2 * W \<le> 2 ^ 208" using hi unfolding W_def by (simp; linarith)
  ultimately have W3: "2 * W < pow2 1023" by linarith
  from fsum_val [OF fin W1 W2 W3]
  have f: "finite_d (fsum t xs d_zero)"
    and e: "\<bar>dval (fsum t xs d_zero) - 100 * mean (\<lambda>s. dval (t s)) xs\<bar>
              \<le> 100 * (2 * W * u53 + tau)"
    unfolding sum_list_mean [OF len] len by simp_all
  show "finite_d (fsum t xs d_zero)" by (rule f)
  have "\<bar>mean (\<lambda>s. dval (t s) - p s) xs\<bar> \<le> mean (\<lambda>s. \<bar>dval (t s) - p s\<bar>) xs"
    by (rule mean_abs)
  also have "\<dots> \<le> mean (\<lambda>s. u53 * \<bar>p s\<bar> + tau) xs"
    using t by (intro mean_mono) (simp add: mult.commute)
  also have "\<dots> = u53 * mean (\<lambda>s. \<bar>p s\<bar>) xs + tau"
    using ne by (simp add: mean_add mean_cmult mean_const)
  also have "\<dots> \<le> u53 * B + tau"
    using B by (intro add_right_mono mult_left_mono) simp_all
  finally have m2: "\<bar>mean (\<lambda>s. dval (t s)) xs - mean p xs\<bar> \<le> u53 * B + tau"
    by (simp add: mean_diff)
  show "\<bar>dval (fsum t xs d_zero) - 100 * mean p xs\<bar> \<le> 100 * (203 * B * u53)"
    using e m2 lo tau_tiny unfolding W_def u53_def abs_le_iff
    by (simp add: algebra_simps; linarith)
qed


lemma approx_weaken: "approx x v e \<Longrightarrow> e \<le> e' \<Longrightarrow> approx x v e'"
  by (auto simp: approx_def)

lemma approx_exact: "finite_d x \<Longrightarrow> approx x (dval x) 0"
  by (simp add: approx_def)

text \<open>
  How the errors of two approximated operands pass through a product, a difference and a sum.
\<close>

lemma approx_fmul:
  assumes x: "approx x vx ex" and y: "approx y vy ey"
    and bx: "\<bar>vx\<bar> + ex \<le> Bx" and byv: "\<bar>vy\<bar> + ey \<le> By" and ov: "Bx * By < pow2 1023"
  shows "approx (fmul x y) (vx * vy) (Bx * ey + By * ex + Bx * By * u53 + tau)"
proof -
  define X where "X = dval x"
  define Y where "Y = dval y"
  have fx: "finite_d x" and fy: "finite_d y"
    and ex: "\<bar>X - vx\<bar> \<le> ex" and ey: "\<bar>Y - vy\<bar> \<le> ey"
    using x y by (simp_all add: approx_def X_def Y_def)
  have X: "\<bar>X\<bar> \<le> Bx" and Yv: "\<bar>vy\<bar> \<le> By" and Y: "\<bar>Y\<bar> \<le> By"
    using ex ey bx byv by linarith+
  have Bx0: "0 \<le> Bx" and By0: "0 \<le> By" using X Y by linarith+
  have XY: "\<bar>X * Y\<bar> \<le> Bx * By"
    unfolding abs_mult using X Y Bx0 by (intro mult_mono) simp_all
  then have "\<bar>dval x * dval y\<bar> < pow2 1023" using ov unfolding X_def Y_def by linarith
  from fmul_val [OF fx fy this]
  have f: "finite_d (fmul x y)" and e1: "\<bar>dval (fmul x y) - X * Y\<bar> \<le> \<bar>X * Y\<bar> * u53 + tau"
    by (simp_all add: X_def Y_def)
  have "\<bar>X * Y\<bar> * u53 \<le> Bx * By * u53" using XY by (intro mult_right_mono) simp_all
  with e1 have e1': "\<bar>dval (fmul x y) - X * Y\<bar> \<le> Bx * By * u53 + tau" by linarith
  have "X * Y - vx * vy = X * (Y - vy) + vy * (X - vx)" by (simp add: algebra_simps)
  then have "\<bar>X * Y - vx * vy\<bar> \<le> \<bar>X * (Y - vy)\<bar> + \<bar>vy * (X - vx)\<bar>"
    by (simp only: abs_triangle_ineq)
  moreover have "\<bar>X * (Y - vy)\<bar> \<le> Bx * ey"
    unfolding abs_mult using X ey Bx0 by (intro mult_mono) simp_all
  moreover have "\<bar>vy * (X - vx)\<bar> \<le> By * ex"
    unfolding abs_mult using Yv ex By0 by (intro mult_mono) simp_all
  ultimately have e2: "\<bar>X * Y - vx * vy\<bar> \<le> Bx * ey + By * ex" by linarith
  have "\<bar>dval (fmul x y) - vx * vy\<bar> \<le> Bx * ey + By * ex + Bx * By * u53 + tau"
    using e1' e2 by linarith
  with f show ?thesis by (simp add: approx_def)
qed

lemma approx_fsub:
  assumes x: "approx x vx ex" and y: "approx y vy ey"
    and b: "\<bar>vx - vy\<bar> + ex + ey \<le> B" and ov: "B < pow2 1023"
  shows "approx (fsub x y) (vx - vy) (ex + ey + B * u53 + tau)"
proof -
  define X where "X = dval x"
  define Y where "Y = dval y"
  have fx: "finite_d x" and fy: "finite_d y"
    and ex: "\<bar>X - vx\<bar> \<le> ex" and ey: "\<bar>Y - vy\<bar> \<le> ey"
    using x y by (simp_all add: approx_def X_def Y_def)
  have XY: "\<bar>X - Y\<bar> \<le> B" using ex ey b by linarith
  then have "\<bar>dval x - dval y\<bar> < pow2 1023" using ov unfolding X_def Y_def by linarith
  from fsub_val [OF fx fy this]
  have f: "finite_d (fsub x y)" and e1: "\<bar>dval (fsub x y) - (X - Y)\<bar> \<le> \<bar>X - Y\<bar> * u53 + tau"
    by (simp_all add: X_def Y_def)
  have "\<bar>X - Y\<bar> * u53 \<le> B * u53" using XY by (intro mult_right_mono) simp_all
  with e1 have "\<bar>dval (fsub x y) - (X - Y)\<bar> \<le> B * u53 + tau" by linarith
  then have "\<bar>dval (fsub x y) - (vx - vy)\<bar> \<le> ex + ey + B * u53 + tau"
    using ex ey by linarith
  with f show ?thesis by (simp add: approx_def)
qed

lemma approx_fadd:
  assumes x: "approx x vx ex" and y: "approx y vy ey"
    and b: "\<bar>vx + vy\<bar> + ex + ey \<le> B" and ov: "B < pow2 1023"
  shows "approx (fadd x y) (vx + vy) (ex + ey + B * u53 + tau)"
proof -
  define X where "X = dval x"
  define Y where "Y = dval y"
  have fx: "finite_d x" and fy: "finite_d y"
    and ex: "\<bar>X - vx\<bar> \<le> ex" and ey: "\<bar>Y - vy\<bar> \<le> ey"
    using x y by (simp_all add: approx_def X_def Y_def)
  have XY: "\<bar>X + Y\<bar> \<le> B" using ex ey b by linarith
  then have "\<bar>dval x + dval y\<bar> < pow2 1023" using ov unfolding X_def Y_def by linarith
  from fadd_val [OF fx fy this]
  have f: "finite_d (fadd x y)" and e1: "\<bar>dval (fadd x y) - (X + Y)\<bar> \<le> \<bar>X + Y\<bar> * u53 + tau"
    by (simp_all add: X_def Y_def)
  have "\<bar>X + Y\<bar> * u53 \<le> B * u53" using XY by (intro mult_right_mono) simp_all
  with e1 have "\<bar>dval (fadd x y) - (X + Y)\<bar> \<le> B * u53 + tau" by linarith
  then have "\<bar>dval (fadd x y) - (vx + vy)\<bar> \<le> ex + ey + B * u53 + tau"
    using ex ey by linarith
  with f show ?thesis by (simp add: approx_def)
qed

text \<open>
  The mean of 100 rounded terms, computed as the accumulated sum times the double nearest to
  \<open>1 / 100\<close>.
\<close>

lemma inv_n_approx: "approx (fdiv d_one (i2d 100)) (1 / 100) (1 / 2 ^ 59)"
proof -
  have i: "i2d 100 = DFinite False 100" using i2d_exact [of 100] by simp
  have "\<bar>dval d_one / dval (i2d 100)\<bar> < pow2 1023" by (simp add: i d_one_def signed_val_def pow2_def)
  from fdiv_val [OF _ _ _ this]
  have "finite_d (fdiv d_one (i2d 100))"
    and "\<bar>dval (fdiv d_one (i2d 100)) - 1 / 100\<bar> \<le> 1 / 100 * u53 + tau"
    by (simp_all add: i d_one_def signed_val_def)
  then show ?thesis using tau_tiny unfolding approx_def u53_def by (simp; linarith)
qed

lemma fmean_approx:
  assumes len: "length xs = 100"
    and t: "\<forall>s \<in> set xs. finite_d (t s) \<and> \<bar>dval (t s) - p s\<bar> \<le> \<bar>p s\<bar> * u53 + tau"
    and B: "mean (\<lambda>s. \<bar>p s\<bar>) xs \<le> B" and lo: "1 / 2 ^ 20 \<le> B" and hi: "B \<le> 2 ^ 200"
  shows "approx (fmul (fdiv d_one (i2d 100)) (fsum t xs d_zero)) (mean p xs) (206 * B * u53)"
proof -
  have S: "approx (fsum t xs d_zero) (100 * mean p xs) (100 * (203 * B * u53))"
    using fsum_mean [OF len t B lo hi] by (simp add: approx_def)
  have "\<bar>mean p xs\<bar> \<le> mean (\<lambda>s. \<bar>p s\<bar>) xs" by (rule mean_abs)
  with B have m: "\<bar>mean p xs\<bar> \<le> B" by linarith
  have 1: "\<bar>1 / 100 :: rat\<bar> + 1 / 2 ^ 59 \<le> 1 / 100 + 1 / 2 ^ 59" by simp
  have 2: "\<bar>100 * mean p xs\<bar> + 100 * (203 * B * u53) \<le> 101 * B"
    using m lo unfolding u53_def abs_le_iff by (simp add: algebra_simps abs_le_iff; linarith)
  have "(1 / 100 + 1 / 2 ^ 59) * (101 * B) \<le> 2 * 2 ^ 200"
    using hi by (simp; linarith)
  moreover have "(2 :: rat) * 2 ^ 200 < pow2 1023" by (simp add: pow2_def)
  ultimately have 3: "(1 / 100 + 1 / 2 ^ 59) * (101 * B) < pow2 1023" by linarith
  from approx_fmul [OF inv_n_approx S 1 2 3]
  have "approx (fmul (fdiv d_one (i2d 100)) (fsum t xs d_zero)) (mean p xs)
          ((1 / 100 + 1 / 2 ^ 59) * (100 * (203 * B * u53)) + 101 * B * (1 / 2 ^ 59) +
           (1 / 100 + 1 / 2 ^ 59) * (101 * B) * u53 + tau)"
    by simp
  moreover have "(1 / 100 + 1 / 2 ^ 59) * (100 * (203 * B * u53)) + 101 * B * (1 / 2 ^ 59) +
           (1 / 100 + 1 / 2 ^ 59) * (101 * B) * u53 + tau \<le> 206 * B * u53"
    using lo tau_tiny unfolding u53_def by (simp add: algebra_simps; linarith)
  ultimately show ?thesis by (rule approx_weaken)
qed

section \<open>The regression of an exact line\<close>

text \<open>
  While every timestamp of a sample lies between 0 and \<open>M \<le> 2 ^ 52\<close> ns, the sum
  \<open>query + received\<close> does not wrap and the two coordinates of the sample, the midpoint
  and the device time, are doubles.
\<close>

lemma sint_add_wide:
  fixes x y :: i64
  assumes "0 \<le> sint x" "sint x < 2 ^ 52" "0 \<le> sint y" "sint y < 2 ^ 52"
  shows "sint (x + y) = sint x + sint y"
proof -
  have "x + y = word_of_int (sint x + sint y)" by simp
  moreover have "sint (word_of_int (sint x + sint y) :: i64) = sint x + sint y"
    using assms by (intro sint_word_of_int_i64) simp_all
  ultimately show ?thesis by (simp only:)
qed

lemma of_int_less_52:
  fixes M :: rat
  assumes "of_int k < M" and "M \<le> 2 ^ 52"
  shows "k < 2 ^ 52"
proof -
  have "(of_int k :: rat) < of_int (2 ^ 52)" using assms by simp
  then show ?thesis by (simp only: of_int_less_iff)
qed

lemma below_exact:
  assumes b: "timestamps_below M s" and M: "M \<le> 2 ^ 52"
  shows "sample_X s = DFinite False (midpoint s)" "sample_Y s = DFinite False (device_time s)"
    "small_half_int (midpoint s)" "0 \<le> midpoint s" "midpoint s < M"
    "0 \<le> device_time s" "device_time s < M"
proof -
  have q: "0 \<le> sint (query s)" "of_int (sint (query s)) < M"
    and r: "0 \<le> sint (received s)" "of_int (sint (received s)) < M"
    and p: "0 \<le> sint (response s)" "of_int (sint (response s)) < M"
    using b by (simp_all add: timestamps_below_def)
  have q52: "sint (query s) < 2 ^ 52" by (rule of_int_less_52 [OF q(2) M])
  have r52: "sint (received s) < 2 ^ 52" by (rule of_int_less_52 [OF r(2) M])
  have p52: "sint (response s) < 2 ^ 52" by (rule of_int_less_52 [OF p(2) M])
  have e: "sint (query s + received s) = sint (query s) + sint (received s)"
    by (rule sint_add_wide [OF q(1) q52 r(1) r52])
  have k: "0 \<le> sint (query s) + sint (received s)" "sint (query s) + sint (received s) < 2 ^ 53"
    using q(1) r(1) q52 r52 by simp_all
  have m: "midpoint s = of_int (sint (query s) + sint (received s)) / 2"
    unfolding midpoint_def by (simp only: of_int_add)
  show "sample_X s = DFinite False (midpoint s)"
    unfolding sample_X_def e m by (rule fmul_half [OF k])
  show "small_half_int (midpoint s)"
    unfolding m by (rule small_half_int_half [OF k])
  show "sample_Y s = DFinite False (device_time s)"
    by (rule sample_Y_device_time(1) [OF p(1) p52])
  have q0: "0 \<le> (of_int (sint (query s)) :: rat)" using q(1) by (simp only: of_int_0_le_iff)
  have r0: "0 \<le> (of_int (sint (received s)) :: rat)" using r(1) by (simp only: of_int_0_le_iff)
  show "0 \<le> midpoint s" unfolding midpoint_def
    by (intro divide_nonneg_nonneg add_nonneg_nonneg q0 r0) simp
  have "\<And>a b :: rat. a < M \<Longrightarrow> b < M \<Longrightarrow> (a + b) / 2 < M" by (simp add: field_simps)
  then show "midpoint s < M" unfolding midpoint_def using q(2) r(2) by blast
  show "0 \<le> device_time s" unfolding device_time_def using p(1) by (simp only: of_int_0_le_iff)
  show "device_time s < M" unfolding device_time_def by (rule p(2))
qed

text \<open>
  The loop of lines 76 to 80 is two accumulators. Their terms are not negative, so neither
  are the sums; the means \<open>x0\<close> and \<open>y0\<close> are within \<open>M / 2 ^ 45\<close> of the exact means.
\<close>

lemma fold_step_means:
  "fold step_means xs (sx, sy) = (fsum sample_X xs sx, fsum sample_Y xs sy)"
  by (induction xs arbitrary: sx sy) (simp_all add: step_means_def)

lemma fadd_sign:
  assumes "(\<exists>p. acc = DFinite False p \<and> 0 \<le> p) \<or> acc = DInf False" and m: "0 \<le> m"
  shows "(\<exists>p. fadd acc (DFinite False m) = DFinite False p \<and> 0 \<le> p) \<or>
         fadd acc (DFinite False m) = DInf False"
  using assms(1)
proof
  assume "\<exists>p. acc = DFinite False p \<and> 0 \<le> p"
  then obtain p where p: "acc = DFinite False p" "0 \<le> p" by blast
  show ?thesis
  proof (cases "p + m = 0")
    case True
    then show ?thesis by (simp add: p signed_val_def)
  next
    case False
    moreover have "\<not> p + m < 0" "\<bar>p + m\<bar> = p + m" using p(2) m by simp_all
    ultimately have f: "fadd acc (DFinite False m) = rnd False (p + m)"
      by (simp add: p(1) signed_val_def Let_def)
    show ?thesis
    proof (cases "round_mag (p + m)")
      case None
      then show ?thesis by (simp add: f rnd_def)
    next
      case (Some r)
      have "0 \<le> r" using round_mag_nonneg [OF Some] p(2) m by simp
      then show ?thesis by (simp add: f rnd_def Some)
    qed
  qed
next
  assume "acc = DInf False"
  then show ?thesis by simp
qed

lemma fsum_sign:
  assumes "\<forall>s \<in> set xs. \<exists>m. t s = DFinite False m \<and> 0 \<le> m"
    and "(\<exists>p. acc = DFinite False p \<and> 0 \<le> p) \<or> acc = DInf False"
  shows "(\<exists>p. fsum t xs acc = DFinite False p \<and> 0 \<le> p) \<or> fsum t xs acc = DInf False"
  using assms
proof (induction xs arbitrary: acc)
  case Nil
  then show ?case by simp
next
  case (Cons s xs)
  from Cons.prems(1) obtain m where m: "t s = DFinite False m" "0 \<le> m" by auto
  have "(\<exists>p. fadd acc (t s) = DFinite False p \<and> 0 \<le> p) \<or> fadd acc (t s) = DInf False"
    unfolding m(1) by (rule fadd_sign [OF Cons.prems(2) m(2)])
  from Cons.IH [OF _ this] Cons.prems(1) show ?case by simp
qed

lemma rnd_form: "finite_d (rnd s q) \<Longrightarrow> \<exists>r. rnd s q = DFinite s r \<and> 0 \<le> r"
  by (simp add: rnd_def split: option.splits)

lemma mean_bounds:
  assumes "\<And>s. s \<in> set xs \<Longrightarrow> 0 \<le> f s \<and> f s \<le> M" and "xs \<noteq> []"
  shows "0 \<le> mean f xs" "mean f xs \<le> M"
proof -
  show "0 \<le> mean f xs" using assms(1) by (intro mean_nonneg) simp
  have "mean f xs \<le> mean (\<lambda>s. M) xs" using assms(1) by (intro mean_mono) simp
  then show "mean f xs \<le> M" using assms(2) by (simp add: mean_const)
qed

lemma mean_of_doubles:
  fixes M :: rat
  assumes len: "length xs = 100" and M: "1 / 2 \<le> M" "M \<le> 2 ^ 52"
    and t: "\<forall>s \<in> set xs. t s = DFinite False (f s) \<and> 0 \<le> f s \<and> f s < M"
  shows "\<exists>x0. fdiv (fsum t xs d_zero) (i2d 100) = DFinite False x0 \<and> 0 \<le> x0 \<and>
           \<bar>x0 - mean f xs\<bar> \<le> M / 2 ^ 45"
proof -
  have ne: "xs \<noteq> []" using len by auto
  have fin: "\<forall>s \<in> set xs. finite_d (t s)" using t by simp
  have dv: "\<And>s. s \<in> set xs \<Longrightarrow> dval (t s) = f s" using t by (simp add: signed_val_def)
  have "sum_list (map (\<lambda>s. \<bar>dval (t s)\<bar>) xs) = sum_list (map f xs)"
    using t by (intro arg_cong [where f = sum_list] map_cong) (auto simp: signed_val_def)
  moreover have "sum_list (map f xs) \<le> of_nat (length xs) * M"
    using t by (intro sum_list_bound) simp
  ultimately have W1: "sum_list (map (\<lambda>s. \<bar>dval (t s)\<bar>) xs) \<le> 100 * M" by (simp add: len)
  have W2: "of_nat (length xs) * (2 * (100 * M) * u53 + tau) \<le> 100 * M"
    using M(1) tau_tiny unfolding len u53_def by (simp; linarith)
  have "(2 :: rat) ^ 60 < pow2 1023" by (simp add: pow2_def)
  then have W3: "2 * (100 * M) < pow2 1023" using M(2) by (simp; linarith)
  from fsum_val [OF fin W1 W2 W3]
  have fS: "finite_d (fsum t xs d_zero)"
    and eS: "\<bar>dval (fsum t xs d_zero) - sum_list (map (\<lambda>s. dval (t s)) xs)\<bar>
              \<le> 100 * (2 * (100 * M) * u53 + tau)"
    by (simp_all add: len)
  have "sum_list (map (\<lambda>s. dval (t s)) xs) = sum_list (map f xs)"
    using dv by (intro arg_cong [where f = sum_list] map_cong) auto
  then have sm: "sum_list (map (\<lambda>s. dval (t s)) xs) = 100 * mean f xs"
    by (simp add: mean_def len)
  have "(\<exists>p. fsum t xs d_zero = DFinite False p \<and> 0 \<le> p) \<or> fsum t xs d_zero = DInf False"
    using t by (intro fsum_sign) (auto simp: d_zero_def)
  with fS obtain p where p: "fsum t xs d_zero = DFinite False p" "0 \<le> p" by auto
  have ep: "\<bar>p - 100 * mean f xs\<bar> \<le> 100 * (2 * (100 * M) * u53 + tau)"
    using eS unfolding sm p by (simp add: signed_val_def)
  have h: "\<And>s. s \<in> set xs \<Longrightarrow> 0 \<le> f s \<and> f s \<le> M" using t by auto
  have mb: "0 \<le> mean f xs" "mean f xs \<le> M"
    using mean_bounds [OF h ne] by simp_all
  have phi: "p / 100 \<le> 2 * M"
    using ep mb M(1) tau_tiny unfolding u53_def abs_le_iff by (simp add: field_simps; linarith)
  have "(2 :: rat) ^ 60 < pow2 1023" by (simp add: pow2_def)
  then have "p / 100 < pow2 1023" using phi M(2) by (simp; linarith)
  from rnd_sign_val [OF _ this, of False] p(2)
  have fr: "finite_d (rnd False (p / 100))"
    and er: "\<bar>dval (rnd False (p / 100)) - p / 100\<bar> \<le> p / 100 * u53 + tau"
    by (simp_all add: signed_val_def)
  from rnd_form [OF fr] obtain x0 where x0: "rnd False (p / 100) = DFinite False x0" "0 \<le> x0"
    by blast
  have i: "i2d 100 = DFinite False 100" using i2d_exact [of 100] by simp
  have d: "fdiv (fsum t xs d_zero) (i2d 100) = DFinite False x0"
    by (simp add: p i x0)
  have ex: "\<bar>x0 - p / 100\<bar> \<le> p / 100 * u53 + tau"
    using er unfolding x0 by (simp add: signed_val_def)
  have "p / 100 * u53 \<le> 2 * M * u53" using phi by (intro mult_right_mono) simp_all
  with ex have ex': "\<bar>x0 - p / 100\<bar> \<le> 2 * M * u53 + tau" by linarith
  have "\<bar>x0 - mean f xs\<bar> \<le> M / 2 ^ 45"
    using ex' ep M(1) tau_tiny unfolding u53_def abs_le_iff
    by (simp add: field_simps; linarith)
  with d x0(2) show ?thesis by blast
qed

lemma means_wide:
  fixes M :: rat
  assumes len: "length xs = 100" and M: "1 / 2 \<le> M" "M \<le> 2 ^ 52"
    and rng: "\<forall>s \<in> set xs. timestamps_below M s"
  shows "\<exists>x0 y0. means xs = (DFinite False x0, DFinite False y0) \<and> 0 \<le> x0 \<and> 0 \<le> y0 \<and>
           \<bar>x0 - mean midpoint xs\<bar> \<le> M / 2 ^ 45 \<and> \<bar>y0 - mean device_time xs\<bar> \<le> M / 2 ^ 45"
proof -
  have tx: "\<forall>s \<in> set xs. sample_X s = DFinite False (midpoint s) \<and> 0 \<le> midpoint s \<and> midpoint s < M"
    using rng below_exact(1,4,5) [OF _ M(2)] by blast
  have ty: "\<forall>s \<in> set xs. sample_Y s = DFinite False (device_time s) \<and> 0 \<le> device_time s \<and>
              device_time s < M"
    using rng below_exact(2,6,7) [OF _ M(2)] by blast
  from mean_of_doubles [OF len M tx] obtain x0 where
    x0: "fdiv (fsum sample_X xs d_zero) (i2d 100) = DFinite False x0" "0 \<le> x0"
      "\<bar>x0 - mean midpoint xs\<bar> \<le> M / 2 ^ 45" by blast
  from mean_of_doubles [OF len M ty] obtain y0 where
    y0: "fdiv (fsum sample_Y xs d_zero) (i2d 100) = DFinite False y0" "0 \<le> y0"
      "\<bar>y0 - mean device_time xs\<bar> \<le> M / 2 ^ 45" by blast
  have "means xs = (DFinite False x0, DFinite False y0)"
    by (simp add: means_def fold_step_means len x0(1) y0(1))
  with x0(2,3) y0(2,3) show ?thesis by blast
qed

text \<open>
  The exact side. For a window on a line with two midpoints at least \<open>M / 2 ^ 39\<close> apart,
  the midpoints lie within a radius \<open>G\<close> of their mean, the computed means are within
  \<open>G / 32\<close> of the exact ones, and the variance of the midpoints is at least
  \<open>G * G / 100\<close>.
\<close>

lemma affine_mean:
  assumes "\<forall>s \<in> set xs. device_time s = \<alpha> * midpoint s + \<beta>" and "xs \<noteq> []"
  shows "mean device_time xs = \<alpha> * mean midpoint xs + \<beta>"
proof -
  have "mean device_time xs = mean (\<lambda>s. \<alpha> * midpoint s + \<beta>) xs"
    using assms(1) by (intro mean_cong) simp
  then show ?thesis using assms(2) by (simp add: mean_add mean_cmult mean_const)
qed

lemma half_int_gap:
  assumes "small_half_int p" and "small_half_int q" and "p \<noteq> q"
  shows "1 / 2 \<le> \<bar>p - q\<bar>"
proof -
  from assms(1,2) obtain i j :: int where i: "2 * p = of_int i" and j: "2 * q = of_int j"
    unfolding small_half_int_def by (auto elim!: Ints_cases)
  have "i \<noteq> j" using assms(3) i j by auto
  then have "1 \<le> \<bar>i - j\<bar>" by simp
  then have "(1 :: rat) \<le> of_int \<bar>i - j\<bar>" by (simp only: of_int_1_le_iff)
  then have "1 \<le> \<bar>2 * p - 2 * q\<bar>" by (simp add: i j)
  then show ?thesis by linarith
qed

lemma window_facts:
  fixes M :: rat
  assumes len: "length xs = 100" and rng: "\<forall>s \<in> set xs. timestamps_below M s"
    and M: "M \<le> 2 ^ 52"
    and aff: "\<forall>s \<in> set xs. device_time s = \<alpha> * midpoint s + \<beta>"
    and spr: "s1 \<in> set xs" "s2 \<in> set xs" "M / 2 ^ 39 \<le> \<bar>midpoint s1 - midpoint s2\<bar>"
  shows "\<exists>x0 y0 G \<gamma>.
           means xs = (DFinite False x0, DFinite False y0) \<and>
           0 \<le> x0 \<and> x0 \<le> 2 * M \<and> 0 \<le> y0 \<and> y0 \<le> 2 * M \<and>
           \<bar>x0 - mean midpoint xs\<bar> \<le> G / 32 \<and> \<bar>y0 - mean device_time xs\<bar> \<le> G / 32 \<and>
           \<bar>\<gamma>\<bar> \<le> (\<bar>\<alpha>\<bar> + 1) * G / 32 \<and> 1 / 4 \<le> G \<and> G \<le> M \<and>
           G * G \<le> 100 * covar midpoint midpoint xs \<and>
           (\<forall>s \<in> set xs. \<bar>midpoint s - x0\<bar> \<le> 33 / 32 * G \<and>
                           device_time s - y0 = \<alpha> * (midpoint s - x0) + \<gamma>)"
proof -
  let ?MX = "mean midpoint xs" and ?MY = "mean device_time xs"
  have ne: "xs \<noteq> []" using len by auto
  note e1 = below_exact [OF bspec [OF rng spr(1)] M]
  note e2 = below_exact [OF bspec [OF rng spr(2)] M]
  have Mpos: "0 < M" using e1(4,5) by linarith
  then have "0 < M / 2 ^ 39" by simp
  with spr(3) have "midpoint s1 \<noteq> midpoint s2" by auto
  then have gap: "1 / 2 \<le> \<bar>midpoint s1 - midpoint s2\<bar>"
    by (intro half_int_gap e1(3) e2(3))
  then have Mhalf: "1 / 2 \<le> M" using e1(4,5) e2(4,5) by linarith
  from means_wide [OF len Mhalf M rng] obtain x0 y0 where
    means: "means xs = (DFinite False x0, DFinite False y0)"
    and x0: "0 \<le> x0" "\<bar>x0 - ?MX\<bar> \<le> M / 2 ^ 45"
    and y0: "0 \<le> y0" "\<bar>y0 - ?MY\<bar> \<le> M / 2 ^ 45" by blast
  have hx: "\<And>s. s \<in> set xs \<Longrightarrow> 0 \<le> midpoint s \<and> midpoint s \<le> M"
    using rng below_exact(4,5) [OF _ M] by (auto intro: less_imp_le)
  have hy: "\<And>s. s \<in> set xs \<Longrightarrow> 0 \<le> device_time s \<and> device_time s \<le> M"
    using rng below_exact(6,7) [OF _ M] by (auto intro: less_imp_le)
  have MXb: "0 \<le> ?MX" "?MX \<le> M" using mean_bounds [OF hx ne] by simp_all
  have MYb: "0 \<le> ?MY" "?MY \<le> M" using mean_bounds [OF hy ne] by simp_all
  have dM: "M / 2 ^ 45 \<le> M" using Mpos by (simp add: field_simps)
  have x0hi: "x0 \<le> 2 * M" using x0(2) MXb dM by linarith
  have y0hi: "y0 \<le> 2 * M" using y0(2) MYb dM by linarith
  from spread_radius [OF spr(1,2) gap] obtain t where t: "t \<in> set xs"
    "1 / 4 \<le> \<bar>midpoint t - ?MX\<bar>"
    "\<forall>s \<in> set xs. \<bar>midpoint s - ?MX\<bar> \<le> \<bar>midpoint t - ?MX\<bar>"
    "\<bar>midpoint t - ?MX\<bar> * \<bar>midpoint t - ?MX\<bar> \<le> of_nat (length xs) * covar midpoint midpoint xs"
    by blast
  define G where "G = \<bar>midpoint t - ?MX\<bar>"
  have "\<bar>midpoint s1 - ?MX\<bar> \<le> G" "\<bar>midpoint s2 - ?MX\<bar> \<le> G"
    using t(3) spr(1,2) by (simp_all add: G_def)
  with spr(3) have "M / 2 ^ 39 \<le> 2 * G" by linarith
  then have dG: "M / 2 ^ 45 \<le> G / 32" by (simp add: field_simps)
  have dx: "\<bar>x0 - ?MX\<bar> \<le> G / 32" using x0(2) dG by linarith
  have dy: "\<bar>y0 - ?MY\<bar> \<le> G / 32" using y0(2) dG by linarith
  have Glo: "1 / 4 \<le> G" using t(2) by (simp add: G_def)
  have Ghi: "G \<le> M" using hx [OF t(1)] MXb unfolding G_def by linarith
  have MY: "?MY = \<alpha> * ?MX + \<beta>" by (rule affine_mean [OF aff ne])
  define \<gamma> where "\<gamma> = \<alpha> * x0 + \<beta> - y0"
  define P where "P = \<alpha> * (x0 - ?MX)"
  define a1 where "a1 = \<bar>\<alpha>\<bar>"
  define aG where "aG = a1 * G"
  have "\<gamma> = P - (y0 - ?MY)" by (simp add: \<gamma>_def P_def MY algebra_simps)
  moreover have "\<bar>P\<bar> \<le> a1 * (G / 32)"
    unfolding abs_mult P_def a1_def using dx by (intro mult_left_mono) simp_all
  then have "\<bar>P\<bar> \<le> aG / 32" by (simp add: aG_def)
  ultimately have "\<bar>\<gamma>\<bar> \<le> (aG + G) / 32"
    using dy unfolding abs_le_iff by (simp add: field_simps; linarith)
  moreover have "aG + G = (\<bar>\<alpha>\<bar> + 1) * G" by (simp add: aG_def a1_def algebra_simps)
  ultimately have g: "\<bar>\<gamma>\<bar> \<le> (\<bar>\<alpha>\<bar> + 1) * G / 32" by (simp only:)
  have pt: "\<forall>s \<in> set xs. \<bar>midpoint s - x0\<bar> \<le> 33 / 32 * G \<and>
                           device_time s - y0 = \<alpha> * (midpoint s - x0) + \<gamma>"
  proof
    fix s assume s: "s \<in> set xs"
    then have "\<bar>midpoint s - ?MX\<bar> \<le> G" using t(3) by (simp add: G_def)
    then have "\<bar>midpoint s - x0\<bar> \<le> 33 / 32 * G" using dx by linarith
    moreover have "device_time s - y0 = \<alpha> * (midpoint s - x0) + \<gamma>"
      using aff s by (simp add: \<gamma>_def algebra_simps)
    ultimately show "\<bar>midpoint s - x0\<bar> \<le> 33 / 32 * G \<and>
                     device_time s - y0 = \<alpha> * (midpoint s - x0) + \<gamma>" ..
  qed
  have "G * G \<le> 100 * covar midpoint midpoint xs" using t(4) by (simp add: G_def len)
  with means x0(1) y0(1) x0hi y0hi dx dy g Glo Ghi pt show ?thesis by blast
qed

text \<open>
  The centred coordinates of lines 98 and 103 are finite doubles, within one rounding of the
  exact differences.
\<close>

lemma centred_point:
  fixes \<alpha> \<gamma> G x0 y0 M :: rat
  assumes r: "timestamps_below M s" and M: "M \<le> 2 ^ 52"
    and G: "1 / 4 \<le> G" "G \<le> M"
    and x0: "0 \<le> x0" and y0: "0 \<le> y0"
    and g: "\<bar>\<gamma>\<bar> \<le> (\<bar>\<alpha>\<bar> + 1) * G / 32" and al: "\<bar>\<alpha>\<bar> \<le> 100"
    and xi: "\<bar>midpoint s - x0\<bar> \<le> 33 / 32 * G"
    and eta: "device_time s - y0 = \<alpha> * (midpoint s - x0) + \<gamma>"
  shows "finite_d (centred_X (DFinite False x0) s)" "finite_d (centred_Y (DFinite False y0) s)"
    "\<bar>dval (centred_X (DFinite False x0) s) - (midpoint s - x0)\<bar> \<le> 2 * G * u53"
    "\<bar>dval (centred_Y (DFinite False y0) s) - (device_time s - y0)\<bar> \<le> 2 * ((\<bar>\<alpha>\<bar> + 1) * G) * u53"
proof -
  define a1 where "a1 = \<bar>\<alpha>\<bar>"
  define aG where "aG = a1 * G"
  define \<xi> where "\<xi> = midpoint s - x0"
  define \<eta> where "\<eta> = device_time s - y0"
  have a1: "0 \<le> a1" "a1 \<le> 100" using al by (simp_all add: a1_def)
  have G52: "G \<le> 2 ^ 52" using G(2) M by linarith
  have aG: "a1 / 4 \<le> aG" "aG \<le> 100 * 2 ^ 52"
  proof -
    have "a1 * (1 / 4) \<le> a1 * G" using G(1) a1(1) by (intro mult_left_mono)
    then show "a1 / 4 \<le> aG" by (simp add: aG_def)
    have "a1 * G \<le> 100 * 2 ^ 52" using G(1) G52 a1 by (intro mult_mono) simp_all
    then show "aG \<le> 100 * 2 ^ 52" by (simp add: aG_def)
  qed
  have AG: "(\<bar>\<alpha>\<bar> + 1) * G = aG + G" by (simp add: aG_def a1_def algebra_simps)
  note be = below_exact [OF r M]
  have big: "(2 :: rat) ^ 60 < pow2 1023" by (simp add: pow2_def)
  have xi': "\<bar>\<xi>\<bar> \<le> 33 / 32 * G" using xi by (simp add: \<xi>_def)
  then have "\<bar>\<xi>\<bar> < pow2 1023" using G52 big by (simp; linarith)
  then have "\<bar>dval (DFinite False (midpoint s)) - dval (DFinite False x0)\<bar> < pow2 1023"
    by (simp add: signed_val_def \<xi>_def)
  from fsub_val [OF _ _ this] be(4) x0
  have fx: "finite_d (centred_X (DFinite False x0) s)"
    and ex: "\<bar>dval (centred_X (DFinite False x0) s) - \<xi>\<bar> \<le> \<bar>\<xi>\<bar> * u53 + tau"
    by (simp_all add: centred_X_def be(1) signed_val_def \<xi>_def)
  show "finite_d (centred_X (DFinite False x0) s)" by (rule fx)
  have "\<bar>\<xi>\<bar> * u53 \<le> (33 / 32 * G) * u53" using xi' by (intro mult_right_mono) simp_all
  with ex have "\<bar>dval (centred_X (DFinite False x0) s) - \<xi>\<bar> \<le> (33 / 32 * G) * u53 + tau" by linarith
  then have "\<bar>dval (centred_X (DFinite False x0) s) - \<xi>\<bar> \<le> 2 * G * u53"
    using G(1) tau_tiny unfolding u53_def abs_le_iff by (simp add: field_simps; linarith)
  then show "\<bar>dval (centred_X (DFinite False x0) s) - (midpoint s - x0)\<bar> \<le> 2 * G * u53"
    by (simp only: \<xi>_def)
  define P where "P = \<alpha> * \<xi>"
  have "\<bar>P\<bar> \<le> a1 * (33 / 32 * G)"
    unfolding P_def abs_mult a1_def using xi' by (intro mult_left_mono) simp_all
  then have P: "\<bar>P\<bar> \<le> 33 / 32 * aG" by (simp add: aG_def algebra_simps)
  have "\<bar>\<gamma>\<bar> \<le> (aG + G) / 32" using g by (simp only: AG)
  then have g': "\<bar>\<gamma>\<bar> \<le> aG / 32 + G / 32" by (simp add: add_divide_distrib)
  have eta': "\<eta> = P + \<gamma>" using eta by (simp add: \<eta>_def P_def \<xi>_def)
  have eb: "\<bar>\<eta>\<bar> \<le> 17 / 16 * aG + G / 32" using P g' unfolding eta' by linarith
  then have "\<bar>\<eta>\<bar> < pow2 1023" using aG(2) G52 big by (simp; linarith)
  then have "\<bar>dval (DFinite False (device_time s)) - dval (DFinite False y0)\<bar> < pow2 1023"
    by (simp add: signed_val_def \<eta>_def)
  from fsub_val [OF _ _ this] be(6) y0
  have fy: "finite_d (centred_Y (DFinite False y0) s)"
    and ey: "\<bar>dval (centred_Y (DFinite False y0) s) - \<eta>\<bar> \<le> \<bar>\<eta>\<bar> * u53 + tau"
    by (simp_all add: centred_Y_def be(2) signed_val_def \<eta>_def)
  show "finite_d (centred_Y (DFinite False y0) s)" by (rule fy)
  have "\<bar>\<eta>\<bar> * u53 \<le> (17 / 16 * aG + G / 32) * u53" using eb by (intro mult_right_mono) simp_all
  with ey have "\<bar>dval (centred_Y (DFinite False y0) s) - \<eta>\<bar> \<le> (17 / 16 * aG + G / 32) * u53 + tau"
    by linarith
  then have "\<bar>dval (centred_Y (DFinite False y0) s) - \<eta>\<bar> \<le> 2 * (aG + G) * u53"
    using G(1) aG(1) a1(1) tau_tiny unfolding u53_def abs_le_iff
    by (simp add: field_simps; linarith)
  then show "\<bar>dval (centred_Y (DFinite False y0) s) - (device_time s - y0)\<bar>
             \<le> 2 * ((\<bar>\<alpha>\<bar> + 1) * G) * u53"
    by (simp only: \<eta>_def AG)
qed

lemma centred_facts:
  fixes \<alpha> \<gamma> G x0 y0 M :: rat
  assumes len: "length xs = 100" and rng: "\<forall>s \<in> set xs. timestamps_below M s"
    and M: "M \<le> 2 ^ 52"
    and G: "1 / 4 \<le> G" "G \<le> M"
    and x0: "0 \<le> x0" and y0: "0 \<le> y0"
    and g: "\<bar>\<gamma>\<bar> \<le> (\<bar>\<alpha>\<bar> + 1) * G / 32" and al: "\<bar>\<alpha>\<bar> \<le> 100"
    and var: "G * G \<le> 100 * covar midpoint midpoint xs"
    and pt: "\<forall>s \<in> set xs. \<bar>midpoint s - x0\<bar> \<le> 33 / 32 * G \<and>
                           device_time s - y0 = \<alpha> * (midpoint s - x0) + \<gamma>"
  shows "\<forall>s \<in> set xs. finite_d (centred_X (DFinite False x0) s) \<and> finite_d (centred_Y (DFinite False y0) s) \<and>
            \<bar>centred_X_value x0 s\<bar> \<le> 17 / 16 * G \<and>
            \<bar>centred_Y_value y0 s - (\<alpha> * centred_X_value x0 s + \<gamma>)\<bar> \<le> 4 * ((\<bar>\<alpha>\<bar> + 1) * G) * u53"
    and "\<bar>mean (centred_X_value x0) xs + x0 - mean midpoint xs\<bar> \<le> 2 * G * u53"
    and "\<bar>mean (centred_Y_value y0) xs + y0 - mean device_time xs\<bar> \<le> 2 * ((\<bar>\<alpha>\<bar> + 1) * G) * u53"
    and "G * G \<le> 128 * covar (centred_X_value x0) (centred_X_value x0) xs"
proof -
  define a1 where "a1 = \<bar>\<alpha>\<bar>"
  define aG where "aG = a1 * G"
  define GG where "GG = G * G"
  define \<xi> where "\<xi> = (\<lambda>s. midpoint s - x0)"
  define \<eta> where "\<eta> = (\<lambda>s. device_time s - y0)"
  define d where "d = (\<lambda>s. centred_X_value x0 s - \<xi> s)"
  define e where "e = (\<lambda>s. centred_Y_value y0 s - \<eta> s)"
  have ne: "xs \<noteq> []" using len by auto
  have a1: "0 \<le> a1" by (simp add: a1_def)
  have aG0: "0 \<le> aG" using a1 G(1) by (simp add: aG_def)
  have AG: "(\<bar>\<alpha>\<bar> + 1) * G = aG + G" by (simp add: aG_def a1_def algebra_simps)
  have GG0: "0 \<le> GG" by (simp add: GG_def)
  have pw: "finite_d (centred_X (DFinite False x0) s)" "finite_d (centred_Y (DFinite False y0) s)"
    "\<bar>d s\<bar> \<le> 2 * G * u53" "\<bar>e s\<bar> \<le> 2 * (aG + G) * u53" "\<bar>\<xi> s\<bar> \<le> 33 / 32 * G"
    "\<eta> s = \<alpha> * \<xi> s + \<gamma>"
    if "s \<in> set xs" for s
    using centred_point [OF _ M G x0 y0 g al, of s] rng pt that
    by (simp_all add: d_def e_def \<xi>_def \<eta>_def centred_X_value_def centred_Y_value_def AG)
  show "\<forall>s \<in> set xs. finite_d (centred_X (DFinite False x0) s) \<and> finite_d (centred_Y (DFinite False y0) s) \<and>
            \<bar>centred_X_value x0 s\<bar> \<le> 17 / 16 * G \<and>
            \<bar>centred_Y_value y0 s - (\<alpha> * centred_X_value x0 s + \<gamma>)\<bar> \<le> 4 * ((\<bar>\<alpha>\<bar> + 1) * G) * u53"
  proof
    fix s assume s: "s \<in> set xs"
    note p = pw [OF s]
    have x: "centred_X_value x0 s = \<xi> s + d s" by (simp add: d_def)
    have "\<bar>centred_X_value x0 s\<bar> \<le> 33 / 32 * G + 2 * G * u53" using p(3,5) unfolding x by linarith
    then have 1: "\<bar>centred_X_value x0 s\<bar> \<le> 17 / 16 * G"
      using G(1) unfolding u53_def abs_le_iff by (simp add: field_simps; linarith)
    define Q where "Q = \<alpha> * d s"
    have "\<bar>Q\<bar> \<le> a1 * (2 * G * u53)"
      unfolding Q_def abs_mult a1_def using p(3) by (intro mult_left_mono) simp_all
    then have Q: "\<bar>Q\<bar> \<le> 2 * aG * u53" by (simp add: aG_def algebra_simps)
    have "centred_Y_value y0 s - (\<alpha> * centred_X_value x0 s + \<gamma>) = e s - Q"
      by (simp add: e_def Q_def x p(6) algebra_simps)
    moreover have "\<bar>e s - Q\<bar> \<le> 4 * (aG + G) * u53"
      using Q p(4) G(1) aG0 unfolding u53_def abs_le_iff by (simp add: field_simps; linarith)
    ultimately have 2: "\<bar>centred_Y_value y0 s - (\<alpha> * centred_X_value x0 s + \<gamma>)\<bar> \<le> 4 * ((\<bar>\<alpha>\<bar> + 1) * G) * u53"
      by (simp only: AG)
    from p(1,2) 1 2
    show "finite_d (centred_X (DFinite False x0) s) \<and> finite_d (centred_Y (DFinite False y0) s) \<and>
            \<bar>centred_X_value x0 s\<bar> \<le> 17 / 16 * G \<and>
            \<bar>centred_Y_value y0 s - (\<alpha> * centred_X_value x0 s + \<gamma>)\<bar> \<le> 4 * ((\<bar>\<alpha>\<bar> + 1) * G) * u53" by blast
  qed
  have mxi: "mean \<xi> xs = mean midpoint xs - x0"
    using ne by (simp add: \<xi>_def mean_diff mean_const)
  have meta: "mean \<eta> xs = mean device_time xs - y0"
    using ne by (simp add: \<eta>_def mean_diff mean_const)
  have "mean (centred_X_value x0) xs = mean (\<lambda>s. \<xi> s + d s) xs" by (simp add: d_def)
  then have mx: "mean (centred_X_value x0) xs = mean midpoint xs - x0 + mean d xs"
    by (simp add: mean_add mxi)
  have "mean (centred_Y_value y0) xs = mean (\<lambda>s. \<eta> s + e s) xs" by (simp add: e_def)
  then have my: "mean (centred_Y_value y0) xs = mean device_time xs - y0 + mean e xs"
    by (simp add: mean_add meta)
  have md: "\<bar>mean d xs\<bar> \<le> 2 * G * u53" using pw(3) ne by (intro mean_abs_bound)
  have me: "\<bar>mean e xs\<bar> \<le> 2 * (aG + G) * u53" using pw(4) ne by (intro mean_abs_bound)
  show "\<bar>mean (centred_X_value x0) xs + x0 - mean midpoint xs\<bar> \<le> 2 * G * u53"
    using md by (simp add: mx)
  show "\<bar>mean (centred_Y_value y0) xs + y0 - mean device_time xs\<bar> \<le> 2 * ((\<bar>\<alpha>\<bar> + 1) * G) * u53"
    using me by (simp add: my AG)
  have "covar (centred_X_value x0) (centred_X_value x0) xs = covar (\<lambda>s. \<xi> s + d s) (\<lambda>s. \<xi> s + d s) xs"
    by (simp add: d_def)
  then have v1: "covar (centred_X_value x0) (centred_X_value x0) xs = covar \<xi> \<xi> xs + 2 * covar \<xi> d xs + covar d d xs"
    by (simp only: covar_sum_self)
  have v2: "covar \<xi> \<xi> xs = covar midpoint midpoint xs"
    unfolding \<xi>_def by (rule covar_shift [OF ne])
  have v3: "0 \<le> covar d d xs" by (rule covar_self_nonneg [OF ne])
  have "\<bar>covar \<xi> d xs\<bar> \<le> 2 * ((33 / 32 * G) * (2 * G * u53))"
    using pw(3,5) by (intro covar_bound [OF ne])
  moreover have "2 * ((33 / 32 * G) * (2 * G * u53)) = 33 / 8 * GG * u53"
    by (simp add: GG_def algebra_simps)
  ultimately have v4: "\<bar>covar \<xi> d xs\<bar> \<le> 33 / 8 * GG * u53" by (simp only:)
  have "GG \<le> 100 * covar midpoint midpoint xs" using var by (simp add: GG_def)
  then have "GG \<le> 128 * covar (centred_X_value x0) (centred_X_value x0) xs"
    using v3 v4 GG0 unfolding v1 v2 u53_def abs_le_iff
    by (simp add: field_simps; linarith)
  then show "G * G \<le> 128 * covar (centred_X_value x0) (centred_X_value x0) xs" by (simp only: GG_def)
qed

text \<open>
  Consequences for the exact means, variance and covariance of the centred coordinates as
  they are stored: the covariance is the slope times the variance, up to a relative error of
  \<open>1088 * u53\<close>.
\<close>

lemma centred_stats:
  fixes \<alpha> \<gamma> G :: rat
  assumes ok: "centred_ok \<alpha> \<gamma> G fx fy xs"
  defines "X \<equiv> \<lambda>s. dval (fx s)" and "Y \<equiv> \<lambda>s. dval (fy s)"
  defines "vt \<equiv> covar X X xs" and "A \<equiv> \<bar>\<alpha>\<bar> + 1"
  shows "\<forall>s \<in> set xs. \<bar>Y s\<bar> \<le> 9 / 8 * (A * G)"
    and "\<bar>mean Y xs - (\<alpha> * mean X xs + \<gamma>)\<bar> \<le> 4 * (A * G) * u53"
    and "\<bar>covar X Y xs - \<alpha> * vt\<bar> \<le> 1088 * (A * vt) * u53"
    and "mean (\<lambda>s. X s * X s) xs \<le> 3 / 2 * vt"
    and "mean (\<lambda>s. \<bar>X s * Y s\<bar>) xs \<le> 6 * (A * vt)"
    and "1 / 2048 \<le> vt" and "G \<le> 512 * vt" and "G * G \<le> 128 * vt" and "vt \<le> 2 ^ 106"
proof -
  define a1 where "a1 = \<bar>\<alpha>\<bar>"
  define aG where "aG = a1 * G"
  define GG where "GG = G * G"
  define aGG where "aGG = a1 * GG"
  define av where "av = a1 * vt"
  define \<rho> where "\<rho> = (\<lambda>s. Y s - (\<alpha> * X s + \<gamma>))"
  define mx where "mx = mean X xs"
  have len: "length xs = 100" and G: "1 / 4 \<le> G" "G \<le> 2 ^ 52" and al: "a1 \<le> 100"
    and g: "\<bar>\<gamma>\<bar> \<le> (aG + G) / 32"
    and Xb: "\<And>s. s \<in> set xs \<Longrightarrow> \<bar>X s\<bar> \<le> 17 / 16 * G"
    and rb: "\<And>s. s \<in> set xs \<Longrightarrow> \<bar>\<rho> s\<bar> \<le> 4 * (aG + G) * u53"
    and mxb: "\<bar>mx\<bar> \<le> G / 32 + 2 * G * u53"
    and var: "GG \<le> 128 * vt"
    using ok unfolding centred_ok_def X_def Y_def vt_def a1_def aG_def GG_def \<rho>_def mx_def
    by (simp_all add: algebra_simps)
  have ne: "xs \<noteq> []" using len by auto
  have a1: "0 \<le> a1" by (simp add: a1_def)
  have AG: "A * G = aG + G" by (simp add: A_def aG_def a1_def algebra_simps)
  have aG0: "0 \<le> aG" using a1 G(1) by (simp add: aG_def)
  have Av: "A * vt = av + vt" by (simp add: A_def av_def a1_def algebra_simps)
  have G16: "1 / 16 \<le> GG"
  proof -
    have "(1 / 4) * (1 / 4) \<le> G * G" using G(1) by (intro mult_mono) simp_all
    then show ?thesis by (simp add: GG_def)
  qed
  have G4: "G \<le> 4 * GG"
  proof -
    have "G * (1 / 4) \<le> G * G" using G(1) by (intro mult_left_mono) simp_all
    then show ?thesis by (simp add: GG_def)
  qed
  have GGhi: "GG \<le> 2 ^ 104"
  proof -
    have "G * G \<le> 2 ^ 52 * 2 ^ 52" using G by (intro mult_mono) simp_all
    then show ?thesis by (simp add: GG_def)
  qed
  have aGG_av: "aGG \<le> 128 * av"
  proof -
    have "a1 * GG \<le> a1 * (128 * vt)" using var a1 by (intro mult_left_mono)
    then show ?thesis by (simp add: aGG_def av_def)
  qed
  have vt_lo: "1 / 2048 \<le> vt" using var G16 by linarith
  have av0: "0 \<le> av" using a1 vt_lo by (simp add: av_def)
  show "1 / 2048 \<le> vt" by (rule vt_lo)
  show "G \<le> 512 * vt" using G4 var by linarith
  show "G * G \<le> 128 * vt" using var by (simp add: GG_def)
  have Yeq: "Y s = \<alpha> * X s + \<gamma> + \<rho> s" for s by (simp add: \<rho>_def)
  have aX: "\<bar>\<alpha> * X s\<bar> \<le> 17 / 16 * aG" if "s \<in> set xs" for s
  proof -
    have "\<bar>\<alpha> * X s\<bar> \<le> a1 * (17 / 16 * G)"
      unfolding abs_mult a1_def using Xb [OF that] by (intro mult_left_mono) simp_all
    then show ?thesis by (simp add: aG_def)
  qed
  have g': "\<bar>\<gamma>\<bar> \<le> aG / 32 + G / 32" using g by (simp add: add_divide_distrib)
  show "\<forall>s \<in> set xs. \<bar>Y s\<bar> \<le> 9 / 8 * (A * G)"
  proof
    fix s assume s: "s \<in> set xs"
    define P where "P = \<alpha> * X s"
    have "\<bar>P\<bar> \<le> 17 / 16 * aG" using aX [OF s] by (simp add: P_def)
    moreover have "Y s = P + \<gamma> + \<rho> s" by (simp add: P_def \<rho>_def)
    ultimately have "\<bar>Y s\<bar> \<le> 9 / 8 * (aG + G)"
      using g' rb [OF s] aG0 G(1) unfolding u53_def abs_le_iff
      by (simp add: field_simps; linarith)
    then show "\<bar>Y s\<bar> \<le> 9 / 8 * (A * G)" by (simp only: AG)
  qed
  have "mean Y xs = mean (\<lambda>s. \<alpha> * X s + \<gamma> + \<rho> s) xs" by (simp add: \<rho>_def)
  then have my: "mean Y xs = \<alpha> * mx + \<gamma> + mean \<rho> xs"
    using ne by (simp add: mean_add mean_cmult mean_const mx_def)
  have mr: "\<bar>mean \<rho> xs\<bar> \<le> 4 * (aG + G) * u53" using rb ne by (intro mean_abs_bound)
  show "\<bar>mean Y xs - (\<alpha> * mean X xs + \<gamma>)\<bar> \<le> 4 * (A * G) * u53"
    using mr by (simp add: my AG mx_def)
  have dec: "covar X Y xs = \<alpha> * covar X X xs + covar X \<rho> xs"
    by (rule covar_decomp [where c = \<gamma>, OF ne]) (simp add: \<rho>_def)
  have ce: "2 * (17 / 16 * G * (4 * (aG + G) * u53)) = 17 / 2 * (aGG + GG) * u53"
    by (simp add: aG_def aGG_def GG_def algebra_simps)
  have "\<bar>covar X \<rho> xs\<bar> \<le> 2 * (17 / 16 * G * (4 * (aG + G) * u53))"
    using Xb rb by (intro covar_bound [OF ne])
  then have cr: "\<bar>covar X \<rho> xs\<bar> \<le> 17 / 2 * (aGG + GG) * u53" by (simp only: ce)
  have "\<bar>covar X \<rho> xs\<bar> \<le> 1088 * (av + vt) * u53"
    using cr aGG_av var unfolding u53_def abs_le_iff by (simp add: field_simps; linarith)
  then show "\<bar>covar X Y xs - \<alpha> * vt\<bar> \<le> 1088 * (A * vt) * u53"
    by (simp add: dec vt_def [symmetric] Av)
  have mx16: "\<bar>mx\<bar> \<le> G / 16" using mxb G(1) unfolding u53_def by (simp; linarith)
  have "\<bar>mx\<bar> * \<bar>mx\<bar> \<le> (G / 16) * (G / 16)" using mx16 G(1) by (intro mult_mono) simp_all
  then have mx2: "mx * mx \<le> GG / 256" by (simp add: GG_def)
  have qxx: "mean (\<lambda>s. X s * X s) xs = vt + mx * mx"
    by (simp add: vt_def covar_def mx_def)
  show q32: "mean (\<lambda>s. X s * X s) xs \<le> 3 / 2 * vt" using mx2 var unfolding qxx by linarith
  have "mean (\<lambda>s. X s * X s) xs \<le> mean (\<lambda>s. (17 / 16 * G) * (17 / 16 * G)) xs"
  proof (rule mean_mono)
    fix s assume "s \<in> set xs"
    then have "\<bar>X s\<bar> * \<bar>X s\<bar> \<le> (17 / 16 * G) * (17 / 16 * G)"
      using Xb G(1) by (intro mult_mono) simp_all
    then show "X s * X s \<le> (17 / 16 * G) * (17 / 16 * G)" by simp
  qed
  also have "\<dots> = 289 / 256 * GG" using ne by (simp add: mean_const GG_def)
  finally have "vt + mx * mx \<le> 289 / 256 * GG" unfolding qxx .
  moreover have "0 \<le> mx * mx" by simp
  ultimately show "vt \<le> 2 ^ 106" using GGhi by (simp; linarith)
  define K where "K = 17 / 16 * G * (aG / 32 + G / 32 + 4 * (aG + G) * u53)"
  have pw: "\<bar>X s * Y s\<bar> \<le> a1 * (X s * X s) + K" if s: "s \<in> set xs" for s
  proof -
    have "X s * Y s = \<alpha> * (X s * X s) + X s * (\<gamma> + \<rho> s)"
      by (simp add: \<rho>_def algebra_simps)
    moreover have "\<bar>\<alpha> * (X s * X s)\<bar> = a1 * (X s * X s)"
      by (simp add: abs_mult a1_def)
    moreover have "\<bar>X s * (\<gamma> + \<rho> s)\<bar> \<le> K"
    proof -
      have "\<bar>\<gamma> + \<rho> s\<bar> \<le> aG / 32 + G / 32 + 4 * (aG + G) * u53"
        using g' rb [OF s] by linarith
      then show ?thesis
        unfolding abs_mult K_def using Xb [OF s] G(1) by (intro mult_mono) simp_all
    qed
    ultimately show ?thesis using abs_triangle_ineq [of "\<alpha> * (X s * X s)" "X s * (\<gamma> + \<rho> s)"]
      by simp
  qed
  have "mean (\<lambda>s. \<bar>X s * Y s\<bar>) xs \<le> mean (\<lambda>s. a1 * (X s * X s) + K) xs"
    using pw by (rule mean_mono)
  also have "\<dots> = a1 * mean (\<lambda>s. X s * X s) xs + K"
    using ne by (simp add: mean_add mean_cmult mean_const)
  also have "\<dots> \<le> a1 * (3 / 2 * vt) + K"
    using q32 a1 by (intro add_right_mono mult_left_mono)
  finally have m1: "mean (\<lambda>s. \<bar>X s * Y s\<bar>) xs \<le> 3 / 2 * av + K" by (simp add: av_def)
  have K: "K = 17 / 512 * aGG + 17 / 512 * GG + 17 / 4 * (aGG + GG) * u53"
    by (simp add: K_def aG_def aGG_def GG_def algebra_simps)
  have "mean (\<lambda>s. \<bar>X s * Y s\<bar>) xs \<le> 6 * (av + vt)"
    using m1 aGG_av var av0 vt_lo unfolding K u53_def
    by (simp add: field_simps; linarith)
  then show "mean (\<lambda>s. \<bar>X s * Y s\<bar>) xs \<le> 6 * (A * vt)" by (simp only: Av)
qed

text \<open>
  The double-precision computation of lines 110 to 114 on these coordinates: the four means,
  then the covariance and the variance, each with its error bound.
\<close>

lemma float_means:
  fixes \<alpha> \<gamma> G :: rat
  assumes ok: "centred_ok \<alpha> \<gamma> G fx fy xs"
  defines "X \<equiv> \<lambda>s. dval (fx s)" and "Y \<equiv> \<lambda>s. dval (fy s)"
  defines "vt \<equiv> covar X X xs" and "A \<equiv> \<bar>\<alpha>\<bar> + 1"
  defines "inv_n \<equiv> fdiv d_one (i2d 100)"
  shows "approx (fmul (fsum fx xs d_zero) inv_n) (mean X xs) (219 * G * u53)"
    and "approx (fmul (fsum fy xs d_zero) inv_n) (mean Y xs) (232 * (A * G) * u53)"
    and "approx (fmul inv_n (fsum (\<lambda>s. fmul (fx s) (fx s)) xs d_zero))
           (mean (\<lambda>s. X s * X s) xs) (309 * vt * u53)"
    and "approx (fmul inv_n (fsum (\<lambda>s. fmul (fx s) (fy s)) xs d_zero))
           (mean (\<lambda>s. X s * Y s) xs) (1236 * (A * vt) * u53)"
proof -
  define AG where "AG = A * G"
  define Av where "Av = A * vt"
  have len: "length xs = 100" and G: "1 / 4 \<le> G" "G \<le> 2 ^ 52" and al: "\<bar>\<alpha>\<bar> \<le> 100"
    and fin: "\<And>s. s \<in> set xs \<Longrightarrow> finite_d (fx s)" "\<And>s. s \<in> set xs \<Longrightarrow> finite_d (fy s)"
    and Xb: "\<And>s. s \<in> set xs \<Longrightarrow> \<bar>X s\<bar> \<le> 17 / 16 * G"
    using ok unfolding centred_ok_def X_def by simp_all
  note cs = centred_stats [OF ok]
  have Yb: "\<And>s. s \<in> set xs \<Longrightarrow> \<bar>Y s\<bar> \<le> 9 / 8 * AG"
    using cs(1) by (simp add: Y_def AG_def A_def)
  have st: "mean (\<lambda>s. X s * X s) xs \<le> 3 / 2 * vt" "mean (\<lambda>s. \<bar>X s * Y s\<bar>) xs \<le> 6 * Av"
    "1 / 2048 \<le> vt" "vt \<le> 2 ^ 106"
    using cs(4,5,6,9) by (simp_all add: X_def Y_def vt_def Av_def A_def)
  have ne: "xs \<noteq> []" using len by auto
  have A: "1 \<le> A" "A \<le> 101" using al by (simp_all add: A_def)
  have AG: "1 / 4 \<le> AG" "AG \<le> 101 * 2 ^ 52"
  proof -
    have "1 * (1 / 4) \<le> A * G" using A(1) G(1) by (intro mult_mono) simp_all
    then show "1 / 4 \<le> AG" by (simp add: AG_def)
    have "A * G \<le> 101 * 2 ^ 52" using A G by (intro mult_mono) simp_all
    then show "AG \<le> 101 * 2 ^ 52" by (simp add: AG_def)
  qed
  have Av: "1 / 2048 \<le> Av" "Av \<le> 101 * 2 ^ 106"
  proof -
    have "1 * (1 / 2048) \<le> A * vt" using A(1) st(3) by (intro mult_mono) simp_all
    then show "1 / 2048 \<le> Av" by (simp add: Av_def)
    have "A * vt \<le> 101 * 2 ^ 106" using A st(3,4) by (intro mult_mono) simp_all
    then show "Av \<le> 101 * 2 ^ 106" by (simp add: Av_def)
  qed
  have big: "(2 :: rat) ^ 120 < pow2 1023" by (simp add: pow2_def)
  have tx: "\<forall>s \<in> set xs. finite_d (fx s) \<and> \<bar>dval (fx s) - X s\<bar> \<le> \<bar>X s\<bar> * u53 + tau"
    using fin(1) by (simp add: X_def)
  have "mean (\<lambda>s. \<bar>X s\<bar>) xs \<le> mean (\<lambda>s. 17 / 16 * G) xs" using Xb by (rule mean_mono)
  then have Bx: "mean (\<lambda>s. \<bar>X s\<bar>) xs \<le> 17 / 16 * G" using ne by (simp add: mean_const)
  have "approx (fmul inv_n (fsum fx xs d_zero)) (mean X xs) (206 * (17 / 16 * G) * u53)"
    unfolding inv_n_def using G by (intro fmean_approx [OF len tx Bx]) (simp; linarith)+
  moreover have "206 * (17 / 16 * G) * u53 \<le> 219 * G * u53"
    using G(1) unfolding u53_def by (simp; linarith)
  ultimately show "approx (fmul (fsum fx xs d_zero) inv_n) (mean X xs) (219 * G * u53)"
    unfolding fmul_commute [of _ inv_n] by (rule approx_weaken)
  have ty: "\<forall>s \<in> set xs. finite_d (fy s) \<and> \<bar>dval (fy s) - Y s\<bar> \<le> \<bar>Y s\<bar> * u53 + tau"
    using fin(2) by (simp add: Y_def)
  have "mean (\<lambda>s. \<bar>Y s\<bar>) xs \<le> mean (\<lambda>s. 9 / 8 * AG) xs" using Yb by (rule mean_mono)
  then have By: "mean (\<lambda>s. \<bar>Y s\<bar>) xs \<le> 9 / 8 * AG" using ne by (simp add: mean_const)
  have "approx (fmul inv_n (fsum fy xs d_zero)) (mean Y xs) (206 * (9 / 8 * AG) * u53)"
    unfolding inv_n_def using AG by (intro fmean_approx [OF len ty By]) (simp; linarith)+
  moreover have "206 * (9 / 8 * AG) * u53 \<le> 232 * AG * u53"
    using AG(1) unfolding u53_def by (simp; linarith)
  ultimately show "approx (fmul (fsum fy xs d_zero) inv_n) (mean Y xs) (232 * AG * u53)"
    unfolding fmul_commute [of _ inv_n] by (rule approx_weaken)
  have XX: "\<bar>X s * X s\<bar> < pow2 1023" and XY: "\<bar>X s * Y s\<bar> < pow2 1023" if s: "s \<in> set xs" for s
  proof -
    have "\<bar>X s\<bar> * \<bar>X s\<bar> \<le> (17 / 16 * G) * (17 / 16 * G)"
      using Xb [OF s] G(1) by (intro mult_mono) simp_all
    also have "\<dots> \<le> (17 / 16 * 2 ^ 52) * (17 / 16 * 2 ^ 52)"
      using G by (intro mult_mono) simp_all
    finally show "\<bar>X s * X s\<bar> < pow2 1023" using big by (simp add: abs_mult)
    have "\<bar>X s\<bar> * \<bar>Y s\<bar> \<le> (17 / 16 * G) * (9 / 8 * AG)"
      using Xb [OF s] Yb [OF s] G(1) AG(1) by (intro mult_mono) simp_all
    also have "\<dots> \<le> (17 / 16 * 2 ^ 52) * (9 / 8 * (101 * 2 ^ 52))"
      using G AG by (intro mult_mono) simp_all
    finally show "\<bar>X s * Y s\<bar> < pow2 1023" using big by (simp add: abs_mult)
  qed
  have txx: "\<forall>s \<in> set xs. finite_d (fmul (fx s) (fx s)) \<and>
               \<bar>dval (fmul (fx s) (fx s)) - X s * X s\<bar> \<le> \<bar>X s * X s\<bar> * u53 + tau"
    unfolding X_def
  proof
    fix s assume s: "s \<in> set xs"
    show "finite_d (fmul (fx s) (fx s)) \<and>
          \<bar>dval (fmul (fx s) (fx s)) - dval (fx s) * dval (fx s)\<bar>
            \<le> \<bar>dval (fx s) * dval (fx s)\<bar> * u53 + tau"
      by (rule fmul_val [OF fin(1) [OF s] fin(1) [OF s] XX [OF s, unfolded X_def]])
  qed
  have Bxx: "mean (\<lambda>s. \<bar>X s * X s\<bar>) xs \<le> 3 / 2 * vt" using st(1) by simp
  show "approx (fmul inv_n (fsum (\<lambda>s. fmul (fx s) (fx s)) xs d_zero))
           (mean (\<lambda>s. X s * X s) xs) (309 * vt * u53)"
    using fmean_approx [OF len txx Bxx] st(3,4) unfolding inv_n_def by simp
  have txy: "\<forall>s \<in> set xs. finite_d (fmul (fx s) (fy s)) \<and>
               \<bar>dval (fmul (fx s) (fy s)) - X s * Y s\<bar> \<le> \<bar>X s * Y s\<bar> * u53 + tau"
    unfolding X_def Y_def
  proof
    fix s assume s: "s \<in> set xs"
    show "finite_d (fmul (fx s) (fy s)) \<and>
          \<bar>dval (fmul (fx s) (fy s)) - dval (fx s) * dval (fy s)\<bar>
            \<le> \<bar>dval (fx s) * dval (fy s)\<bar> * u53 + tau"
      by (rule fmul_val [OF fin(1) [OF s] fin(2) [OF s] XY [OF s, unfolded X_def Y_def]])
  qed
  show "approx (fmul inv_n (fsum (\<lambda>s. fmul (fx s) (fy s)) xs d_zero))
           (mean (\<lambda>s. X s * Y s) xs) (1236 * Av * u53)"
    using fmean_approx [OF len txy st(2)] Av unfolding inv_n_def by simp
qed

lemma float_cov:
  fixes \<alpha> \<gamma> G :: rat
  assumes ok: "centred_ok \<alpha> \<gamma> G fx fy xs"
  defines "X \<equiv> \<lambda>s. dval (fx s)" and "Y \<equiv> \<lambda>s. dval (fy s)"
  defines "vt \<equiv> covar X X xs" and "A \<equiv> \<bar>\<alpha>\<bar> + 1"
  defines "inv_n \<equiv> fdiv d_one (i2d 100)"
  defines "mean_x \<equiv> fmul (fsum fx xs d_zero) inv_n"
    and "mean_y \<equiv> fmul (fsum fy xs d_zero) inv_n"
  shows "approx (fsub (fmul inv_n (fsum (\<lambda>s. fmul (fx s) (fy s)) xs d_zero)) (fmul mean_x mean_y))
           (covar X Y xs) (3920 * (A * vt) * u53)"
    and "approx (fsub (fmul inv_n (fsum (\<lambda>s. fmul (fx s) (fx s)) xs d_zero)) (fmul mean_x mean_x))
           vt (2065 * vt * u53)"
proof -
  define a1 where "a1 = \<bar>\<alpha>\<bar>"
  define aG where "aG = a1 * G"
  define GG where "GG = G * G"
  define aGG where "aGG = a1 * GG"
  define av where "av = a1 * vt"
  define mx where "mx = mean X xs"
  define my where "my = mean Y xs"
  define qxx where "qxx = mean (\<lambda>s. X s * X s) xs"
  define qxy where "qxy = mean (\<lambda>s. X s * Y s) xs"
  define ct where "ct = covar X Y xs"
  have AG: "(\<bar>\<alpha>\<bar> + 1) * G = aG + G" by (simp add: aG_def a1_def algebra_simps)
  have Av: "(\<bar>\<alpha>\<bar> + 1) * vt = av + vt" by (simp add: av_def a1_def algebra_simps)
  have G: "1 / 4 \<le> G" "G \<le> 2 ^ 52" and al: "a1 \<le> 100"
    and g: "\<bar>\<gamma>\<bar> \<le> (aG + G) / 32"
    and mxb: "\<bar>mx\<bar> \<le> G / 32 + 2 * G * u53"
    using ok unfolding centred_ok_def X_def a1_def mx_def aG_def by (simp_all add: algebra_simps)
  note cs = centred_stats [OF ok]
  have "\<bar>my - (\<alpha> * mx + \<gamma>)\<bar> \<le> 4 * ((\<bar>\<alpha>\<bar> + 1) * G) * u53"
    using cs(2) unfolding my_def mx_def X_def Y_def .
  then have myb: "\<bar>my - (\<alpha> * mx + \<gamma>)\<bar> \<le> 4 * (aG + G) * u53" by (simp only: AG)
  have "\<bar>ct - \<alpha> * vt\<bar> \<le> 1088 * ((\<bar>\<alpha>\<bar> + 1) * vt) * u53"
    using cs(3) unfolding ct_def vt_def X_def Y_def .
  then have ctb: "\<bar>ct - \<alpha> * vt\<bar> \<le> 1088 * (av + vt) * u53" by (simp only: Av)
  have vt: "1 / 2048 \<le> vt" "G \<le> 512 * vt" "GG \<le> 128 * vt" "vt \<le> 2 ^ 106"
    using cs(6,7,8,9) unfolding vt_def X_def GG_def by blast+
  note fm = float_means [OF ok]
  have Mx: "approx mean_x mx (219 * G * u53)"
    using fm(1) unfolding mean_x_def inv_n_def mx_def X_def .
  have "approx mean_y my (232 * ((\<bar>\<alpha>\<bar> + 1) * G) * u53)"
    using fm(2) unfolding mean_y_def inv_n_def my_def Y_def .
  then have My: "approx mean_y my (232 * (aG + G) * u53)" by (simp only: AG)
  have Qxx: "approx (fmul inv_n (fsum (\<lambda>s. fmul (fx s) (fx s)) xs d_zero)) qxx (309 * vt * u53)"
    using fm(3) unfolding inv_n_def qxx_def vt_def X_def .
  have "approx (fmul inv_n (fsum (\<lambda>s. fmul (fx s) (fy s)) xs d_zero)) qxy
          (1236 * ((\<bar>\<alpha>\<bar> + 1) * vt) * u53)"
    using fm(4) unfolding inv_n_def qxy_def vt_def X_def Y_def .
  then have Qxy: "approx (fmul inv_n (fsum (\<lambda>s. fmul (fx s) (fy s)) xs d_zero)) qxy
                (1236 * (av + vt) * u53)" by (simp only: Av)
  have a1: "0 \<le> a1" by (simp add: a1_def)
  have aG: "aG \<le> 512 * av" "0 \<le> aG"
  proof -
    have "a1 * G \<le> a1 * (512 * vt)" using vt(2) a1 by (intro mult_left_mono)
    then show "aG \<le> 512 * av" by (simp add: aG_def av_def)
    show "0 \<le> aG" using a1 G(1) by (simp add: aG_def)
  qed
  have aGG: "aGG \<le> 128 * av" "0 \<le> aGG"
  proof -
    have "a1 * GG \<le> a1 * (128 * vt)" using vt(3) a1 by (intro mult_left_mono)
    then show "aGG \<le> 128 * av" by (simp add: aGG_def av_def)
    show "0 \<le> aGG" using a1 by (simp add: aGG_def GG_def)
  qed
  have av: "a1 \<le> 2048 * av" "0 \<le> av" "av \<le> 100 * 2 ^ 106"
  proof -
    have "a1 * (1 / 2048) \<le> a1 * vt" using vt(1) a1 by (intro mult_left_mono)
    then show "a1 \<le> 2048 * av" by (simp add: av_def)
    show "0 \<le> av" using a1 vt(1) by (simp add: av_def)
    have "a1 * vt \<le> 100 * 2 ^ 106" using al vt(1,4) a1 by (intro mult_mono) simp_all
    then show "av \<le> 100 * 2 ^ 106" by (simp add: av_def)
  qed
  have GG0: "0 \<le> GG" by (simp add: GG_def)
  have aGhi: "aG \<le> 100 * 2 ^ 52"
  proof -
    have "a1 * G \<le> 100 * 2 ^ 52" using al G a1 by (intro mult_mono) simp_all
    then show ?thesis by (simp add: aG_def)
  qed
  have big: "(2 :: rat) ^ 120 < pow2 1023" by (simp add: pow2_def)
  define P where "P = \<alpha> * mx"
  have "\<bar>P\<bar> \<le> a1 * (G / 32 + 2 * G * u53)"
    unfolding P_def abs_mult a1_def using mxb by (intro mult_left_mono) simp_all
  then have Pb: "\<bar>P\<bar> \<le> aG / 32 + 2 * aG * u53" by (simp add: aG_def algebra_simps)
  have g': "\<bar>\<gamma>\<bar> \<le> aG / 32 + G / 32" using g by (simp add: add_divide_distrib)
  have myb': "\<bar>my - (P + \<gamma>)\<bar> \<le> 4 * (aG + G) * u53" using myb by (simp add: P_def)
  define Bx where "Bx = G / 32 + 221 * G * u53"
  define By where "By = aG / 16 + G / 32 + 238 * aG * u53 + 236 * G * u53"
  have bx: "\<bar>mx\<bar> + 219 * G * u53 \<le> Bx" using mxb unfolding Bx_def by linarith
  have "\<bar>my\<bar> \<le> aG / 16 + G / 32 + 6 * aG * u53 + 4 * G * u53"
    using myb' Pb g' unfolding abs_le_iff by (simp add: field_simps; linarith)
  then have byb: "\<bar>my\<bar> + 232 * (aG + G) * u53 \<le> By"
    unfolding By_def by (simp add: field_simps; linarith)
  have Bx1: "0 \<le> Bx" "Bx \<le> 2 ^ 52" using G unfolding Bx_def u53_def by (simp; linarith)+
  have By1: "0 \<le> By" "By \<le> 2 ^ 60"
    using aG(2) aGhi G unfolding By_def u53_def by (simp; linarith)+
  have "Bx * By \<le> 2 ^ 52 * 2 ^ 60" using Bx1 By1 by (intro mult_mono) simp_all
  then have ov: "Bx * By < pow2 1023" using big by (simp; linarith)
  have "Bx * Bx \<le> 2 ^ 52 * 2 ^ 52" using Bx1 by (intro mult_mono) simp_all
  then have ovx: "Bx * Bx < pow2 1023" using big by (simp; linarith)
  define eP where "eP = Bx * (232 * (aG + G) * u53) + By * (219 * G * u53) + Bx * By * u53 + tau"
  define eQ where "eQ = Bx * (219 * G * u53) + Bx * (219 * G * u53) + Bx * Bx * u53 + tau"
  have Pxy: "approx (fmul mean_x mean_y) (mx * my) eP"
    unfolding eP_def by (rule approx_fmul [OF Mx My bx byb ov])
  have Pxx: "approx (fmul mean_x mean_x) (mx * mx) eQ"
    unfolding eQ_def by (rule approx_fmul [OF Mx Mx bx bx ovx])
  have eP: "eP = 10721 / 512 * aGG * u53 + 14433 / 1024 * GG * u53 +
      413661 / 4 * aGG * u53 * u53 + 3295049 / 32 * GG * u53 * u53 +
      52598 * aGG * u53 * u53 * u53 + 52156 * GG * u53 * u53 * u53 + tau"
    unfolding eP_def Bx_def By_def aGG_def GG_def aG_def by (simp add: algebra_simps)
  have eQ: "eQ = 14017 / 1024 * GG * u53 + 1548989 / 16 * GG * u53 * u53 +
      48841 * GG * u53 * u53 * u53 + tau"
    unfolding eQ_def Bx_def GG_def by (simp add: algebra_simps)
  have ePb: "eP \<le> 2681 * (av + vt) * u53" "0 \<le> eP"
    using aGG av(2) vt(1,3) GG0 tau_tiny tau_nonneg unfolding eP u53_def
    by (simp add: field_simps; linarith)+
  have eQb: "eQ \<le> 1753 * vt * u53" "0 \<le> eQ"
    using vt(1,3) GG0 tau_tiny tau_nonneg unfolding eQ u53_def
    by (simp add: field_simps; linarith)+
  have ct: "ct = qxy - mx * my" by (simp add: ct_def covar_def qxy_def mx_def my_def)
  have vq: "vt = qxx - mx * mx" by (simp add: vt_def covar_def qxx_def mx_def)
  define R where "R = \<alpha> * vt"
  have R: "\<bar>R\<bar> = av" using vt(1) by (simp add: R_def av_def a1_def abs_mult)
  have "\<bar>ct\<bar> \<le> av + 1088 * (av + vt) * u53" using ctb R unfolding R_def [symmetric] by linarith
  then have b1: "\<bar>qxy - mx * my\<bar> + 1236 * (av + vt) * u53 + eP \<le> 2 * (av + vt)"
    using ePb(1) av(2) vt(1) unfolding ct u53_def by (simp add: field_simps; linarith)
  have o1: "2 * (av + vt) < pow2 1023" using av(3) vt(4) big by (simp; linarith)
  from approx_fsub [OF Qxy Pxy b1 o1]
  have "approx (fsub (fmul inv_n (fsum (\<lambda>s. fmul (fx s) (fy s)) xs d_zero)) (fmul mean_x mean_y))
          ct (1236 * (av + vt) * u53 + eP + 2 * (av + vt) * u53 + tau)"
    by (simp only: ct)
  moreover have "1236 * (av + vt) * u53 + eP + 2 * (av + vt) * u53 + tau \<le> 3920 * (av + vt) * u53"
    using ePb(1) av(2) vt(1) tau_tiny unfolding u53_def by (simp add: field_simps; linarith)
  ultimately have "approx (fsub (fmul inv_n (fsum (\<lambda>s. fmul (fx s) (fy s)) xs d_zero))
      (fmul mean_x mean_y)) ct (3920 * (av + vt) * u53)"
    by (rule approx_weaken)
  then show "approx (fsub (fmul inv_n (fsum (\<lambda>s. fmul (fx s) (fy s)) xs d_zero))
      (fmul mean_x mean_y)) (covar X Y xs) (3920 * (A * vt) * u53)"
    by (simp only: ct_def A_def Av)
  have b2: "\<bar>qxx - mx * mx\<bar> + 309 * vt * u53 + eQ \<le> 2 * vt"
    using eQb(1) vt(1) unfolding vq [symmetric] u53_def by (simp add: field_simps; linarith)
  have o2: "2 * vt < pow2 1023" using vt(4) big by (simp; linarith)
  from approx_fsub [OF Qxx Pxx b2 o2]
  have "approx (fsub (fmul inv_n (fsum (\<lambda>s. fmul (fx s) (fx s)) xs d_zero)) (fmul mean_x mean_x))
          vt (309 * vt * u53 + eQ + 2 * vt * u53 + tau)"
    by (simp only: vq [symmetric])
  moreover have "309 * vt * u53 + eQ + 2 * vt * u53 + tau \<le> 2065 * vt * u53"
    using eQb(1) vt(1) tau_tiny unfolding u53_def by (simp add: field_simps; linarith)
  ultimately show "approx (fsub (fmul inv_n (fsum (\<lambda>s. fmul (fx s) (fx s)) xs d_zero))
      (fmul mean_x mean_x)) vt (2065 * vt * u53)"
    by (rule approx_weaken)
qed

text \<open>
  The quotient of line 115 is within \<open>(\<bar>\<alpha>\<bar> + 1) / 2 ^ 40\<close> of the slope of the line.
\<close>

lemma float_slope:
  fixes \<alpha> \<gamma> G :: rat
  assumes ok: "centred_ok \<alpha> \<gamma> G fx fy xs"
  defines "inv_n \<equiv> fdiv d_one (i2d 100)"
  defines "mean_x \<equiv> fmul (fsum fx xs d_zero) inv_n"
    and "mean_y \<equiv> fmul (fsum fy xs d_zero) inv_n"
  defines "cov \<equiv> fsub (fmul inv_n (fsum (\<lambda>s. fmul (fx s) (fy s)) xs d_zero)) (fmul mean_x mean_y)"
    and "v \<equiv> fsub (fmul inv_n (fsum (\<lambda>s. fmul (fx s) (fx s)) xs d_zero)) (fmul mean_x mean_x)"
  shows "approx (fdiv cov v) \<alpha> ((\<bar>\<alpha>\<bar> + 1) / 2 ^ 40)"
proof -
  define a1 where "a1 = \<bar>\<alpha>\<bar>"
  define A where "A = a1 + 1"
  define vt where "vt = covar (\<lambda>s. dval (fx s)) (\<lambda>s. dval (fx s)) xs"
  define ct where "ct = covar (\<lambda>s. dval (fx s)) (\<lambda>s. dval (fy s)) xs"
  define Av where "Av = A * vt"
  define C where "C = dval cov"
  define V where "V = dval v"
  define AV where "AV = A * V"
  have al: "a1 \<le> 100" using ok unfolding centred_ok_def a1_def by simp
  have a1: "0 \<le> a1" by (simp add: a1_def)
  have A: "1 \<le> A" "A \<le> 101" using al a1 by (simp_all add: A_def)
  note cs = centred_stats [OF ok]
  note fc = float_cov [OF ok]
  have vt: "1 / 2048 \<le> vt" using cs(6) unfolding vt_def .
  have ctb: "\<bar>ct - \<alpha> * vt\<bar> \<le> 1088 * Av * u53"
    using cs(3) unfolding ct_def vt_def Av_def A_def a1_def .
  have fcov: "finite_d cov" and Cb: "\<bar>C - ct\<bar> \<le> 3920 * Av * u53"
    using fc(1) unfolding approx_def cov_def mean_x_def mean_y_def inv_n_def C_def ct_def
      Av_def A_def a1_def vt_def by blast+
  have fv: "finite_d v" and Vb: "\<bar>V - vt\<bar> \<le> 2065 * vt * u53"
    using fc(2) unfolding approx_def v_def mean_x_def inv_n_def V_def vt_def by blast+
  have Av: "1 / 2048 \<le> Av" "vt \<le> Av"
  proof -
    have "1 * vt \<le> A * vt" using A(1) vt by (intro mult_right_mono) simp_all
    then show "vt \<le> Av" by (simp add: Av_def)
    with vt show "1 / 2048 \<le> Av" by linarith
  qed
  have Vlo: "vt - 2065 * vt * u53 \<le> V" using Vb by linarith
  have Vpos: "0 < V" using Vlo vt unfolding u53_def by (simp add: field_simps; linarith)
  have "A * (vt - 2065 * vt * u53) \<le> A * V" using Vlo A(1) by (intro mult_left_mono) simp_all
  then have AVlo: "Av - 2065 * Av * u53 \<le> AV" by (simp add: Av_def AV_def algebra_simps)
  define D where "D = \<alpha> * (V - vt)"
  have "\<bar>D\<bar> \<le> a1 * (2065 * vt * u53)"
    unfolding D_def abs_mult a1_def using Vb by (intro mult_left_mono) simp_all
  moreover have "a1 * (2065 * vt * u53) \<le> A * (2065 * vt * u53)"
    using vt by (intro mult_right_mono) (simp_all add: A_def)
  ultimately have "\<bar>D\<bar> \<le> A * (2065 * vt * u53)" by (rule order_trans)
  moreover have "A * (2065 * vt * u53) = 2065 * Av * u53" by (simp add: Av_def)
  ultimately have Db: "\<bar>D\<bar> \<le> 2065 * Av * u53" by (simp only:)
  have "C - \<alpha> * V = (C - ct) + (ct - \<alpha> * vt) - D" by (simp add: D_def algebra_simps)
  then have "\<bar>C - \<alpha> * V\<bar> \<le> 7073 * Av * u53"
    using Cb ctb Db unfolding abs_le_iff by (simp add: field_simps; linarith)
  then have num: "\<bar>C - \<alpha> * V\<bar> \<le> 7074 * AV * u53"
    using AVlo Av(1) unfolding u53_def by (simp add: field_simps; linarith)
  define q where "q = C / V"
  have "q - \<alpha> = (C - \<alpha> * V) / V" using Vpos by (simp add: q_def field_simps)
  then have "\<bar>q - \<alpha>\<bar> = \<bar>C - \<alpha> * V\<bar> / V" using Vpos by simp
  also have "\<dots> \<le> (7074 * AV * u53) / V" using num Vpos by (intro divide_right_mono) simp_all
  also have "\<dots> = 7074 * A * u53" using Vpos by (simp add: AV_def)
  finally have qa: "\<bar>q - \<alpha>\<bar> \<le> 7074 * A * u53" .
  then have qb: "\<bar>q\<bar> \<le> 2 * A"
    using A unfolding A_def a1_def u53_def abs_le_iff by (simp add: field_simps; linarith)
  have "(2 :: rat) ^ 10 < pow2 1023" by (simp add: pow2_def)
  with qb A(2) have "\<bar>dval cov / dval v\<bar> < pow2 1023"
    unfolding q_def C_def V_def by (simp; linarith)
  from fdiv_val [OF fcov fv _ this] Vpos
  have fa: "finite_d (fdiv cov v)" and ea: "\<bar>dval (fdiv cov v) - q\<bar> \<le> \<bar>q\<bar> * u53 + tau"
    by (simp_all add: q_def C_def V_def)
  have "\<bar>q\<bar> * u53 \<le> 2 * A * u53" using qb by (intro mult_right_mono) simp_all
  with ea have "\<bar>dval (fdiv cov v) - q\<bar> \<le> 2 * A * u53 + tau" by linarith
  then have "\<bar>dval (fdiv cov v) - \<alpha>\<bar> \<le> A / 2 ^ 40"
    using qa A(1) tau_tiny unfolding u53_def abs_le_iff by (simp add: field_simps; linarith)
  with fa show ?thesis by (simp add: approx_def A_def a1_def)
qed

text \<open>
  The intercept of lines 116 and 119, with its two conversions to \<open>int64_t\<close>.
\<close>

lemma d2i_val:
  assumes "finite_d x" and "\<bar>dval x\<bar> < 2 ^ 63"
  shows "sint (d2i x) = trunc (dval x)"
proof -
  obtain s p where x: "x = DFinite s p" "0 \<le> p" using assms(1) by (cases x) auto
  have p: "p < 2 ^ 63" using assms(2) x(2) by (simp add: x abs_signed_val)
  define T where "T = trunc (signed_val s p)"
  have d: "d2i x = word_of_int T" unfolding x T_def by (rule d2i_in_range [OF x(2) p])
  have "\<bar>of_int T :: rat\<bar> \<le> p"
    using trunc_abs_le [of "signed_val s p"] x(2) by (simp add: T_def abs_signed_val)
  then have "\<bar>of_int T :: rat\<bar> < of_int (2 ^ 63)" using p by simp
  then have "\<bar>T\<bar> < 2 ^ 63" by (simp only: of_int_abs [symmetric] of_int_less_iff)
  then have "sint (word_of_int T :: i64) = T" by (intro sint_word_of_int_i64) linarith+
  then have "sint (d2i x) = T" by (simp only: d)
  then show ?thesis by (simp only: T_def x dval.simps)
qed

lemma approx_nonneg: "0 \<le> q \<Longrightarrow> approx (DFinite False q) q 0"
  by (simp add: approx_def signed_val_def)

lemma i2d_approx:
  fixes B :: rat
  assumes "\<bar>of_int k\<bar> \<le> B" and "B < pow2 1023"
  shows "approx (i2d k) (of_int k) (B * u53 + tau)"
proof -
  define r :: rat where "r = of_int k"
  have "\<bar>r\<bar> < pow2 1023" using assms by (simp add: r_def)
  from rnd_val [OF this]
  have f: "finite_d (rnd (r < 0) \<bar>r\<bar>)" and e: "\<bar>dval (rnd (r < 0) \<bar>r\<bar>) - r\<bar> \<le> \<bar>r\<bar> * u53 + tau"
    by blast+
  have i: "i2d k = rnd (r < 0) \<bar>r\<bar>" by (simp add: i2d_def r_def)
  have "\<bar>r\<bar> * u53 \<le> B * u53" using assms(1) by (intro mult_right_mono) (simp_all add: r_def)
  with e have "\<bar>dval (rnd (r < 0) \<bar>r\<bar>) - r\<bar> \<le> B * u53 + tau" by linarith
  with f show ?thesis unfolding approx_def i r_def by blast
qed

lemma float_intercept:
  fixes \<alpha> \<beta> \<gamma> G M x0 y0 MX MY :: rat
  assumes ok: "centred_ok \<alpha> \<gamma> G fx fy xs"
    and sl: "approx a' \<alpha> ((\<bar>\<alpha>\<bar> + 1) / 2 ^ 40)"
    and GM: "G \<le> M" and M: "M \<le> 2 ^ 52"
    and x0: "0 \<le> x0" "x0 \<le> 2 * M" and y0: "0 \<le> y0" "y0 \<le> 2 * M"
    and MX: "0 \<le> MX" "MX \<le> M" and MY: "MY = \<alpha> * MX + \<beta>"
    and kx: "\<bar>mean (\<lambda>s. dval (fx s)) xs + x0 - MX\<bar> \<le> 2 * G * u53"
    and ky: "\<bar>mean (\<lambda>s. dval (fy s)) xs + y0 - MY\<bar> \<le> 2 * ((\<bar>\<alpha>\<bar> + 1) * G) * u53"
  defines "inv_n \<equiv> fdiv d_one (i2d 100)"
  defines "mean_x \<equiv> fmul (fsum fx xs d_zero) inv_n"
    and "mean_y \<equiv> fmul (fsum fy xs d_zero) inv_n"
  shows "\<bar>of_int (sint (d2i (fsub (fadd (DFinite False y0) (fsub mean_y (fmul a' mean_x)))
            (i2d (sint (d2i (fmul a' (DFinite False x0)))))))) - \<beta>\<bar>
         \<le> 17 * ((\<bar>\<alpha>\<bar> + 1) * M) / 2 ^ 44 + 2"
proof -
  define a1 where "a1 = \<bar>\<alpha>\<bar>"
  define A where "A = a1 + 1"
  define aG where "aG = a1 * G"
  define AG where "AG = A * G"
  define AM where "AM = A * M"
  define mx where "mx = mean (\<lambda>s. dval (fx s)) xs"
  define my where "my = mean (\<lambda>s. dval (fy s)) xs"
  define s where "s = dval a'"
  have G: "1 / 4 \<le> G" and al: "a1 \<le> 100"
    and g: "\<bar>\<gamma>\<bar> \<le> (aG + G) / 32"
    and mxb: "\<bar>mx\<bar> \<le> G / 32 + 2 * G * u53"
    using ok unfolding centred_ok_def a1_def mx_def aG_def by (simp_all add: algebra_simps)
  have a1: "0 \<le> a1" by (simp add: a1_def)
  have A: "1 \<le> A" "A \<le> 101" using al a1 by (simp_all add: A_def)
  have AGe: "AG = aG + G" by (simp add: AG_def A_def aG_def algebra_simps)
  have aG0: "0 \<le> aG" using a1 G by (simp add: aG_def)
  have M4: "1 / 4 \<le> M" using G GM by linarith
  have AGlo: "1 / 4 \<le> AG"
  proof -
    have "1 * (1 / 4) \<le> A * G" using A(1) G by (intro mult_mono) simp_all
    then show ?thesis by (simp add: AG_def)
  qed
  have AGM: "AG \<le> AM"
    unfolding AG_def AM_def using GM A(1) by (intro mult_left_mono) simp_all
  have MAM: "M \<le> AM"
  proof -
    have "1 * M \<le> A * M" using A(1) M4 by (intro mult_right_mono) simp_all
    then show ?thesis by (simp add: AM_def)
  qed
  have AMhi: "AM \<le> 101 * 2 ^ 52"
    unfolding AM_def using A M M4 by (intro mult_mono) simp_all
  note cs = centred_stats [OF ok]
  note fm = float_means [OF ok]
  have myc: "\<bar>my - (\<alpha> * mx + \<gamma>)\<bar> \<le> 4 * AG * u53"
    using cs(2) unfolding my_def mx_def AG_def A_def a1_def .
  have Mx: "approx mean_x mx (219 * G * u53)"
    using fm(1) unfolding mean_x_def inv_n_def mx_def .
  have My: "approx mean_y my (232 * AG * u53)"
    using fm(2) unfolding mean_y_def inv_n_def my_def AG_def A_def a1_def .
  have kx': "\<bar>mx + x0 - MX\<bar> \<le> 2 * G * u53" using kx unfolding mx_def .
  have ky': "\<bar>my + y0 - MY\<bar> \<le> 2 * AG * u53" using ky unfolding my_def AG_def A_def a1_def .
  have fa: "finite_d a'" and sa: "\<bar>s - \<alpha>\<bar> \<le> A / 2 ^ 40"
    using sl unfolding approx_def s_def A_def a1_def by blast+
  have aa: "\<alpha> \<le> a1" "- \<alpha> \<le> a1" by (simp_all add: a1_def)
  have sA: "\<bar>s\<bar> \<le> A" using sa aa A A_def unfolding abs_le_iff
    by (simp add: field_simps; linarith)
  have as: "approx a' s 0" unfolding s_def by (rule approx_exact [OF fa])
  have big: "(2 :: rat) ^ 62 < pow2 1023" by (simp add: pow2_def)
  define P where "P = \<alpha> * mx"
  have "\<bar>P\<bar> \<le> a1 * (G / 32 + 2 * G * u53)"
    unfolding P_def abs_mult a1_def using mxb by (intro mult_left_mono) simp_all
  then have Pb: "\<bar>P\<bar> \<le> aG / 32 + 2 * aG * u53" by (simp add: aG_def algebra_simps)
  have g': "\<bar>\<gamma>\<bar> \<le> aG / 32 + G / 32" using g by (simp add: add_divide_distrib)
  have "\<bar>my - (P + \<gamma>)\<bar> \<le> 4 * AG * u53" using myc by (simp add: P_def)
  then have myb: "\<bar>my\<bar> \<le> AG / 16 + 6 * AG * u53"
    using Pb g' G aG0 unfolding AGe u53_def abs_le_iff
    by (simp add: field_simps; linarith)
  define Bm where "Bm = G / 32 + 221 * G * u53"
  have bm: "\<bar>mx\<bar> + 219 * G * u53 \<le> Bm" using mxb unfolding Bm_def by linarith
  have Bm1: "0 \<le> Bm" "Bm \<le> 2 ^ 52" using G GM M unfolding Bm_def u53_def by (simp; linarith)+
  have bA: "\<bar>s\<bar> + 0 \<le> A" using sA by simp
  have "A * Bm \<le> 101 * 2 ^ 52" using A Bm1 by (intro mult_mono) simp_all
  then have ov1: "A * Bm < pow2 1023" using big by (simp; linarith)
  define e1 where "e1 = A * (219 * G * u53) + Bm * 0 + A * Bm * u53 + tau"
  have P1: "approx (fmul a' mean_x) (s * mx) e1"
    unfolding e1_def by (rule approx_fmul [OF as Mx bA bm ov1])
  have e1: "e1 = 219 * AG * u53 + AG * u53 / 32 + 221 * AG * u53 * u53 + tau"
    unfolding e1_def Bm_def AG_def by (simp add: algebra_simps)
  define Q where "Q = s * mx"
  have "\<bar>Q\<bar> \<le> A * (G / 32 + 2 * G * u53)"
    unfolding Q_def abs_mult using sA mxb A(1) by (intro mult_mono) simp_all
  then have Qb: "\<bar>Q\<bar> \<le> AG / 32 + 2 * AG * u53" by (simp add: AG_def algebra_simps)
  have e1b: "0 \<le> e1" "e1 \<le> 220 * AG * u53"
    using AGlo tau_tiny tau_nonneg unfolding e1 u53_def
    by (simp add: field_simps; linarith)+
  have "\<bar>my - Q\<bar> \<le> 3 * AG / 32 + 8 * AG * u53"
    using myb Qb unfolding u53_def abs_le_iff by (simp add: field_simps; linarith)
  moreover define m1 where "m1 = \<bar>my - Q\<bar>"
  ultimately have m1b: "m1 \<le> 3 * AG / 32 + 8 * AG * u53" by simp
  then have "m1 + 232 * AG * u53 + e1 \<le> AG / 8"
    using e1b AGlo unfolding u53_def by (simp add: field_simps; linarith)
  then have b1: "\<bar>my - Q\<bar> + 232 * AG * u53 + e1 \<le> AG / 8" by (simp only: m1_def)
  have o1: "AG / 8 < pow2 1023" using AGM AMhi big by (simp; linarith)
  define e2 where "e2 = 232 * AG * u53 + e1 + AG / 8 * u53 + tau"
  have B': "approx (fsub mean_y (fmul a' mean_x)) (my - Q) e2"
    unfolding e2_def Q_def using approx_fsub [OF My P1 b1 [unfolded Q_def] o1] .
  have e2b: "0 \<le> e2" "e2 \<le> 453 * AM * u53"
    using e1b AGlo AGM tau_tiny tau_nonneg unfolding e2_def u53_def
    by (simp add: field_simps; linarith)+
  define B2 where "B2 = 2 * M + AM / 8"
  define m2 where "m2 = \<bar>y0 + (my - Q)\<bar>"
  have "m2 \<le> y0 + m1" unfolding m2_def m1_def using y0(1) by linarith
  then have m2b: "m2 \<le> 2 * M + 3 * AG / 32 + 8 * AG * u53" using m1b y0(2) by linarith
  then have "m2 + 0 + e2 \<le> B2"
    using e2b AGlo AGM unfolding B2_def u53_def by (simp add: field_simps; linarith)
  then have b2: "\<bar>y0 + (my - Q)\<bar> + 0 + e2 \<le> B2" by (simp only: m2_def)
  have o2: "B2 < pow2 1023" using M AMhi big unfolding B2_def by (simp; linarith)
  define e3 where "e3 = 0 + e2 + B2 * u53 + tau"
  have S1: "approx (fadd (DFinite False y0) (fsub mean_y (fmul a' mean_x))) (y0 + (my - Q)) e3"
    unfolding e3_def by (rule approx_fadd [OF approx_nonneg [OF y0(1)] B' b2 o2])
  have e3b: "0 \<le> e3" "e3 \<le> 456 * AM * u53"
    using e2b MAM M4 tau_tiny tau_nonneg unfolding e3_def B2_def u53_def
    by (simp add: field_simps; linarith)+
  have bx0: "\<bar>x0\<bar> + 0 \<le> 2 * M" using x0 by simp
  have "A * (2 * M) = 2 * AM" by (simp add: AM_def)
  then have ov4: "A * (2 * M) < pow2 1023" using AMhi big by (simp; linarith)
  define e4 where "e4 = A * 0 + 2 * M * 0 + A * (2 * M) * u53 + tau"
  have T: "approx (fmul a' (DFinite False x0)) (s * x0) e4"
    unfolding e4_def by (rule approx_fmul [OF as approx_nonneg [OF x0(1)] bA bx0 ov4])
  have e4: "e4 = 2 * AM * u53 + tau" by (simp add: e4_def AM_def)
  have e4b: "0 \<le> e4" "e4 \<le> 3 * AM * u53"
    using MAM M4 tau_tiny tau_nonneg unfolding e4 u53_def by (simp add: field_simps; linarith)+
  define R where "R = s * x0"
  have "\<bar>R\<bar> \<le> A * (2 * M)"
    unfolding R_def abs_mult using sA x0 A(1) by (intro mult_mono) simp_all
  then have Rb: "\<bar>R\<bar> \<le> 2 * AM" by (simp add: AM_def)
  define t where "t = dval (fmul a' (DFinite False x0))"
  have fT: "finite_d (fmul a' (DFinite False x0))" and tR: "\<bar>t - R\<bar> \<le> e4"
    using T unfolding approx_def t_def R_def by blast+
  have tb: "\<bar>t\<bar> \<le> 2 * AM + 3 * AM * u53" using tR Rb e4b by linarith
  then have "\<bar>t\<bar> < 2 ^ 63" using AMhi unfolding u53_def by (simp; linarith)
  from d2i_val [OF fT this [unfolded t_def]]
  have k: "sint (d2i (fmul a' (DFinite False x0))) = trunc t" by (simp add: t_def)
  define k where "k = trunc t"
  have kt: "\<bar>of_int k - t\<bar> < 1" unfolding k_def by (rule trunc_error)
  have "\<bar>of_int k :: rat\<bar> \<le> \<bar>t\<bar>" unfolding k_def by (rule trunc_abs_le)
  then have kb: "\<bar>of_int k :: rat\<bar> \<le> 2 * AM + 3 * AM * u53" using tb by linarith
  have "2 * AM + 3 * AM * u53 < pow2 1023" using AMhi big unfolding u53_def by (simp; linarith)
  from i2d_approx [OF kb this]
  have K: "approx (i2d k) (of_int k) ((2 * AM + 3 * AM * u53) * u53 + tau)" .
  define eK where "eK = (2 * AM + 3 * AM * u53) * u53 + tau"
  have eKb: "0 \<le> eK" "eK \<le> 3 * AM * u53"
    using MAM M4 tau_tiny tau_nonneg unfolding eK_def u53_def by (simp add: field_simps; linarith)+
  define B3 where "B3 = 2 * M + 3 * AM"
  define m3 where "m3 = \<bar>y0 + (my - Q) - of_int k\<bar>"
  define kk where "kk = \<bar>of_int k :: rat\<bar>"
  have "m3 \<le> m2 + kk" unfolding m3_def m2_def kk_def by linarith
  moreover have "kk \<le> 2 * AM + 3 * AM * u53" using kb by (simp only: kk_def)
  ultimately have "m3 + e3 + eK \<le> B3"
    using m2b e3b eKb AGlo AGM MAM M4 unfolding B3_def u53_def
    by (simp add: field_simps; linarith)
  then have b3: "\<bar>y0 + (my - Q) - of_int k\<bar> + e3 + eK \<le> B3" by (simp only: m3_def)
  have o3: "B3 < pow2 1023" using M AMhi big unfolding B3_def by (simp; linarith)
  define e5 where "e5 = e3 + eK + B3 * u53 + tau"
  define S2 where "S2 = fsub (fadd (DFinite False y0) (fsub mean_y (fmul a' mean_x))) (i2d k)"
  have S2a: "approx S2 (y0 + (my - Q) - of_int k) e5"
    unfolding e5_def S2_def eK_def by (rule approx_fsub [OF S1 K b3 [unfolded eK_def] o3])
  define z where "z = dval S2"
  have fS: "finite_d S2" and ze: "\<bar>z - (y0 + (my - Q) - of_int k)\<bar> \<le> e5"
    using S2a unfolding approx_def z_def by blast+
  have e5b: "e5 \<le> 465 * AM * u53"
    using e3b(2) eKb(2) MAM M4 tau_tiny unfolding e5_def B3_def u53_def
    by (simp add: field_simps; linarith)
  have "\<bar>z\<bar> \<le> B3 + e5" using ze b3 e3b(1) eKb(1) by linarith
  then have "\<bar>z\<bar> < 2 ^ 63" using e5b AMhi M unfolding B3_def u53_def by (simp; linarith)
  from d2i_val [OF fS this [unfolded z_def]]
  have res: "sint (d2i S2) = trunc z" by (simp add: z_def)
  have rz: "\<bar>of_int (trunc z) - z\<bar> < 1" by (rule trunc_error)
  define D1 where "D1 = s * (mx + x0 - MX)"
  define D2 where "D2 = (\<alpha> - s) * MX"
  have "\<bar>D1\<bar> \<le> A * (2 * G * u53)"
    unfolding D1_def abs_mult using sA kx' A(1) by (intro mult_mono) simp_all
  then have D1: "\<bar>D1\<bar> \<le> 2 * AG * u53" by (simp add: AG_def algebra_simps)
  have "\<bar>D2\<bar> \<le> (A / 2 ^ 40) * M"
    unfolding D2_def abs_mult using sa MX A(1) by (intro mult_mono) (simp_all add: abs_minus_commute)
  then have D2: "\<bar>D2\<bar> \<le> AM / 2 ^ 40" by (simp add: AM_def)
  have "y0 + (my - Q) - of_int k - \<beta> = (my + y0 - MY) - D1 + D2 - (of_int k - t) - (t - R)"
    unfolding D1_def D2_def Q_def R_def MY by (simp add: algebra_simps)
  then have "\<bar>y0 + (my - Q) - of_int k - \<beta>\<bar> \<le> 2 * AG * u53 + 2 * AG * u53 + AM / 2 ^ 40 + 1 + e4"
    using ky' D1 D2 kt tR by linarith
  then have "\<bar>of_int (trunc z) - \<beta>\<bar> \<le> 17 * AM / 2 ^ 44 + 2"
    using rz ze e5b e4b(2) AGM AGlo unfolding u53_def abs_le_iff
    by (simp add: field_simps; linarith)
  then show ?thesis
    unfolding res [symmetric] S2_def k_def k [symmetric] AM_def A_def a1_def .
qed

text \<open>
  The four sums of the loop are four accumulators, and the model of a full window is built
  from them.
\<close>

lemma fold_step_sums:
  "fold (step_sums x0 y0) xs (sx, sy, sxx, sxy) =
     (fsum (centred_X x0) xs sx, fsum (centred_Y y0) xs sy,
      fsum (\<lambda>s. fmul (centred_X x0 s) (centred_X x0 s)) xs sxx,
      fsum (\<lambda>s. fmul (centred_X x0 s) (centred_Y y0 s)) xs sxy)"
  by (induction xs arbitrary: sx sy sxx sxy) (simp_all add: step_sums_def centred_X_def centred_Y_def Let_def)

lemma regression_float:
  assumes len: "length xs = 100" and m: "means xs = (X0, Y0)"
  shows "regression xs =
     (let inv_n = fdiv d_one (i2d 100);
          mean_x = fmul (fsum (centred_X X0) xs d_zero) inv_n;
          mean_y = fmul (fsum (centred_Y Y0) xs d_zero) inv_n;
          cov = fsub (fmul inv_n (fsum (\<lambda>s. fmul (centred_X X0 s) (centred_Y Y0 s)) xs d_zero))
                  (fmul mean_x mean_y);
          v = fsub (fmul inv_n (fsum (\<lambda>s. fmul (centred_X X0 s) (centred_X X0 s)) xs d_zero))
                (fmul mean_x mean_x);
          a' = fdiv cov v
      in \<lparr>a = a', b = d2i (fsub (fadd Y0 (fsub mean_y (fmul a' mean_x)))
                          (i2d (sint (d2i (fmul a' X0)))))\<rparr>)"
  by (simp add: regression_def Let_def m centred_sums_def fold_step_sums len num_samples_def)

lemma regression_accuracy:
  fixes M :: rat
  assumes len: "length xs = 100" and rng: "\<forall>s \<in> set xs. timestamps_below M s"
    and M: "M \<le> 2 ^ 52"
    and aff: "\<forall>s \<in> set xs. device_time s = \<alpha> * midpoint s + \<beta>"
    and al: "\<bar>\<alpha>\<bar> \<le> 100"
    and spr: "s1 \<in> set xs" "s2 \<in> set xs" "M / 2 ^ 39 \<le> \<bar>midpoint s1 - midpoint s2\<bar>"
  shows "finite_d (a (regression xs))"
    and "\<bar>dval (a (regression xs)) - \<alpha>\<bar> \<le> (\<bar>\<alpha>\<bar> + 1) / 2 ^ 40"
    and "\<bar>of_int (sint (b (regression xs))) - \<beta>\<bar> \<le> 17 * ((\<bar>\<alpha>\<bar> + 1) * M) / 2 ^ 44 + 2"
proof -
  let ?MX = "mean midpoint xs" and ?MY = "mean device_time xs"
  have ne: "xs \<noteq> []" using len by auto
  from window_facts [OF len rng M aff spr] obtain x0 y0 G \<gamma> where
    m: "means xs = (DFinite False x0, DFinite False y0)"
    and x0: "0 \<le> x0" "x0 \<le> 2 * M" and y0: "0 \<le> y0" "y0 \<le> 2 * M"
    and dx: "\<bar>x0 - ?MX\<bar> \<le> G / 32" and dy: "\<bar>y0 - ?MY\<bar> \<le> G / 32"
    and g: "\<bar>\<gamma>\<bar> \<le> (\<bar>\<alpha>\<bar> + 1) * G / 32" and G: "1 / 4 \<le> G" "G \<le> M"
    and var: "G * G \<le> 100 * covar midpoint midpoint xs"
    and pt: "\<forall>s \<in> set xs. \<bar>midpoint s - x0\<bar> \<le> 33 / 32 * G \<and>
                           device_time s - y0 = \<alpha> * (midpoint s - x0) + \<gamma>"
    by blast
  let ?fx = "centred_X (DFinite False x0)" and ?fy = "centred_Y (DFinite False y0)"
  note cf = centred_facts [OF len rng M G x0(1) y0(1) g al var pt]
  have kx: "\<bar>mean (\<lambda>s. dval (?fx s)) xs + x0 - ?MX\<bar> \<le> 2 * G * u53"
    using cf(2) unfolding centred_X_value_def .
  have ky: "\<bar>mean (\<lambda>s. dval (?fy s)) xs + y0 - ?MY\<bar> \<le> 2 * ((\<bar>\<alpha>\<bar> + 1) * G) * u53"
    using cf(3) unfolding centred_Y_value_def .
  have mxb: "\<bar>mean (\<lambda>s. dval (?fx s)) xs\<bar> \<le> G / 32 + 2 * G * u53"
    using kx dx by linarith
  have G52: "G \<le> 2 ^ 52" using G(2) M by linarith
  have ok: "centred_ok \<alpha> \<gamma> G ?fx ?fy xs"
    unfolding centred_ok_def
    using len G(1) G52 al g cf(1) mxb cf(4) unfolding centred_X_value_def centred_Y_value_def by blast
  have hx: "\<And>s. s \<in> set xs \<Longrightarrow> 0 \<le> midpoint s \<and> midpoint s \<le> M"
    using rng below_exact(4,5) [OF _ M] by (auto intro: less_imp_le)
  have MX: "0 \<le> ?MX" "?MX \<le> M" using mean_bounds [OF hx ne] by simp_all
  have MY: "?MY = \<alpha> * ?MX + \<beta>" by (rule affine_mean [OF aff ne])
  note sl = float_slope [OF ok]
  note ic = float_intercept [OF ok sl G(2) M x0 y0 MX MY kx ky]
  show "finite_d (a (regression xs))"
    using sl unfolding regression_float [OF len m] approx_def by (simp add: Let_def)
  show "\<bar>dval (a (regression xs)) - \<alpha>\<bar> \<le> (\<bar>\<alpha>\<bar> + 1) / 2 ^ 40"
    using sl unfolding regression_float [OF len m] approx_def by (simp add: Let_def)
  show "\<bar>of_int (sint (b (regression xs))) - \<beta>\<bar> \<le> 17 * ((\<bar>\<alpha>\<bar> + 1) * M) / 2 ^ 44 + 2"
    using ic unfolding regression_float [OF len m] by (simp add: Let_def)
qed

lemma add_sample_model:
  assumes "add_sample st r now = Some st'"
    and "length (samples st) < num_samples \<or> \<not> high_latency (samples st) (mk_sample r now)"
  shows "offset st' = regression (samples st')"
  using assms by (auto simp: add_sample_def Let_def split: if_splits)

text \<open>
  Claim C2, amended. Let a call of \<open>add_sample\<close> store its sample and leave a window of
  100 samples whose timestamps (query, received, response) all lie between 0 and \<open>M\<close> ns
  for some \<open>M \<le> 2 ^ 52\<close> (about 52 days on each clock), whose points lie exactly on a line
  \<open>response = \<alpha> * midpoint + \<beta>\<close> with \<open>\<bar>\<alpha>\<bar> \<le> 100\<close>, and which holds two samples whose
  midpoints are at least \<open>M / 2 ^ 39\<close> ns apart. Then the stored slope is the
  double-precision quotient \<open>cov / v\<close> of
  \<open>cov = inv_n * \<Sum>(x * y) - mean_x * mean_y\<close> and \<open>v = inv_n * \<Sum>(x * x) - mean_x * mean_x\<close>
  on the centred coordinates \<open>x = X - x0\<close>, \<open>y = Y - y0\<close>, the stored intercept is
  \<open>y0 + (mean_y - a * mean_x) - int64_t(a * x0)\<close> converted to \<open>int64_t\<close>, the slope is a
  finite double within \<open>(\<bar>\<alpha>\<bar> + 1) / 2 ^ 40\<close> of \<open>\<alpha>\<close>, and the intercept is within
  \<open>17 * (\<bar>\<alpha>\<bar> + 1) * M / 2 ^ 44 + 2\<close> ns of \<open>\<beta>\<close>.
\<close>

theorem regression_recovers_line:
  fixes M :: rat
  assumes "add_sample st r now = Some st'"
    and "length (samples st) < num_samples \<or> \<not> high_latency (samples st) (mk_sample r now)"
    and "length (samples st') = num_samples"
    and "\<forall>s \<in> set (samples st'). timestamps_below M s \<and> device_time s = \<alpha> * midpoint s + \<beta>"
    and "M \<le> 2 ^ 52" and "\<bar>\<alpha>\<bar> \<le> 100"
    and "s1 \<in> set (samples st')" and "s2 \<in> set (samples st')"
    and "M / 2 ^ 39 \<le> \<bar>midpoint s1 - midpoint s2\<bar>"
  shows "let xs = samples st';
             inv_n = fdiv d_one (i2d (int (length xs)));
             (x0, y0) = means xs;
             x = centred_X x0;
             y = centred_Y y0;
             mean_x = fmul (fsum x xs d_zero) inv_n;
             mean_y = fmul (fsum y xs d_zero) inv_n;
             cov = fsub (fmul inv_n (fsum (\<lambda>s. fmul (x s) (y s)) xs d_zero)) (fmul mean_x mean_y);
             v = fsub (fmul inv_n (fsum (\<lambda>s. fmul (x s) (x s)) xs d_zero)) (fmul mean_x mean_x)
         in a (offset st') = fdiv cov v \<and>
            b (offset st') =
              d2i (fsub (fadd y0 (fsub mean_y (fmul (a (offset st')) mean_x)))
                     (i2d (sint (d2i (fmul (a (offset st')) x0))))) \<and>
            finite_d (a (offset st')) \<and>
            \<bar>dval (a (offset st')) - \<alpha>\<bar> \<le> (\<bar>\<alpha>\<bar> + 1) / 2 ^ 40 \<and>
            \<bar>of_int (sint (b (offset st'))) - \<beta>\<bar> \<le> 17 * ((\<bar>\<alpha>\<bar> + 1) * M) / 2 ^ 44 + 2"
proof -
  have o: "offset st' = regression (samples st')" by (rule add_sample_model [OF assms(1,2)])
  have len: "length (samples st') = 100" using assms(3) by (simp add: num_samples_def)
  have rng: "\<forall>s \<in> set (samples st'). timestamps_below M s"
    and aff: "\<forall>s \<in> set (samples st'). device_time s = \<alpha> * midpoint s + \<beta>"
    using assms(4) by blast+
  obtain X0 Y0 where m: "means (samples st') = (X0, Y0)" by (cases "means (samples st')")
  note rf = regression_float [OF len m]
  note acc = regression_accuracy [OF len rng assms(5) aff assms(6-9)]
  have fa: "a (regression (samples st')) = fdiv
      (fsub (fmul (fdiv d_one (i2d 100))
         (fsum (\<lambda>s. fmul (centred_X X0 s) (centred_Y Y0 s)) (samples st') d_zero))
       (fmul (fmul (fsum (centred_X X0) (samples st') d_zero) (fdiv d_one (i2d 100)))
          (fmul (fsum (centred_Y Y0) (samples st') d_zero) (fdiv d_one (i2d 100)))))
      (fsub (fmul (fdiv d_one (i2d 100))
         (fsum (\<lambda>s. fmul (centred_X X0 s) (centred_X X0 s)) (samples st') d_zero))
       (fmul (fmul (fsum (centred_X X0) (samples st') d_zero) (fdiv d_one (i2d 100)))
          (fmul (fsum (centred_X X0) (samples st') d_zero) (fdiv d_one (i2d 100)))))"
    unfolding rf by (simp add: Let_def)
  have fb: "b (regression (samples st')) =
      d2i (fsub (fadd Y0 (fsub (fmul (fsum (centred_Y Y0) (samples st') d_zero) (fdiv d_one (i2d 100)))
                  (fmul (a (regression (samples st')))
                     (fmul (fsum (centred_X X0) (samples st') d_zero) (fdiv d_one (i2d 100))))))
             (i2d (sint (d2i (fmul (a (regression (samples st'))) X0)))))"
    unfolding rf by (simp add: Let_def)
  show ?thesis
    unfolding o Let_def m len prod.case
    using fa fb acc by simp
qed

theorem regression_recovers_line_witness:
  "\<exists>st'. add_sample line_window reply_b 13000 = Some st' \<and>
      length (samples st') = num_samples \<and>
      finite_d (a (offset st')) \<and>
      \<bar>dval (a (offset st')) - 2\<bar> \<le> 3 / 2 ^ 40 \<and>
      \<bar>of_int (sint (b (offset st'))) - (488000 :: rat)\<bar> \<le> 3"
proof -
  define st' where "st' = line_window
    \<lparr>samples := samples line_window @ [mk_sample reply_b 13000],
     offset := regression (samples line_window @ [mk_sample reply_b 13000])\<rparr>"
  have l: "length (samples line_window) < num_samples"
    by (simp add: line_window_def num_samples_def)
  have h1: "add_sample line_window reply_b 13000 = Some st'"
    unfolding st'_def by (rule add_sample_append [OF l])
  have h3: "length (samples st') = num_samples"
    by (simp add: st'_def line_window_def num_samples_def)
  have h4: "\<forall>s \<in> set (samples st'). timestamps_below (2 ^ 20) s \<and>
              device_time s = 2 * midpoint s + 488000"
    by (auto simp: st'_def line_window_def timestamps_below_def device_time_def midpoint_def
        mk_sample_def reply0_def reply_b_def)
  have h6: "mk_sample reply0 11000 \<in> set (samples st')"
    and h7: "mk_sample reply_b 13000 \<in> set (samples st')"
    by (simp_all add: st'_def line_window_def)
  have h8: "(2 :: rat) ^ 20 / 2 ^ 39
      \<le> \<bar>midpoint (mk_sample reply0 11000) - midpoint (mk_sample reply_b 13000)\<bar>"
    by (simp add: midpoint_def mk_sample_def reply0_def reply_b_def)
  have h5: "\<bar>2 :: rat\<bar> \<le> 100" and hM: "(2 :: rat) ^ 20 \<le> 2 ^ 52" by simp_all
  obtain X0 Y0 where m: "means (samples st') = (X0, Y0)" by (cases "means (samples st')")
  note t = regression_recovers_line [OF h1 disjI1 [OF l] h3 h4 hM h5 h6 h7 h8,
      unfolded Let_def m prod.case]
  have c1: "finite_d (a (offset st'))"
    and c2: "\<bar>dval (a (offset st')) - 2\<bar> \<le> (\<bar>2\<bar> + 1) / 2 ^ 40"
    and c3: "\<bar>of_int (sint (b (offset st'))) - (488000 :: rat)\<bar>
              \<le> 17 * ((\<bar>2\<bar> + 1) * 2 ^ 20) / 2 ^ 44 + 2"
    using t by blast+
  have "\<bar>dval (a (offset st')) - 2\<bar> \<le> 3 / 2 ^ 40" using c2 by simp
  moreover have "(17 * ((\<bar>2\<bar> + 1) * 2 ^ 20) / 2 ^ 44 + 2 :: rat) \<le> 3" by simp
  then have "\<bar>of_int (sint (b (offset st'))) - (488000 :: rat)\<bar> \<le> 3" using c3 by linarith
  ultimately have "finite_d (a (offset st')) \<and>
      \<bar>dval (a (offset st')) - 2\<bar> \<le> 3 / 2 ^ 40 \<and>
      \<bar>of_int (sint (b (offset st'))) - (488000 :: rat)\<bar> \<le> 3"
    using c1 by blast
  with h1 h3 show ?thesis by blast
qed

text \<open>
  Exact evaluation of single operations: a rounding whose argument lies within half a unit
  in the last place of a double, or half-way between two doubles, and sums of equal terms
  that stay representable.
\<close>

lemma round_even_near:
  assumes "\<bar>t\<bar> < 1 / 2"
  shows "round_even (of_int k + t) = k"
proof (cases "0 \<le> t")
  case True
  then have "\<lfloor>of_int k + t\<rfloor> = k" using assms by (simp add: floor_unique)
  then show ?thesis using assms True by (simp add: round_even_def Let_def)
next
  case False
  then have "\<lfloor>of_int k + t\<rfloor> = k - 1" using assms by (intro floor_unique) simp_all
  then show ?thesis using assms False by (simp add: round_even_def Let_def)
qed

lemma round_even_tie_down:
  assumes "even k"
  shows "round_even (of_int k + 1 / 2) = k"
proof -
  have "\<lfloor>of_int k + 1 / 2 :: rat\<rfloor> = k" by (simp add: floor_unique)
  then show ?thesis using assms by (simp add: round_even_def Let_def)
qed

lemma round_even_tie_up:
  assumes "even k"
  shows "round_even (of_int k - 1 / 2) = k"
proof -
  have "\<lfloor>of_int k - 1 / 2 :: rat\<rfloor> = k - 1" by (intro floor_unique) simp_all
  then show ?thesis using assms by (simp add: round_even_def Let_def)
qed

lemma round_even_le: "of_int (round_even m) \<le> m + 1 / 2"
proof -
  have "of_int \<lfloor>m\<rfloor> \<le> m" "m < of_int \<lfloor>m\<rfloor> + 1" by linarith+
  then show ?thesis by (simp add: round_even_def Let_def) linarith
qed

lemma rnd_at:
  assumes lo: "pow2 e \<le> q" and hi: "q < pow2 (e + 1)" and e: "- 1022 \<le> e" "e < 1023"
    and r: "round_even (q / pow2 (e - 52)) = k"
  shows "rnd s q = DFinite s (of_int k * pow2 (e - 52))"
proof -
  define u where "u = pow2 (e - 52)"
  have u: "0 < u" by (simp add: u_def)
  have q0: "q \<noteq> 0" using lo pow2_pos [of e] by linarith
  have fl: "flog2 q = e" by (rule flog2_unique [OF lo hi])
  have "of_int k \<le> q / u + 1 / 2" using round_even_le [of "q / u"] r by (simp add: u_def)
  then have "of_int k * u \<le> (q / u + 1 / 2) * u" using u by (intro mult_right_mono) simp_all
  also have "\<dots> = q + u / 2" using u by (simp add: algebra_simps)
  finally have 1: "of_int k * u \<le> q + u / 2" .
  have "u \<le> pow2 1022" unfolding u_def using e(2) by (intro pow2_mono) simp
  moreover have "q < pow2 1023" using hi e(2) pow2_mono [of "e + 1" 1023] by simp
  moreover have "pow2 1024 = 2 * pow2 1023" "pow2 1023 = 2 * pow2 1022"
    using pow2_Suc [of 1023] pow2_Suc [of 1022] by simp_all
  ultimately have "\<not> pow2 1024 \<le> of_int k * u" using 1 pow2_pos [of 1022] by linarith
  then show ?thesis
    using q0 e(1) r by (simp add: rnd_def round_mag_def Let_def fl u_def max_def)
qed

lemma rnd_near:
  assumes "pow2 e \<le> q" and "q < pow2 (e + 1)" and "- 1022 \<le> e" and "e < 1023"
    and q: "q = r + d" and r: "r = of_int k * pow2 (e - 52)" and d: "\<bar>d\<bar> < pow2 (e - 52) / 2"
  shows "rnd s q = DFinite s r"
proof -
  define u where "u = pow2 (e - 52)"
  have u: "0 < u" by (simp add: u_def)
  have "q / u = of_int k + d / u" using u by (simp add: q r u_def add_divide_distrib)
  moreover have "\<bar>d / u\<bar> < 1 / 2" using d u by (simp add: u_def field_simps)
  ultimately have "round_even (q / u) = k" by (simp add: round_even_near)
  from rnd_at [OF assms(1-4) this [unfolded u_def]] show ?thesis by (simp add: r)
qed

lemma rnd_tie:
  assumes "pow2 e \<le> q" and "q < pow2 (e + 1)" and "- 1022 \<le> e" and "e < 1023"
    and q: "q = r + d" and r: "r = of_int k * pow2 (e - 52)" and k: "even k"
    and d: "\<bar>d\<bar> = pow2 (e - 52) / 2"
  shows "rnd s q = DFinite s r"
proof -
  define u where "u = pow2 (e - 52)"
  have u: "0 < u" by (simp add: u_def)
  have "d = u / 2 \<or> d = - (u / 2)" using d unfolding u_def by linarith
  then have "q / u = of_int k + 1 / 2 \<or> q / u = of_int k - 1 / 2"
    using u by (auto simp: q r u_def add_divide_distrib diff_divide_distrib)
  then have "round_even (q / u) = k"
    using k by (auto simp: round_even_tie_down round_even_tie_up)
  from rnd_at [OF assms(1-4) this [unfolded u_def]] show ?thesis by (simp add: r)
qed

lemma dbl_nonneg: "0 \<le> r \<Longrightarrow> DFinite False r = dbl r"
  by (simp add: dbl_def)

lemma fadd_dbl:
  "fadd (dbl m) (dbl n) = (if m + n = 0 then dbl 0 else rnd (m + n < 0) \<bar>m + n\<bar>)"
  by (auto simp: dbl_def signed_val_def Let_def)

lemma fsub_dbl:
  "fsub (dbl m) (dbl n) = (if m - n = 0 then dbl 0 else rnd (m - n < 0) \<bar>m - n\<bar>)"
  by (auto simp: dbl_def fsub_def signed_val_def Let_def)

lemma fmul_dbl:
  assumes "m * n \<noteq> 0"
  shows "fmul (dbl m) (dbl n) = rnd (m * n < 0) \<bar>m * n\<bar>"
proof -
  have sg: "((m < 0) \<noteq> (n < 0)) = (m * n < 0)"
    using assms by (cases "m < 0"; cases "n < 0") (auto simp: mult_less_0_iff not_less)
  show ?thesis unfolding dbl_def fmul.simps sg abs_mult ..
qed

lemma fmul_dbl_zero: "0 \<le> n \<Longrightarrow> fmul (dbl 0) (dbl n) = dbl 0" "0 \<le> n \<Longrightarrow> fmul (dbl n) (dbl 0) = dbl 0"
  by (simp_all add: dbl_def rnd_def round_mag_def)

lemma fdiv_dbl:
  assumes "m \<noteq> 0" and "n \<noteq> 0"
  shows "fdiv (dbl m) (dbl n) = rnd (m / n < 0) \<bar>m / n\<bar>"
proof -
  have sg: "((m < 0) \<noteq> (n < 0)) = (m / n < 0)"
    using assms by (cases "m < 0"; cases "n < 0") (auto simp: divide_less_0_iff not_less)
  have "fdiv (dbl m) (dbl n) = rnd ((m < 0) \<noteq> (n < 0)) (\<bar>m\<bar> / \<bar>n\<bar>)"
    unfolding dbl_def using assms(2) by simp
  then show ?thesis unfolding sg abs_divide .
qed

lemma rnd_exact_dbl:
  assumes "\<bar>x\<bar> = of_int k * pow2 e" and "0 < k" and "k < 2 ^ 53" and "- 1074 \<le> e"
    and "of_int k * pow2 e < pow2 1024"
  shows "rnd (x < 0) \<bar>x\<bar> = dbl x"
  unfolding assms(1) dbl_def using rnd_exact [OF assms(2-5)] by (simp add: assms(1))

lemma scaled_top:
  assumes "\<bar>k\<bar> < 2 ^ 53" and "e \<le> 900"
  shows "of_int \<bar>k\<bar> * pow2 e < pow2 1024"
proof -
  have "(of_int \<bar>k\<bar> :: rat) < of_int (2 ^ 53)" using assms(1) by (simp only: of_int_less_iff)
  then have "(of_int \<bar>k\<bar> :: rat) < pow2 53" by (simp add: pow2_def)
  then have "of_int \<bar>k\<bar> * pow2 e < pow2 53 * pow2 e" by (intro mult_strict_right_mono) simp_all
  also have "\<dots> = pow2 (53 + e)" by (simp add: pow2_add)
  also have "\<dots> < pow2 1024" using assms(2) by (intro pow2_strict_mono) simp
  finally show ?thesis .
qed

lemma fadd_dbl_exact:
  assumes k: "\<bar>km + kc\<bar> < 2 ^ 53" and e: "- 1074 \<le> e" "e \<le> 900"
  shows "fadd (dbl (of_int km * pow2 e)) (dbl (of_int kc * pow2 e)) = dbl (of_int (km + kc) * pow2 e)"
proof -
  have s: "of_int km * pow2 e + of_int kc * pow2 e = of_int (km + kc) * pow2 e"
    by (simp add: algebra_simps)
  show ?thesis
  proof (cases "km + kc = 0")
    case True
    then show ?thesis unfolding fadd_dbl s by simp
  next
    case False
    have a: "\<bar>of_int (km + kc) * pow2 e\<bar> = of_int \<bar>km + kc\<bar> * pow2 e"
      by (simp add: abs_mult)
    have "rnd (of_int (km + kc) * pow2 e < 0) \<bar>of_int (km + kc) * pow2 e\<bar>
          = dbl (of_int (km + kc) * pow2 e)"
      using False k by (intro rnd_exact_dbl [OF a _ _ e(1) scaled_top [OF k e(2)]]) simp_all
    then show ?thesis unfolding fadd_dbl s using False by simp
  qed
qed

lemma fsum_append: "fsum t (xs @ ys) acc = fsum t ys (fsum t xs acc)"
  by (simp add: fsum_def)

lemma fsum_replicate_exact:
  assumes ts: "t s = dbl (of_int kc * pow2 e)"
    and bd: "\<bar>km\<bar> + int n * \<bar>kc\<bar> < 2 ^ 53" and e: "- 1074 \<le> e" "e \<le> 900"
  shows "fsum t (replicate n s) (dbl (of_int km * pow2 e)) = dbl (of_int (km + int n * kc) * pow2 e)"
  using bd
proof (induction n arbitrary: km)
  case 0
  then show ?case by (simp add: fsum_def)
next
  case (Suc n)
  have "\<bar>km + kc\<bar> \<le> \<bar>km\<bar> + \<bar>kc\<bar>" by simp
  moreover have "\<bar>km\<bar> + \<bar>kc\<bar> + int n * \<bar>kc\<bar> < 2 ^ 53" using Suc.prems by (simp add: algebra_simps)
  moreover have "0 \<le> int n * \<bar>kc\<bar>" by simp
  ultimately have k: "\<bar>km + kc\<bar> < 2 ^ 53" and bd': "\<bar>km + kc\<bar> + int n * \<bar>kc\<bar> < 2 ^ 53"
    by linarith+
  have step: "fadd (dbl (of_int km * pow2 e)) (t s) = dbl (of_int (km + kc) * pow2 e)"
    unfolding ts by (rule fadd_dbl_exact [OF k e])
  have "km + kc + int n * kc = km + int (Suc n) * kc" by (simp add: algebra_simps)
  with Suc.IH [OF bd'] show ?case by (simp add: fsum_def step)
qed

lemma rnd_drop_one:
  assumes "2 ^ 51 \<le> n" and "n < 2 ^ 53"
  shows "rnd s (of_int n * 64 + 1) = DFinite s (of_int n * 64)"
proof -
  have lo: "(2 :: rat) ^ 51 \<le> of_int n"
  proof -
    have "(of_int (2 ^ 51) :: rat) \<le> of_int n" using assms(1) by (simp only: of_int_le_iff)
    then show ?thesis by simp
  qed
  show ?thesis
  proof (cases "n < 2 ^ 52")
    case True
    then have "n \<le> 2 ^ 52 - 1" by simp
    then have "(of_int n :: rat) \<le> of_int (2 ^ 52 - 1)" by (simp only: of_int_le_iff)
    then have hi: "(of_int n :: rat) \<le> 2 ^ 52 - 1" by simp
    show ?thesis
      by (rule rnd_near [where e = 57 and k = "2 * n" and d = 1])
        (use lo hi in \<open>simp_all add: pow2_def\<close>)
  next
    case False
    then have "(of_int (2 ^ 52) :: rat) \<le> of_int n" by (simp only: of_int_le_iff)
    then have lo': "(2 :: rat) ^ 52 \<le> of_int n" by simp
    have "n \<le> 2 ^ 53 - 1" using assms(2) by simp
    then have "(of_int n :: rat) \<le> of_int (2 ^ 53 - 1)" by (simp only: of_int_le_iff)
    then have hi: "(of_int n :: rat) \<le> 2 ^ 53 - 1" by simp
    show ?thesis
      by (rule rnd_near [where e = 58 and k = n and d = 1])
        (use lo' hi in \<open>simp_all add: pow2_def\<close>)
  qed
qed

lemma fsum_drop_one:
  assumes ts: "t s = dbl (of_int c * 64 + 1)" and c: "0 \<le> c"
    and N: "2 ^ 51 \<le> N" and bd: "N + int n * c < 2 ^ 53"
  shows "fsum t (replicate n s) (dbl (of_int N * 64)) = dbl (of_int (N + int n * c) * 64)"
  using N bd
proof (induction n arbitrary: N)
  case 0
  then show ?case by (simp add: fsum_def)
next
  case (Suc n)
  have nc: "0 \<le> int n * c" using c by simp
  have 1: "2 ^ 51 \<le> N + c" using Suc.prems(1) c by linarith
  have "N + c + int n * c = N + int (Suc n) * c" by (simp add: algebra_simps)
  then have 2: "N + c + int n * c < 2 ^ 53" using Suc.prems(2) by simp
  then have 3: "N + c < 2 ^ 53" using nc by linarith
  have pos: "0 < (of_int (N + c) :: rat) * 64 + 1"
  proof -
    have "(0 :: rat) \<le> of_int (N + c)" using 1 by simp
    then show ?thesis by (intro add_nonneg_pos mult_nonneg_nonneg) simp_all
  qed
  have e: "of_int N * 64 + (of_int c * 64 + 1) = (of_int (N + c) :: rat) * 64 + 1" by simp
  have "fadd (dbl (of_int N * 64)) (t s) = rnd False (of_int (N + c) * 64 + 1)"
    unfolding ts fadd_dbl e using pos by simp
  also have "\<dots> = DFinite False (of_int (N + c) * 64)" by (rule rnd_drop_one [OF 1 3])
  also have "\<dots> = dbl (of_int (N + c) * 64)" using 1 by (intro dbl_nonneg) simp
  finally have step: "fadd (dbl (of_int N * 64)) (t s) = dbl (of_int (N + c) * 64)" .
  have "N + c + int n * c = N + int (Suc n) * c" by (simp add: algebra_simps)
  with Suc.IH [OF 1 2] show ?case by (simp add: fsum_def step)
qed

text \<open>
  The window \<open>edge_window\<close> completed by \<open>edge_reply_b\<close>, operation by operation. The sums
  \<open>query + received\<close> lie between \<open>2 ^ 53\<close> and \<open>2 ^ 54\<close>, where the doubles are the even
  integers: both are odd and are rounded to the neighbour with an even significand, one up
  and one down, which brings the two midpoints one nanosecond closer to each other.
\<close>
lemma rnd_num: "(numeral w :: int) < 2 ^ 53 \<Longrightarrow> rnd s (numeral w) = DFinite s (numeral w)"
  using rnd_of_int [of "numeral w" s] by simp

lemma edge_round:
  "rnd False 9007199254741119 = DFinite False 9007199254741120"
  "rnd False 9007201402224769 = DFinite False 9007201402224768"
proof -
  show "rnd False 9007199254741119 = DFinite False 9007199254741120"
    by (rule rnd_tie [where e = 53 and k = 4503599627370560 and d = "- 1"]) (simp_all add: pow2_def)
  show "rnd False 9007201402224769 = DFinite False 9007201402224768"
    by (rule rnd_tie [where e = 53 and k = 4503600701112384 and d = 1]) (simp_all add: pow2_def)
qed

lemma edge_XY:
  "sample_X edge_a = dbl 4503599627370560" "sample_Y edge_a = dbl 4503599627370560"
  "sample_X edge_b = dbl 4503600701112384" "sample_Y edge_b = dbl 4503600701112385"
  by (simp_all add: edge_a_def edge_b_def edge_reply_a_def edge_reply_b_def mk_sample_def
      sample_X_def sample_Y_def i2d_def d_half_def edge_round rnd_num dbl_def)

lemma edge_sum_X:
  "fsum sample_X (replicate 50 edge_a @ replicate 50 edge_b) d_zero = dbl 450360016424147200"
proof -
  have a: "sample_X edge_a = dbl (of_int 70368744177665 * pow2 6)"
    and b: "sample_X edge_b = dbl (of_int 70368760954881 * pow2 6)"
    by (simp_all add: edge_XY pow2_def)
  have "fsum sample_X (replicate 50 edge_a) (dbl (of_int 0 * pow2 6))
        = dbl (of_int (0 + int 50 * 70368744177665) * pow2 6)"
    by (rule fsum_replicate_exact [where t = sample_X and s = edge_a, OF a]) simp_all
  moreover have "fsum sample_X (replicate 50 edge_b) (dbl (of_int 3518437208883250 * pow2 6))
        = dbl (of_int (3518437208883250 + int 50 * 70368760954881) * pow2 6)"
    by (rule fsum_replicate_exact [where t = sample_X and s = edge_b, OF b]) simp_all
  ultimately show ?thesis by (simp add: fsum_append d_zero_def dbl_nonneg pow2_def)
qed

lemma edge_sum_Y:
  "fsum sample_Y (replicate 50 edge_a @ replicate 50 edge_b) d_zero = dbl 450360016424147200"
proof -
  have a: "sample_Y edge_a = dbl (of_int 70368744177665 * pow2 6)"
    and b: "sample_Y edge_b = dbl (of_int 70368760954881 * 64 + 1)"
    by (simp_all add: edge_XY pow2_def)
  have "fsum sample_Y (replicate 50 edge_a) (dbl (of_int 0 * pow2 6))
        = dbl (of_int (0 + int 50 * 70368744177665) * pow2 6)"
    by (rule fsum_replicate_exact [where t = sample_Y and s = edge_a, OF a]) simp_all
  moreover have "fsum sample_Y (replicate 50 edge_b) (dbl (of_int 3518437208883250 * 64))
        = dbl (of_int (3518437208883250 + int 50 * 70368760954881) * 64)"
    by (rule fsum_drop_one [where t = sample_Y and s = edge_b, OF b]) simp_all
  ultimately show ?thesis by (simp add: fsum_append d_zero_def dbl_nonneg pow2_def)
qed

lemma edge_means:
  "means (replicate 50 edge_a @ replicate 50 edge_b) = (dbl 4503600164241472, dbl 4503600164241472)"
proof -
  have "fdiv (dbl 450360016424147200) (dbl 100) = rnd False 4503600164241472"
    by (simp add: fdiv_dbl)
  also have "\<dots> = dbl 4503600164241472" by (simp add: rnd_num dbl_def)
  finally have d: "fdiv (dbl 450360016424147200) (dbl 100) = dbl 4503600164241472" .
  have i: "i2d 100 = dbl 100" using i2d_exact [of 100] by (simp add: dbl_def)
  have "fold step_means (replicate 50 edge_a @ replicate 50 edge_b) (d_zero, d_zero)
        = (dbl 450360016424147200, dbl 450360016424147200)"
    unfolding fold_step_means edge_sum_X edge_sum_Y ..
  then show ?thesis
    unfolding means_def by (simp add: i d)
qed

lemma edge_centred:
  "centred_X (dbl 4503600164241472) edge_a = dbl (- 536870912)"
  "centred_Y (dbl 4503600164241472) edge_a = dbl (- 536870912)"
  "centred_X (dbl 4503600164241472) edge_b = dbl 536870912"
  "centred_Y (dbl 4503600164241472) edge_b = dbl 536870913"
proof -
  have "centred_X (dbl 4503600164241472) edge_a = rnd True 536870912"
    by (simp add: centred_X_def edge_XY fsub_dbl)
  then show "centred_X (dbl 4503600164241472) edge_a = dbl (- 536870912)" by (simp add: rnd_num dbl_def)
  have "centred_Y (dbl 4503600164241472) edge_a = rnd True 536870912"
    by (simp add: centred_Y_def edge_XY fsub_dbl)
  then show "centred_Y (dbl 4503600164241472) edge_a = dbl (- 536870912)" by (simp add: rnd_num dbl_def)
  have "centred_X (dbl 4503600164241472) edge_b = rnd False 536870912"
    by (simp add: centred_X_def edge_XY fsub_dbl)
  then show "centred_X (dbl 4503600164241472) edge_b = dbl 536870912" by (simp add: rnd_num dbl_def)
  have "centred_Y (dbl 4503600164241472) edge_b = rnd False 536870913"
    by (simp add: centred_Y_def edge_XY fsub_dbl)
  then show "centred_Y (dbl 4503600164241472) edge_b = dbl 536870913" by (simp add: rnd_num dbl_def)
qed

lemma edge_products:
  "fmul (dbl (- 536870912)) (dbl (- 536870912)) = dbl 288230376151711744"
  "fmul (dbl 536870912) (dbl 536870912) = dbl 288230376151711744"
  "fmul (dbl 536870912) (dbl 536870913) = dbl 288230376688582656"
proof -
  have 1: "rnd False 288230376151711744 = DFinite False 288230376151711744"
    by (rule rnd_near [where e = 58 and k = "2 ^ 52" and d = 0]) (simp_all add: pow2_def)
  have 2: "rnd False 288230376688582656 = DFinite False 288230376688582656"
    by (rule rnd_near [where e = 58 and k = 4503599635759104 and d = 0]) (simp_all add: pow2_def)
  show "fmul (dbl (- 536870912)) (dbl (- 536870912)) = dbl 288230376151711744"
    by (simp add: fmul_dbl 1) (simp add: dbl_def)
  show "fmul (dbl 536870912) (dbl 536870912) = dbl 288230376151711744"
    by (simp add: fmul_dbl 1) (simp add: dbl_def)
  show "fmul (dbl 536870912) (dbl 536870913) = dbl 288230376688582656"
    by (simp add: fmul_dbl 2) (simp add: dbl_def)
qed

lemma edge_sums:
  defines "xs \<equiv> replicate 50 edge_a @ replicate 50 edge_b"
  defines "x \<equiv> centred_X (dbl 4503600164241472)" and "y \<equiv> centred_Y (dbl 4503600164241472)"
  shows "fsum x xs d_zero = dbl 0"
    and "fsum y xs d_zero = dbl 50"
    and "fsum (\<lambda>s. fmul (x s) (x s)) xs d_zero = dbl 28823037615171174400"
    and "fsum (\<lambda>s. fmul (x s) (y s)) xs d_zero = dbl 28823037642014720000"
proof -
  have xa: "x edge_a = dbl (of_int (- 536870912) * pow2 0)"
    and xb: "x edge_b = dbl (of_int 536870912 * pow2 0)"
    and ya: "y edge_a = dbl (of_int (- 536870912) * pow2 0)"
    and yb: "y edge_b = dbl (of_int 536870913 * pow2 0)"
    by (simp_all add: x_def y_def edge_centred)
  have xxa: "fmul (x edge_a) (x edge_a) = dbl (of_int 1 * pow2 58)"
    and xxb: "fmul (x edge_b) (x edge_b) = dbl (of_int 1 * pow2 58)"
    and xya: "fmul (x edge_a) (y edge_a) = dbl (of_int 536870912 * pow2 29)"
    and xyb: "fmul (x edge_b) (y edge_b) = dbl (of_int 536870913 * pow2 29)"
    by (simp_all add: x_def y_def edge_centred edge_products pow2_def)
  have z: "d_zero = dbl (of_int 0 * pow2 0)" "d_zero = dbl (of_int 0 * pow2 58)"
    "d_zero = dbl (of_int 0 * pow2 29)"
    by (simp_all add: d_zero_def dbl_def)
  have "fsum x (replicate 50 edge_a) (dbl (of_int 0 * pow2 0))
        = dbl (of_int (0 + int 50 * (- 536870912)) * pow2 0)"
    by (rule fsum_replicate_exact [where t = x and s = edge_a, OF xa]) simp_all
  moreover have "fsum x (replicate 50 edge_b) (dbl (of_int (- 26843545600) * pow2 0))
        = dbl (of_int (- 26843545600 + int 50 * 536870912) * pow2 0)"
    by (rule fsum_replicate_exact [where t = x and s = edge_b, OF xb]) simp_all
  ultimately show "fsum x xs d_zero = dbl 0"
    unfolding xs_def fsum_append z(1) by simp
  have "fsum y (replicate 50 edge_a) (dbl (of_int 0 * pow2 0))
        = dbl (of_int (0 + int 50 * (- 536870912)) * pow2 0)"
    by (rule fsum_replicate_exact [where t = y and s = edge_a, OF ya]) simp_all
  moreover have "fsum y (replicate 50 edge_b) (dbl (of_int (- 26843545600) * pow2 0))
        = dbl (of_int (- 26843545600 + int 50 * 536870913) * pow2 0)"
    by (rule fsum_replicate_exact [where t = y and s = edge_b, OF yb]) simp_all
  ultimately show "fsum y xs d_zero = dbl 50"
    unfolding xs_def fsum_append z(1) by simp
  have "fsum (\<lambda>s. fmul (x s) (x s)) (replicate 50 edge_a) (dbl (of_int 0 * pow2 58))
        = dbl (of_int (0 + int 50 * 1) * pow2 58)"
    by (rule fsum_replicate_exact [where t = "\<lambda>s. fmul (x s) (x s)" and s = edge_a, OF xxa]) simp_all
  moreover have "fsum (\<lambda>s. fmul (x s) (x s)) (replicate 50 edge_b) (dbl (of_int 50 * pow2 58))
        = dbl (of_int (50 + int 50 * 1) * pow2 58)"
    by (rule fsum_replicate_exact [where t = "\<lambda>s. fmul (x s) (x s)" and s = edge_b, OF xxb]) simp_all
  ultimately show "fsum (\<lambda>s. fmul (x s) (x s)) xs d_zero = dbl 28823037615171174400"
    unfolding xs_def fsum_append z(2) by (simp add: pow2_def)
  have "fsum (\<lambda>s. fmul (x s) (y s)) (replicate 50 edge_a) (dbl (of_int 0 * pow2 29))
        = dbl (of_int (0 + int 50 * 536870912) * pow2 29)"
    by (rule fsum_replicate_exact [where t = "\<lambda>s. fmul (x s) (y s)" and s = edge_a, OF xya]) simp_all
  moreover have "fsum (\<lambda>s. fmul (x s) (y s)) (replicate 50 edge_b) (dbl (of_int 26843545600 * pow2 29))
        = dbl (of_int (26843545600 + int 50 * 536870913) * pow2 29)"
    by (rule fsum_replicate_exact [where t = "\<lambda>s. fmul (x s) (y s)" and s = edge_b, OF xyb]) simp_all
  ultimately show "fsum (\<lambda>s. fmul (x s) (y s)) xs d_zero = dbl 28823037642014720000"
    unfolding xs_def fsum_append z(3) by (simp add: pow2_def)
qed

lemma edge_inv_n: "fdiv d_one (i2d 100) = dbl (5764607523034235 / 576460752303423488)"
proof -
  have i: "i2d 100 = dbl 100" using i2d_exact [of 100] by (simp add: dbl_def)
  have "fdiv (dbl 1) (dbl 100) = rnd False (1 / 100)" by (simp add: fdiv_dbl)
  also have "\<dots> = DFinite False (5764607523034235 / 576460752303423488)"
    by (rule rnd_near [where e = "- 7" and k = 5764607523034235 and d = "1 / 100 - 5764607523034235 / 576460752303423488"])
      (simp_all add: pow2_def)
  also have "\<dots> = dbl (5764607523034235 / 576460752303423488)" by (simp add: dbl_def)
  finally show ?thesis by (simp add: i d_one_def dbl_def [of 1])
qed

lemma edge_arith:
  defines "inv_n \<equiv> dbl (5764607523034235 / 576460752303423488)"
  shows "fmul (dbl 0) inv_n = dbl 0"
    and "fmul (dbl 50) inv_n = dbl (1 / 2)"
    and "fmul inv_n (dbl 28823037642014720000) = dbl 288230376420147200"
    and "fmul inv_n (dbl 28823037615171174400) = dbl 288230376151711744"
    and "fmul (dbl 0) (dbl (1 / 2)) = dbl 0"
    and "fmul (dbl 0) (dbl 0) = dbl 0"
    and "fsub (dbl 288230376420147200) (dbl 0) = dbl 288230376420147200"
    and "fsub (dbl 288230376151711744) (dbl 0) = dbl 288230376151711744"
    and "fdiv (dbl 288230376420147200) (dbl 288230376151711744) = dbl (1 + 1 / 2 ^ 30)"
    and "fmul (dbl (1 + 1 / 2 ^ 30)) (dbl 0) = dbl 0"
    and "fsub (dbl (1 / 2)) (dbl 0) = dbl (1 / 2)"
    and "fadd (dbl 4503600164241472) (dbl (1 / 2)) = dbl 4503600164241472"
    and "fmul (dbl (1 + 1 / 2 ^ 30)) (dbl 4503600164241472) = dbl 4503600168435777"
    and "fsub (dbl 4503600164241472) (dbl 4503600168435777) = dbl (- 4194305)"
proof -
  show "fmul (dbl 0) inv_n = dbl 0" unfolding inv_n_def by (rule fmul_dbl_zero) simp
  have "fmul (dbl 50) inv_n = rnd False (50 * (5764607523034235 / 576460752303423488))"
    unfolding inv_n_def by (simp add: fmul_dbl)
  also have "\<dots> = DFinite False (1 / 2)"
    by (rule rnd_near [where e = "- 1" and k = "2 ^ 52" and d = "50 * (5764607523034235 / 576460752303423488) - 1 / 2"])
      (simp_all add: pow2_def)
  finally show "fmul (dbl 50) inv_n = dbl (1 / 2)" by (simp add: dbl_def)
  have "fmul inv_n (dbl 28823037642014720000) = rnd False (5764607523034235 / 576460752303423488 * 28823037642014720000)"
    unfolding inv_n_def by (simp add: fmul_dbl)
  also have "\<dots> = DFinite False 288230376420147200"
    by (rule rnd_near [where e = 58 and k = 4503599631564800 and d = "5764607523034235 / 576460752303423488 * 28823037642014720000 - 288230376420147200"])
      (simp_all add: pow2_def)
  finally show "fmul inv_n (dbl 28823037642014720000) = dbl 288230376420147200" by (simp add: dbl_def)
  have "fmul inv_n (dbl 28823037615171174400) = rnd False (5764607523034235 / 576460752303423488 * 28823037615171174400)"
    unfolding inv_n_def by (simp add: fmul_dbl)
  also have "\<dots> = DFinite False 288230376151711744"
    by (rule rnd_near [where e = 58 and k = "2 ^ 52" and d = "5764607523034235 / 576460752303423488 * 28823037615171174400 - 288230376151711744"])
      (simp_all add: pow2_def)
  finally show "fmul inv_n (dbl 28823037615171174400) = dbl 288230376151711744" by (simp add: dbl_def)
  show "fmul (dbl 0) (dbl (1 / 2)) = dbl 0" by (rule fmul_dbl_zero) simp
  show "fmul (dbl 0) (dbl 0) = dbl 0" by (rule fmul_dbl_zero) simp
  have c: "rnd False 288230376420147200 = DFinite False 288230376420147200"
    by (rule rnd_near [where e = 58 and k = 4503599631564800 and d = 0]) (simp_all add: pow2_def)
  have p: "rnd False 288230376151711744 = DFinite False 288230376151711744"
    by (rule rnd_near [where e = 58 and k = "2 ^ 52" and d = 0]) (simp_all add: pow2_def)
  show "fsub (dbl 288230376420147200) (dbl 0) = dbl 288230376420147200"
    by (simp add: fsub_dbl c) (simp add: dbl_def)
  show "fsub (dbl 288230376151711744) (dbl 0) = dbl 288230376151711744"
    by (simp add: fsub_dbl p) (simp add: dbl_def)
  have "fdiv (dbl 288230376420147200) (dbl 288230376151711744) = rnd False (288230376420147200 / 288230376151711744)"
    by (simp add: fdiv_dbl)
  also have "\<dots> = DFinite False (1 + 1 / 2 ^ 30)"
    by (rule rnd_near [where e = 0 and k = 4503599631564800 and d = 0]) (simp_all add: pow2_def)
  finally show "fdiv (dbl 288230376420147200) (dbl 288230376151711744) = dbl (1 + 1 / 2 ^ 30)"
    by (simp add: dbl_def)
  show "fmul (dbl (1 + 1 / 2 ^ 30)) (dbl 0) = dbl 0" by (rule fmul_dbl_zero) simp
  have "fsub (dbl (1 / 2)) (dbl 0) = rnd False (1 / 2)" by (simp add: fsub_dbl)
  also have "\<dots> = DFinite False (1 / 2)"
    by (rule rnd_near [where e = "- 1" and k = "2 ^ 52" and d = 0]) (simp_all add: pow2_def)
  finally show "fsub (dbl (1 / 2)) (dbl 0) = dbl (1 / 2)" by (simp add: dbl_def)
  have "fadd (dbl 4503600164241472) (dbl (1 / 2)) = rnd False (4503600164241472 + 1 / 2)"
    by (simp add: fadd_dbl)
  also have "\<dots> = DFinite False 4503600164241472"
    by (rule rnd_tie [where e = 52 and k = 4503600164241472 and d = "1 / 2"]) (simp_all add: pow2_def)
  finally show "fadd (dbl 4503600164241472) (dbl (1 / 2)) = dbl 4503600164241472" by (simp add: dbl_def)
  have "fmul (dbl (1 + 1 / 2 ^ 30)) (dbl 4503600164241472) = rnd False ((1 + 1 / 2 ^ 30) * 4503600164241472)"
    by (simp add: fmul_dbl)
  also have "\<dots> = DFinite False 4503600168435777"
    by (rule rnd_near [where e = 52 and k = 4503600168435777 and d = "(1 + 1 / 2 ^ 30) * 4503600164241472 - 4503600168435777"])
      (simp_all add: pow2_def)
  finally show "fmul (dbl (1 + 1 / 2 ^ 30)) (dbl 4503600164241472) = dbl 4503600168435777" by (simp add: dbl_def)
  have "fsub (dbl 4503600164241472) (dbl 4503600168435777) = rnd True 4194305" by (simp add: fsub_dbl)
  then show "fsub (dbl 4503600164241472) (dbl 4503600168435777) = dbl (- 4194305)" by (simp add: rnd_num dbl_def)
qed

lemma edge_conversions:
  "sint (d2i (dbl 4503600168435777)) = 4503600168435777"
  "i2d 4503600168435777 = dbl 4503600168435777"
  "d2i (dbl (- 4194305)) = - 4194305"
proof -
  have "d2i (DFinite False 4503600168435777) = word_of_int (trunc (signed_val False 4503600168435777))"
    by (rule d2i_in_range) simp_all
  then have 1: "d2i (dbl 4503600168435777) = word_of_int 4503600168435777"
    by (simp add: dbl_def signed_val_def trunc_def)
  show "sint (d2i (dbl 4503600168435777)) = 4503600168435777"
    unfolding 1 by (rule sint_word_of_int_i64) simp_all
  show "i2d 4503600168435777 = dbl 4503600168435777"
    using i2d_exact [of 4503600168435777] by (simp add: dbl_def)
  have "d2i (DFinite True 4194305) = word_of_int (trunc (signed_val True 4194305))"
    by (rule d2i_in_range) simp_all
  then show "d2i (dbl (- 4194305)) = - 4194305"
    by (simp add: dbl_def signed_val_def trunc_def)
qed

lemma edge_regression:
  "regression (replicate 50 edge_a @ replicate 50 edge_b)
     = \<lparr>a = DFinite False (1 + 1 / 2 ^ 30), b = - 4194305\<rparr>"
proof -
  have len: "length (replicate 50 edge_a @ replicate 50 edge_b) = 100" by simp
  have a: "dbl (1 + 1 / 2 ^ 30) = DFinite False (1 + 1 / 2 ^ 30)" by (simp add: dbl_def)
  show ?thesis
    unfolding regression_float [OF len edge_means] Let_def edge_sums edge_inv_n edge_arith
      edge_conversions
    by (simp only: a)
qed

text \<open>
  Claim C2, as stated, fails once the server clock has passed \<open>2 ^ 52\<close> ns. The 100 samples
  below, 50 at one instant and 50 about 1.07 s later, lie exactly on the line
  \<open>response = midpoint + 1 / 2\<close>. The stored slope is \<open>1 + 1 / 2 ^ 30\<close> and the stored
  intercept is -4194305 ns, 4.2 ms away from the intercept \<open>1 / 2\<close> of the line.
\<close>

theorem edge_window_misses_line:
  "\<exists>st'. add_sample edge_window edge_reply_b 4503600701117385 = Some st' \<and>
      samples st' = replicate 50 edge_a @ replicate 50 edge_b \<and>
      length (samples st') = num_samples \<and>
      device_time edge_a = 1 * midpoint edge_a + 1 / 2 \<and>
      device_time edge_b = 1 * midpoint edge_b + 1 / 2 \<and>
      midpoint edge_b - midpoint edge_a = 1073741825 \<and>
      a (offset st') = DFinite False (1 + 1 / 2 ^ 30) \<and>
      sint (b (offset st')) = - 4194305"
proof -
  define xs where "xs = replicate 50 edge_a @ replicate 50 edge_b"
  define st' where "st' = edge_window\<lparr>samples := xs, offset := regression xs\<rparr>"
  have l: "length (samples edge_window) < num_samples"
    by (simp add: edge_window_def num_samples_def)
  have "replicate 49 edge_b @ [edge_b] = replicate (Suc 49) edge_b"
    by (simp only: replicate_append_same replicate_Suc)
  then have x: "replicate 50 edge_a @ replicate 49 edge_b @ [edge_b] = xs"
    by (simp add: xs_def)
  have "add_sample edge_window edge_reply_b 4503600701117385 =
      Some (edge_window\<lparr>samples := samples edge_window @ [edge_b],
              offset := regression (samples edge_window @ [edge_b])\<rparr>)"
    unfolding edge_b_def by (rule add_sample_append [OF l])
  moreover have "samples edge_window @ [edge_b] = xs" by (simp add: edge_window_def x)
  ultimately have h1: "add_sample edge_window edge_reply_b 4503600701117385 = Some st'"
    by (simp add: st'_def)
  have r: "regression xs = \<lparr>a = DFinite False (1 + 1 / 2 ^ 30), b = - 4194305\<rparr>"
    unfolding xs_def by (rule edge_regression)
  have m: "device_time edge_a = 1 * midpoint edge_a + 1 / 2"
    "device_time edge_b = 1 * midpoint edge_b + 1 / 2"
    "midpoint edge_b - midpoint edge_a = 1073741825"
    by (simp_all add: device_time_def midpoint_def edge_a_def edge_b_def edge_reply_a_def
        edge_reply_b_def mk_sample_def)
  have "samples st' = replicate 50 edge_a @ replicate 50 edge_b"
    "length (samples st') = num_samples"
    "a (offset st') = DFinite False (1 + 1 / 2 ^ 30)" "sint (b (offset st')) = - 4194305"
    by (simp_all add: st'_def xs_def num_samples_def r [unfolded xs_def])
  with h1 m show ?thesis by blast
qed

end
